(* ===== verification/AVR_Prelude.thy ===== *)
theory AVR_Prelude
  imports Main "HOL-Library.Word" "HOL-Library.Monad_Syntax"
begin

text \<open>
  Shared vocabulary of the development: the integer types of avr-gcc (\<open>uint8_t\<close>,
  \<open>uint16_t\<close>, \<open>uint32_t\<close>; \<open>int\<close> has 16 bits and \<open>long\<close> has 32), bounds-checked C
  arrays whose out-of-range access is the value \<open>None\<close>, and the part of a circular
  array that a ring buffer holds.
\<close>

unbundle bit_operations_syntax

named_theorems ring_simps \<open>equations that push operations through the view of a ring\<close>

named_theorems arr_simps \<open>equations of the bounds-checked array accesses\<close>

section \<open>Machine types\<close>

type_synonym u8 = "8 word"
type_synonym u16 = "16 word"
type_synonym u32 = "32 word"

text \<open>The register macros of \<open>wiring_private.h\<close> and \<open>avr/sfr_defs.h\<close>.\<close>

definition BV :: "nat \<Rightarrow> u8" where
  "BV b = push_bit b 1"

definition sbi :: "u8 \<Rightarrow> nat \<Rightarrow> u8" where
  "sbi r b = r OR BV b"

definition cbi :: "u8 \<Rightarrow> nat \<Rightarrow> u8" where
  "cbi r b = r AND NOT (BV b)"

lemma bit_BV: "bit (BV b) n \<longleftrightarrow> n = b \<and> b < 8"
  by (auto simp: BV_def bit_exp_iff)

lemma bit_sbi [simp]: "bit (sbi r b) n \<longleftrightarrow> bit r n \<or> n = b \<and> b < 8"
  by (simp add: sbi_def bit_or_iff bit_BV)

lemma bit_cbi [simp]: "bit (cbi r b) n \<longleftrightarrow> bit r n \<and> n \<noteq> b"
  by (auto simp: cbi_def bit_and_iff bit_not_iff bit_BV dest: bit_imp_le_length)

lemma unat_inc: "unat c < unat s \<Longrightarrow> unat (c + 1) = Suc (unat c)" for c s :: "'a::len word"
proof -
  assume "unat c < unat s"
  moreover have "unat s < 2 ^ LENGTH('a)" by (rule unsigned_less)
  ultimately have "Suc (unat c) < 2 ^ LENGTH('a)" by linarith
  then show ?thesis by (simp add: unat_word_ariths)
qed

lemma unat_dec: "c \<noteq> 0 \<Longrightarrow> unat c = Suc (unat (c - 1))" for c :: "'a::len word"
  by (simp add: unat_minus_one unat_gt_0)

section \<open>Bounds-checked arrays\<close>

text \<open>
  A C array is a list. \<open>arr_get\<close> and \<open>arr_set\<close> are \<open>a[i]\<close> and \<open>a[i] = x\<close>; reading or
  writing outside the array, which is undefined in C, is \<open>None\<close>.
\<close>

definition arr_get :: "'a list \<Rightarrow> nat \<Rightarrow> 'a option" where
  "arr_get a i = (if i < length a then Some (a ! i) else None)"

definition arr_set :: "'a list \<Rightarrow> nat \<Rightarrow> 'a \<Rightarrow> 'a list option" where
  "arr_set a i x = (if i < length a then Some (a[i := x]) else None)"

lemma arr_get_in [simp, arr_simps]: "i < length a \<Longrightarrow> arr_get a i = Some (a ! i)"
  by (simp add: arr_get_def)

lemma arr_get_out [simp, arr_simps]: "length a \<le> i \<Longrightarrow> arr_get a i = None"
  by (simp add: arr_get_def)

lemma arr_set_in [simp, arr_simps]: "i < length a \<Longrightarrow> arr_set a i x = Some (a[i := x])"
  by (simp add: arr_set_def)

lemma arr_set_out [simp, arr_simps]: "length a \<le> i \<Longrightarrow> arr_set a i x = None"
  by (simp add: arr_set_def)

lemma arr_set_Some_iff:
  "arr_set a i x = Some b \<longleftrightarrow> i < length a \<and> b = a[i := x]"
  by (auto simp: arr_set_def)

lemma arr_get_Some_iff:
  "arr_get a i = Some x \<longleftrightarrow> i < length a \<and> x = a ! i"
  by (auto simp: arr_get_def)

section \<open>The occupied part of a circular array\<close>

text \<open>
  \<open>ring_list a s n\<close> lists the \<open>n\<close> elements of the circular array \<open>a\<close> from index \<open>s\<close> on.
\<close>

definition ring_list :: "'a list \<Rightarrow> nat \<Rightarrow> nat \<Rightarrow> 'a list" where
  "ring_list a s n = map (\<lambda>k. a ! ((s + k) mod length a)) [0..<n]"

lemma ring_list_0 [simp, ring_simps]: "ring_list a s 0 = []"
  by (simp add: ring_list_def)

lemma length_ring_list [simp, ring_simps]: "length (ring_list a s n) = n"
  by (simp add: ring_list_def)

lemma ring_list_Nil_iff [simp]: "ring_list a s n = [] \<longleftrightarrow> n = 0"
  by (metis length_ring_list length_0_conv)

lemma ring_list_mod [ring_simps]: "ring_list a (s mod length a) n = ring_list a s n"
  by (simp add: ring_list_def mod_add_left_eq)

lemma ring_list_Suc:
  "ring_list a s (Suc n) = a ! (s mod length a) # ring_list a (Suc s) n"
proof -
  have "[0..<Suc n] = 0 # map Suc [0..<n]"
    by (simp add: map_Suc_upt upt_conv_Cons del: upt_Suc)
  then show ?thesis
    by (simp add: ring_list_def)
qed

lemma ring_list_snoc:
  "ring_list a s (Suc n) = ring_list a s n @ [a ! ((s + n) mod length a)]"
  by (simp add: ring_list_def)

lemma ring_index_inj_le:
  assumes "i \<le> j" "j < L" "(s + i) mod L = (s + j) mod (L::nat)"
  shows "i = j"
proof -
  have "L dvd (s + j) - (s + i)"
    using assms mod_eq_dvd_iff_nat [of "s + i" "s + j" L] by simp
  then show ?thesis
    using assms by (auto dest: dvd_imp_le)
qed

lemma ring_index_inj:
  assumes "i < L" "j < L" "(s + i) mod L = (s + j) mod (L::nat)"
  shows "i = j"
  using assms ring_index_inj_le [of i j L s] ring_index_inj_le [of j i L s]
  by (cases "i \<le> j") simp_all

lemma ring_list_write:
  assumes "n < length a"
  shows "ring_list (a[(s + n) mod length a := x]) s (Suc n) = ring_list a s n @ [x]"
proof -
  have L: "0 < length a" using assms by linarith
  have "a[(s + n) mod length a := x] ! ((s + k) mod length a) = a ! ((s + k) mod length a)"
    if "k < n" for k
    using that assms ring_index_inj [of k "length a" n s]
    by (metis less_trans nat_neq_iff nth_list_update_neq)
  then have "ring_list (a[(s + n) mod length a := x]) s n = ring_list a s n"
    by (auto simp: ring_list_def)
  then show ?thesis
    using L by (simp add: ring_list_snoc)
qed

end
