(* ===== verification/Fifo_Interface.thy ===== *)
theory Fifo_Interface
  imports AVR_Prelude
begin

text \<open>
  The contract that the byte queues of the package share: LUFA's \<open>RingBuffer_t\<close>, the receive
  and transmit buffers of \<open>HardwareSerial\<close> and the receive buffer of \<open>SoftwareSerial\<close> are
  circular arrays that promise a bounded first-in first-out queue.  The locale states the
  promise over the list of queued elements; what a client may conclude from it, that a
  guarded sequence of insertions and removals behaves like the list, is proved once here.
\<close>

section \<open>The reference queue\<close>

datatype 'a fifo_op = Put 'a | Get

text \<open>
  A run of the list itself with room for \<open>n\<close> elements: an insertion into a full queue and a
  removal from an empty one do nothing.  The result is the accepted insertions, the removed
  elements and the final queue.
\<close>

fun fifo_ref :: "nat \<Rightarrow> 'a fifo_op list \<Rightarrow> 'a list \<Rightarrow> 'a list \<times> 'a list \<times> 'a list" where
  "fifo_ref n [] xs = ([], [], xs)"
| "fifo_ref n (Put x # ops) xs =
     (if length xs < n
      then (case fifo_ref n ops (xs @ [x]) of (ins, outs, ys) \<Rightarrow> (x # ins, outs, ys))
      else fifo_ref n ops xs)"
| "fifo_ref n (Get # ops) xs =
     (case xs of
        [] \<Rightarrow> fifo_ref n ops []
      | x # xs' \<Rightarrow> (case fifo_ref n ops xs' of (ins, outs, ys) \<Rightarrow> (ins, x # outs, ys)))"

text \<open>The same run on an implementation, guarded by its own full and empty tests.\<close>

fun fifo_run :: "('q \<Rightarrow> bool) \<Rightarrow> ('q \<Rightarrow> bool) \<Rightarrow> ('a \<Rightarrow> 'q \<Rightarrow> 'q) \<Rightarrow> ('q \<Rightarrow> 'a \<times> 'q) \<Rightarrow>
    'a fifo_op list \<Rightarrow> 'q \<Rightarrow> 'a list \<times> 'a list \<times> 'q" where
  "fifo_run isfull isempty put get [] q = ([], [], q)"
| "fifo_run isfull isempty put get (Put x # ops) q =
     (if isfull q then fifo_run isfull isempty put get ops q
      else (case fifo_run isfull isempty put get ops (put x q) of
              (ins, outs, q') \<Rightarrow> (x # ins, outs, q')))"
| "fifo_run isfull isempty put get (Get # ops) q =
     (if isempty q then fifo_run isfull isempty put get ops q
      else (case get q of (x, q1) \<Rightarrow>
             (case fifo_run isfull isempty put get ops q1 of
                (ins, outs, q') \<Rightarrow> (ins, x # outs, q'))))"

lemma fifo_ref_order:
  "fifo_ref n ops xs = (ins, outs, ys) \<Longrightarrow> xs @ ins = outs @ ys"
proof (induction n ops xs arbitrary: ins outs ys rule: fifo_ref.induct)
  case (1 n xs)
  then show ?case by simp
next
  case (2 n x ops xs)
  then show ?case by (fastforce split: if_splits prod.splits)
next
  case (3 n ops xs)
  then show ?case by (fastforce split: list.splits prod.splits)
qed

lemma fifo_ref_length:
  "fifo_ref n ops xs = (ins, outs, ys) \<Longrightarrow> length xs \<le> n \<Longrightarrow> length ys \<le> n"
proof (induction n ops xs arbitrary: ins outs ys rule: fifo_ref.induct)
  case (1 n xs)
  then show ?case by simp
next
  case (2 n x ops xs)
  then show ?case by (fastforce split: if_splits prod.splits)
next
  case (3 n ops xs)
  then show ?case by (fastforce split: list.splits prod.splits)
qed

section \<open>The interface\<close>

locale bounded_fifo =
  fixes invar :: "'q \<Rightarrow> bool"
    and contents :: "'q \<Rightarrow> 'a list"
    and capacity :: "'q \<Rightarrow> nat"
    and isfull :: "'q \<Rightarrow> bool"
    and isempty :: "'q \<Rightarrow> bool"
    and put :: "'a \<Rightarrow> 'q \<Rightarrow> 'q"
    and get :: "'q \<Rightarrow> 'a \<times> 'q"
  assumes contents_bound: "invar q \<Longrightarrow> length (contents q) \<le> capacity q"
    and full_iff: "invar q \<Longrightarrow> isfull q \<longleftrightarrow> length (contents q) = capacity q"
    and empty_iff: "invar q \<Longrightarrow> isempty q \<longleftrightarrow> contents q = []"
    and put_inv: "invar q \<Longrightarrow> \<not> isfull q \<Longrightarrow> invar (put x q)"
    and put_contents: "invar q \<Longrightarrow> \<not> isfull q \<Longrightarrow> contents (put x q) = contents q @ [x]"
    and put_capacity: "invar q \<Longrightarrow> \<not> isfull q \<Longrightarrow> capacity (put x q) = capacity q"
    and get_inv: "invar q \<Longrightarrow> \<not> isempty q \<Longrightarrow> invar (snd (get q))"
    and get_contents: "invar q \<Longrightarrow> \<not> isempty q \<Longrightarrow> contents q = fst (get q) # contents (snd (get q))"
    and get_capacity: "invar q \<Longrightarrow> \<not> isempty q \<Longrightarrow> capacity (snd (get q)) = capacity q"
begin

abbreviation run :: "'a fifo_op list \<Rightarrow> 'q \<Rightarrow> 'a list \<times> 'a list \<times> 'q" where
  "run \<equiv> fifo_run isfull isempty put get"

lemma run_refines:
  "invar q \<Longrightarrow> run ops q = (ins, outs, q') \<Longrightarrow>
    invar q' \<and> capacity q' = capacity q \<and> fifo_ref (capacity q) ops (contents q) = (ins, outs, contents q')"
proof (induction ops arbitrary: q ins outs)
  case Nil
  then show ?case by simp
next
  case (Cons op ops)
  show ?case
  proof (cases op)
    case (Put x)
    show ?thesis
    proof (cases "isfull q")
      case True
      with Cons Put show ?thesis by (simp add: full_iff)
    next
      case False
      obtain ins' outs' where r: "run ops (put x q) = (ins', outs', q')"
          "ins = x # ins'" "outs = outs'"
        using Cons.prems Put False by (auto split: prod.splits)
      have "length (contents q) < capacity q"
        using Cons.prems(1) False contents_bound [of q] full_iff [of q] by linarith
      then show ?thesis
        using Cons.IH [OF put_inv [OF Cons.prems(1) False] r(1)] r Put Cons.prems(1) False
        by (simp add: put_contents put_capacity)
    qed
  next
    case Get
    show ?thesis
    proof (cases "isempty q")
      case True
      with Cons.IH [OF Cons.prems(1), of ins outs] Cons.prems Get show ?thesis
        by (simp add: empty_iff)
    next
      case False
      obtain ins' outs' where r: "run ops (snd (get q)) = (ins', outs', q')"
          "ins = ins'" "outs = fst (get q) # outs'"
        using Cons.prems Get False by (auto split: prod.splits)
      show ?thesis
        using Cons.IH [OF get_inv [OF Cons.prems(1) False] r(1)] r Get
          get_contents [OF Cons.prems(1) False] get_capacity [OF Cons.prems(1) False]
        by simp
    qed
  qed
qed

lemma run_order:
  assumes "invar q" "run ops q = (ins, outs, q')"
  shows "contents q @ ins = outs @ contents q'"
  using run_refines [OF assms] fifo_ref_order by blast

end

end
