(* ===== verification/LUFA_RingBuffer.thy ===== *)
theory LUFA_RingBuffer
  imports Fifo_Interface
begin

text \<open>
  LUFA's byte ring buffer (\<open>LUFA/Drivers/Misc/RingBuffer.h\<close>).  The structure's pointers are
  offsets into the underlying array: \<open>Start\<close> is offset 0 and \<open>End\<close> is \<open>Size\<close>.  The theory
  holds the operations, their invariant, the proof that they provide the bounded queue
  contract, and the micro-step model of one inserting and one removing thread of execution.
\<close>

section \<open>State and operations\<close>

record RingBuffer_t =
  rb_Mem :: "u8 list"
  rb_In :: nat
  rb_Out :: nat
  rb_Start :: nat
  rb_End :: nat
  rb_Size :: u16
  rb_Count :: u16

definition RingBuffer_InitBuffer :: "u8 list \<Rightarrow> u16 \<Rightarrow> RingBuffer_t" where
  "RingBuffer_InitBuffer DataPtr Size =
     \<lparr>rb_Mem = DataPtr, rb_In = 0, rb_Out = 0, rb_Start = 0, rb_End = unat Size,
      rb_Size = Size, rb_Count = 0\<rparr>"

definition RingBuffer_GetCount :: "RingBuffer_t \<Rightarrow> u16" where
  "RingBuffer_GetCount Buffer = rb_Count Buffer"

definition RingBuffer_GetFreeCount :: "RingBuffer_t \<Rightarrow> u16" where
  "RingBuffer_GetFreeCount Buffer = rb_Size Buffer - RingBuffer_GetCount Buffer"

definition RingBuffer_IsEmpty :: "RingBuffer_t \<Rightarrow> bool" where
  "RingBuffer_IsEmpty Buffer \<longleftrightarrow> RingBuffer_GetCount Buffer = 0"

definition RingBuffer_IsFull :: "RingBuffer_t \<Rightarrow> bool" where
  "RingBuffer_IsFull Buffer \<longleftrightarrow> RingBuffer_GetCount Buffer = rb_Size Buffer"

text \<open>
  Insertion and removal are the sequences of their statements; the statements are named
  because another thread of execution may run between them.
\<close>

definition rb_store :: "u8 \<Rightarrow> RingBuffer_t \<Rightarrow> RingBuffer_t" where
  "rb_store Data Buffer = Buffer\<lparr>rb_Mem := (rb_Mem Buffer)[rb_In Buffer := Data]\<rparr>"

definition rb_advance_in :: "RingBuffer_t \<Rightarrow> RingBuffer_t" where
  "rb_advance_in Buffer =
     (if rb_In Buffer + 1 = rb_End Buffer
      then Buffer\<lparr>rb_In := rb_Start Buffer\<rparr>
      else Buffer\<lparr>rb_In := rb_In Buffer + 1\<rparr>)"

definition rb_count_up :: "RingBuffer_t \<Rightarrow> RingBuffer_t" where
  "rb_count_up Buffer = Buffer\<lparr>rb_Count := rb_Count Buffer + 1\<rparr>"

definition RingBuffer_Insert :: "u8 \<Rightarrow> RingBuffer_t \<Rightarrow> RingBuffer_t" where
  "RingBuffer_Insert Data Buffer = rb_count_up (rb_advance_in (rb_store Data Buffer))"

definition rb_load :: "RingBuffer_t \<Rightarrow> u8" where
  "rb_load Buffer = rb_Mem Buffer ! rb_Out Buffer"

definition rb_advance_out :: "RingBuffer_t \<Rightarrow> RingBuffer_t" where
  "rb_advance_out Buffer =
     (if rb_Out Buffer + 1 = rb_End Buffer
      then Buffer\<lparr>rb_Out := rb_Start Buffer\<rparr>
      else Buffer\<lparr>rb_Out := rb_Out Buffer + 1\<rparr>)"

definition rb_count_down :: "RingBuffer_t \<Rightarrow> RingBuffer_t" where
  "rb_count_down Buffer = Buffer\<lparr>rb_Count := rb_Count Buffer - 1\<rparr>"

definition RingBuffer_Remove :: "RingBuffer_t \<Rightarrow> u8 \<times> RingBuffer_t" where
  "RingBuffer_Remove Buffer = (rb_load Buffer, rb_count_down (rb_advance_out Buffer))"

definition RingBuffer_Peek :: "RingBuffer_t \<Rightarrow> u8" where
  "RingBuffer_Peek Buffer = rb_Mem Buffer ! rb_Out Buffer"

section \<open>Two threads of execution\<close>

text \<open>
  The comments of the header allow one inserting and one removing thread, typically the main
  program and an interrupt handler, each testing the buffer first.  A step is one statement
  of one of them; \<open>sent\<close> and \<open>rcvd\<close> record what was inserted and removed so far.
\<close>

datatype producer_pc = P_Test | P_Store u8 | P_Advance u8 | P_Count

datatype consumer_pc = C_Test | C_Load | C_Advance | C_Count

record spsc =
  sp_rb :: RingBuffer_t
  sp_prod :: producer_pc
  sp_cons :: consumer_pc
  sp_sent :: "u8 list"
  sp_rcvd :: "u8 list"

inductive spsc_step :: "spsc \<Rightarrow> spsc \<Rightarrow> bool" where
  p_test: "sp_prod s = P_Test \<Longrightarrow> \<not> RingBuffer_IsFull (sp_rb s) \<Longrightarrow>
     spsc_step s (s\<lparr>sp_prod := P_Store d\<rparr>)"
| p_store: "sp_prod s = P_Store d \<Longrightarrow>
     spsc_step s (s\<lparr>sp_rb := rb_store d (sp_rb s), sp_prod := P_Advance d\<rparr>)"
| p_advance: "sp_prod s = P_Advance d \<Longrightarrow>
     spsc_step s (s\<lparr>sp_rb := rb_advance_in (sp_rb s), sp_prod := P_Count,
       sp_sent := sp_sent s @ [d]\<rparr>)"
| p_count: "sp_prod s = P_Count \<Longrightarrow>
     spsc_step s (s\<lparr>sp_rb := rb_count_up (sp_rb s), sp_prod := P_Test\<rparr>)"
| c_test: "sp_cons s = C_Test \<Longrightarrow> \<not> RingBuffer_IsEmpty (sp_rb s) \<Longrightarrow>
     spsc_step s (s\<lparr>sp_cons := C_Load\<rparr>)"
| c_load: "sp_cons s = C_Load \<Longrightarrow>
     spsc_step s (s\<lparr>sp_cons := C_Advance, sp_rcvd := sp_rcvd s @ [rb_load (sp_rb s)]\<rparr>)"
| c_advance: "sp_cons s = C_Advance \<Longrightarrow>
     spsc_step s (s\<lparr>sp_rb := rb_advance_out (sp_rb s), sp_cons := C_Count\<rparr>)"
| c_count: "sp_cons s = C_Count \<Longrightarrow>
     spsc_step s (s\<lparr>sp_rb := rb_count_down (sp_rb s), sp_cons := C_Test\<rparr>)"

definition spsc_init :: "u8 list \<Rightarrow> spsc" where
  "spsc_init DataPtr =
     \<lparr>sp_rb = RingBuffer_InitBuffer DataPtr (of_nat (length DataPtr)),
      sp_prod = P_Test, sp_cons = C_Test, sp_sent = [], sp_rcvd = []\<rparr>"

inductive spsc_reach :: "u8 list \<Rightarrow> spsc \<Rightarrow> bool" for DataPtr where
  init: "spsc_reach DataPtr (spsc_init DataPtr)"
| step: "spsc_reach DataPtr s \<Longrightarrow> spsc_step s t \<Longrightarrow> spsc_reach DataPtr t"

section \<open>Shape of the structure and the queue it holds\<close>

definition rb_shape :: "RingBuffer_t \<Rightarrow> bool" where
  "rb_shape b \<longleftrightarrow> rb_Start b = 0 \<and> rb_End b = unat (rb_Size b) \<and>
     length (rb_Mem b) = unat (rb_Size b) \<and> 0 < unat (rb_Size b) \<and>
     rb_In b < unat (rb_Size b) \<and> rb_Out b < unat (rb_Size b)"

definition rb_occ :: "nat \<Rightarrow> RingBuffer_t \<Rightarrow> bool" where
  "rb_occ n b \<longleftrightarrow> n \<le> unat (rb_Size b) \<and> rb_In b = (rb_Out b + n) mod unat (rb_Size b)"

definition rb_inv :: "RingBuffer_t \<Rightarrow> bool" where
  "rb_inv b \<longleftrightarrow> rb_shape b \<and> rb_occ (unat (rb_Count b)) b"

definition rb_contents :: "RingBuffer_t \<Rightarrow> u8 list" where
  "rb_contents b = ring_list (rb_Mem b) (rb_Out b) (unat (rb_Count b))"

lemmas rb_stmt_defs = rb_store_def rb_advance_in_def rb_count_up_def rb_load_def
  rb_advance_out_def rb_count_down_def


lemma rb_shape_store [simp]: "rb_shape (rb_store d b) = rb_shape b"
  by (simp add: rb_shape_def rb_store_def)

lemma rb_shape_advance_in [simp]: "rb_shape b \<Longrightarrow> rb_shape (rb_advance_in b)"
  by (auto simp: rb_shape_def rb_advance_in_def)

lemma rb_shape_advance_out [simp]: "rb_shape b \<Longrightarrow> rb_shape (rb_advance_out b)"
  by (auto simp: rb_shape_def rb_advance_out_def)

lemma rb_shape_count [simp]:
  "rb_shape (rb_count_up b) = rb_shape b" "rb_shape (rb_count_down b) = rb_shape b"
  by (simp_all add: rb_shape_def rb_count_up_def rb_count_down_def)

lemma Suc_mod_wrap: "i < L \<Longrightarrow> (if i + 1 = L then 0 else i + 1) = Suc i mod (L::nat)"
  by auto

lemma rb_In_advance_in: "rb_shape b \<Longrightarrow> rb_In (rb_advance_in b) = Suc (rb_In b) mod unat (rb_Size b)"
  by (auto simp: rb_shape_def rb_advance_in_def)

lemma rb_Out_advance_out: "rb_shape b \<Longrightarrow> rb_Out (rb_advance_out b) = Suc (rb_Out b) mod unat (rb_Size b)"
  by (auto simp: rb_shape_def rb_advance_out_def)

lemma rb_frame [simp]:
  "rb_Size (rb_store d b) = rb_Size b" "rb_Count (rb_store d b) = rb_Count b"
  "rb_In (rb_store d b) = rb_In b" "rb_Out (rb_store d b) = rb_Out b"
  "rb_Size (rb_advance_in b) = rb_Size b" "rb_Count (rb_advance_in b) = rb_Count b"
  "rb_Mem (rb_advance_in b) = rb_Mem b" "rb_Out (rb_advance_in b) = rb_Out b"
  "rb_Size (rb_advance_out b) = rb_Size b" "rb_Count (rb_advance_out b) = rb_Count b"
  "rb_Mem (rb_advance_out b) = rb_Mem b" "rb_In (rb_advance_out b) = rb_In b"
  "rb_Size (rb_count_up b) = rb_Size b" "rb_Mem (rb_count_up b) = rb_Mem b"
  "rb_In (rb_count_up b) = rb_In b" "rb_Out (rb_count_up b) = rb_Out b"
  "rb_Size (rb_count_down b) = rb_Size b" "rb_Mem (rb_count_down b) = rb_Mem b"
  "rb_In (rb_count_down b) = rb_In b" "rb_Out (rb_count_down b) = rb_Out b"
  by (simp_all add: rb_stmt_defs)

lemma rb_occ_advance_in:
  assumes "rb_shape b" "rb_occ n b" "n < unat (rb_Size b)"
  shows "rb_occ (Suc n) (rb_advance_in b)"
  using assms by (simp add: rb_occ_def rb_In_advance_in mod_Suc_eq)

lemma rb_occ_advance_out:
  assumes "rb_shape b" "rb_occ (Suc n) b"
  shows "rb_occ n (rb_advance_out b)"
  using assms by (simp add: rb_occ_def rb_Out_advance_out mod_add_left_eq)

lemma rb_occ_frame [simp]:
  "rb_occ n (rb_store d b) = rb_occ n b" "rb_occ n (rb_count_up b) = rb_occ n b"
  "rb_occ n (rb_count_down b) = rb_occ n b"
  by (simp_all add: rb_occ_def)

lemma rb_ring_store:
  assumes "rb_shape b" "rb_occ n b" "n < unat (rb_Size b)"
  shows "ring_list (rb_Mem (rb_store d b)) (rb_Out b) (Suc n) = ring_list (rb_Mem b) (rb_Out b) n @ [d]"
  using assms ring_list_write [of n "rb_Mem b" "rb_Out b" d]
  by (simp add: rb_shape_def rb_occ_def rb_store_def)

lemma rb_ring_load:
  assumes "rb_shape b"
  shows "ring_list (rb_Mem b) (rb_Out b) (Suc n) =
    rb_load b # ring_list (rb_Mem b) (rb_Out (rb_advance_out b)) n"
  using assms ring_list_mod [of "rb_Mem b" "Suc (rb_Out b)" n]
  by (simp add: ring_list_Suc rb_Out_advance_out rb_load_def) (simp add: rb_shape_def)


section \<open>The buffer provides the bounded queue\<close>

lemma rb_inv_init:
  "length DataPtr = unat Size \<Longrightarrow> 0 < unat Size \<Longrightarrow> rb_inv (RingBuffer_InitBuffer DataPtr Size)"
  by (simp add: rb_inv_def rb_shape_def rb_occ_def RingBuffer_InitBuffer_def)

lemma rb_contents_init [simp]: "rb_contents (RingBuffer_InitBuffer DataPtr Size) = []"
  by (simp add: rb_contents_def RingBuffer_InitBuffer_def)

lemma rb_not_full:
  "rb_inv b \<Longrightarrow> \<not> RingBuffer_IsFull b \<Longrightarrow> unat (rb_Count b) < unat (rb_Size b)"
  by (auto simp: rb_inv_def rb_occ_def RingBuffer_IsFull_def RingBuffer_GetCount_def
      le_less word_unat_eq_iff)

lemma rb_not_empty:
  "\<not> RingBuffer_IsEmpty b \<Longrightarrow> unat (rb_Count b) = Suc (unat (rb_Count b - 1))"
  by (simp add: RingBuffer_IsEmpty_def RingBuffer_GetCount_def unat_dec)

lemma rb_Insert_inv:
  assumes "rb_inv b" "\<not> RingBuffer_IsFull b"
  shows "rb_inv (RingBuffer_Insert d b)"
  using assms rb_not_full [OF assms] unat_inc [of "rb_Count b" "rb_Size b"]
    rb_occ_advance_in [of "rb_store d b" "unat (rb_Count b)"]
  by (simp add: rb_inv_def RingBuffer_Insert_def) (simp add: rb_count_up_def)

lemma rb_Insert_contents:
  assumes "rb_inv b" "\<not> RingBuffer_IsFull b"
  shows "rb_contents (RingBuffer_Insert d b) = rb_contents b @ [d]"
  using assms rb_not_full [OF assms] unat_inc [of "rb_Count b" "rb_Size b"]
    rb_ring_store [of b "unat (rb_Count b)" d]
  by (simp add: rb_inv_def RingBuffer_Insert_def rb_contents_def) (simp add: rb_count_up_def)

lemma rb_Remove_inv:
  assumes "rb_inv b" "\<not> RingBuffer_IsEmpty b"
  shows "rb_inv (snd (RingBuffer_Remove b))"
  using assms rb_not_empty [OF assms(2)] rb_occ_advance_out [of b "unat (rb_Count b - 1)"]
  by (simp add: rb_inv_def RingBuffer_Remove_def) (simp add: rb_count_down_def)

lemma rb_Remove_contents:
  assumes "rb_inv b" "\<not> RingBuffer_IsEmpty b"
  shows "rb_contents b = fst (RingBuffer_Remove b) # rb_contents (snd (RingBuffer_Remove b))"
  using assms rb_not_empty [OF assms(2)] rb_ring_load [of b "unat (rb_Count b - 1)"]
  by (simp add: rb_inv_def RingBuffer_Remove_def rb_contents_def) (simp add: rb_count_down_def)

lemma rb_Size_frame:
  "rb_Size (RingBuffer_Insert d b) = rb_Size b" "rb_Size (snd (RingBuffer_Remove b)) = rb_Size b"
  by (simp_all add: RingBuffer_Insert_def RingBuffer_Remove_def)

interpretation lufa_ring: bounded_fifo rb_inv rb_contents "\<lambda>b. unat (rb_Size b)"
  RingBuffer_IsFull RingBuffer_IsEmpty RingBuffer_Insert RingBuffer_Remove
proof unfold_locales
  show "length (rb_contents q) \<le> unat (rb_Size q)" if "rb_inv q" for q
    using that by (simp add: rb_inv_def rb_occ_def rb_contents_def)
  show "RingBuffer_IsFull q \<longleftrightarrow> length (rb_contents q) = unat (rb_Size q)" for q
    by (simp add: RingBuffer_IsFull_def RingBuffer_GetCount_def rb_contents_def word_unat_eq_iff)
  show "RingBuffer_IsEmpty q \<longleftrightarrow> rb_contents q = []" for q
    by (simp add: RingBuffer_IsEmpty_def RingBuffer_GetCount_def rb_contents_def unat_eq_0)
qed (simp_all add: rb_Insert_inv rb_Insert_contents rb_Remove_inv rb_Size_frame
    rb_Remove_contents [symmetric])


section \<open>Interleaved insertion and removal\<close>

text \<open>
  Between the statements of an insertion the new element may be stored but not counted, and
  between those of a removal the old one may be gone but still counted: \<open>spsc_occ\<close> is the
  number of cells that really hold queued data.
\<close>

definition spsc_occ :: "spsc \<Rightarrow> nat" where
  "spsc_occ s = unat (rb_Count (sp_rb s)) + (if sp_prod s = P_Count then 1 else 0)
     - (if sp_cons s = C_Count then 1 else 0)"

definition spsc_queue :: "spsc \<Rightarrow> u8 list" where
  "spsc_queue s = ring_list (rb_Mem (sp_rb s)) (rb_Out (sp_rb s)) (spsc_occ s)"

definition spsc_prod_ok :: "spsc \<Rightarrow> bool" where
  "spsc_prod_ok s \<longleftrightarrow> unat (rb_Count (sp_rb s)) \<le> unat (rb_Size (sp_rb s)) \<and>
     (sp_prod s \<noteq> P_Test \<longrightarrow> unat (rb_Count (sp_rb s)) < unat (rb_Size (sp_rb s))) \<and>
     (\<forall>d. sp_prod s = P_Advance d \<longrightarrow> rb_Mem (sp_rb s) ! rb_In (sp_rb s) = d)"

definition spsc_cons_ok :: "spsc \<Rightarrow> bool" where
  "spsc_cons_ok s \<longleftrightarrow> (sp_cons s \<noteq> C_Test \<longrightarrow> 0 < unat (rb_Count (sp_rb s))) \<and>
     sp_sent s = sp_rcvd s @ (if sp_cons s = C_Advance then tl (spsc_queue s) else spsc_queue s)"

definition spsc_inv :: "spsc \<Rightarrow> bool" where
  "spsc_inv s \<longleftrightarrow> rb_shape (sp_rb s) \<and> rb_occ (spsc_occ s) (sp_rb s) \<and> spsc_prod_ok s \<and> spsc_cons_ok s"

lemmas spsc_defs = spsc_inv_def spsc_prod_ok_def spsc_cons_ok_def spsc_queue_def spsc_occ_def

lemma rb_ring_store_frame:
  assumes "rb_shape b" "rb_occ n b" "n < unat (rb_Size b)"
  shows "ring_list (rb_Mem (rb_store d b)) (rb_Out b) n = ring_list (rb_Mem b) (rb_Out b) n"
  using rb_ring_store [OF assms, of d] by (simp add: ring_list_snoc)

lemma rb_Mem_store_In: "rb_shape b \<Longrightarrow> rb_Mem (rb_store d b) ! rb_In b = d"
  by (simp add: rb_store_def rb_shape_def)

lemma spsc_inv_init:
  "0 < length DataPtr \<Longrightarrow> length DataPtr < 2 ^ 16 \<Longrightarrow> spsc_inv (spsc_init DataPtr)"
  by (simp add: spsc_defs spsc_init_def RingBuffer_InitBuffer_def rb_shape_def rb_occ_def
      unat_of_nat)

lemma spsc_inv_p_store:
  assumes "spsc_inv s" "sp_prod s = P_Store d"
  shows "spsc_inv (s\<lparr>sp_rb := rb_store d (sp_rb s), sp_prod := P_Advance d\<rparr>)"
proof -
  have "spsc_occ s < unat (rb_Size (sp_rb s))"
    using assms by (auto simp: spsc_defs)
  then show ?thesis
    using assms rb_ring_store_frame [of "sp_rb s" "spsc_occ s" d]
    by (auto simp: spsc_defs rb_Mem_store_In)
qed

lemma spsc_inv_p_advance:
  assumes "spsc_inv s" "sp_prod s = P_Advance d"
  shows "spsc_inv (s\<lparr>sp_rb := rb_advance_in (sp_rb s), sp_prod := P_Count,
    sp_sent := sp_sent s @ [d]\<rparr>)" (is "spsc_inv ?t")
proof -
  have sh: "rb_shape (sp_rb s)" and oc: "rb_occ (spsc_occ s) (sp_rb s)"
    using assms by (simp_all add: spsc_inv_def)
  have lt: "spsc_occ s < unat (rb_Size (sp_rb s))"
    using assms by (auto simp: spsc_defs)
  have occ': "spsc_occ ?t = Suc (spsc_occ s)"
    using assms by (auto simp: spsc_defs)
  have "rb_Mem (sp_rb s) ! ((rb_Out (sp_rb s) + spsc_occ s) mod length (rb_Mem (sp_rb s))) = d"
    using sh oc assms by (simp add: rb_occ_def rb_shape_def spsc_inv_def spsc_prod_ok_def)
  then have q: "spsc_queue ?t = spsc_queue s @ [d]"
    by (simp add: spsc_queue_def occ' ring_list_snoc)
  have "spsc_queue s \<noteq> []" if "sp_cons s = C_Advance"
    using that assms by (auto simp: spsc_defs)
  then show ?thesis
    using assms sh oc lt q rb_occ_advance_in [OF sh oc lt] unfolding spsc_inv_def occ'
    by (auto simp: spsc_prod_ok_def spsc_cons_ok_def)
qed

lemma spsc_inv_p_count:
  assumes "spsc_inv s" "sp_prod s = P_Count"
  shows "spsc_inv (s\<lparr>sp_rb := rb_count_up (sp_rb s), sp_prod := P_Test\<rparr>)"
proof -
  have "unat (rb_Count (rb_count_up (sp_rb s))) = Suc (unat (rb_Count (sp_rb s)))"
    using assms unat_inc [of "rb_Count (sp_rb s)" "rb_Size (sp_rb s)"]
    by (simp add: spsc_defs) (simp add: rb_count_up_def)
  then show ?thesis
    using assms by (auto simp: spsc_defs)
qed

lemma spsc_inv_c_load:
  assumes "spsc_inv s" "sp_cons s = C_Load"
  shows "spsc_inv (s\<lparr>sp_cons := C_Advance, sp_rcvd := sp_rcvd s @ [rb_load (sp_rb s)]\<rparr>)"
proof -
  obtain n where "spsc_occ s = Suc n"
    using assms by (cases "spsc_occ s") (auto simp: spsc_defs)
  then show ?thesis
    using assms rb_ring_load [of "sp_rb s" n] by (auto simp: spsc_defs)
qed

lemma spsc_inv_c_advance:
  assumes "spsc_inv s" "sp_cons s = C_Advance"
  shows "spsc_inv (s\<lparr>sp_rb := rb_advance_out (sp_rb s), sp_cons := C_Count\<rparr>)"
proof -
  obtain n where "spsc_occ s = Suc n"
    using assms by (cases "spsc_occ s") (auto simp: spsc_defs)
  then show ?thesis
    using assms rb_ring_load [of "sp_rb s" n] rb_occ_advance_out [of "sp_rb s" n]
    by (auto simp: spsc_defs)
qed

lemma spsc_inv_c_count:
  assumes "spsc_inv s" "sp_cons s = C_Count"
  shows "spsc_inv (s\<lparr>sp_rb := rb_count_down (sp_rb s), sp_cons := C_Test\<rparr>)"
proof -
  have "unat (rb_Count (sp_rb s)) = Suc (unat (rb_Count (rb_count_down (sp_rb s))))"
    using assms unat_dec [of "rb_Count (sp_rb s)"]
    by (simp add: spsc_defs unat_gt_0) (simp add: rb_count_down_def)
  then show ?thesis
    using assms by (auto simp: spsc_defs)
qed

lemma spsc_step_inv: "spsc_step s t \<Longrightarrow> spsc_inv s \<Longrightarrow> spsc_inv t"
proof (induction rule: spsc_step.induct)
  case (p_test s d)
  then show ?case
    by (auto simp: spsc_defs RingBuffer_IsFull_def RingBuffer_GetCount_def word_unat_eq_iff)
next
  case (c_test s)
  then show ?case
    by (auto simp: spsc_defs RingBuffer_IsEmpty_def RingBuffer_GetCount_def unat_gt_0)
qed (simp_all add: spsc_inv_p_store spsc_inv_p_advance spsc_inv_p_count
    spsc_inv_c_load spsc_inv_c_advance spsc_inv_c_count)

lemma spsc_reach_inv:
  assumes "spsc_reach DataPtr s" "0 < length DataPtr" "length DataPtr < 2 ^ 16"
  shows "spsc_inv s"
  using assms
  by (induction rule: spsc_reach.induct) (auto simp: spsc_inv_init intro: spsc_step_inv)

lemma spsc_reach_Size: "spsc_reach DataPtr s \<Longrightarrow> rb_Size (sp_rb s) = of_nat (length DataPtr)"
proof (induction rule: spsc_reach.induct)
  case init
  show ?case by (simp add: spsc_init_def RingBuffer_InitBuffer_def)
next
  case (step s t)
  from step.hyps(2) step.IH show ?case by (cases rule: spsc_step.cases) simp_all
qed

section \<open>Properties\<close>

text \<open>
  C1: One inserting and one removing thread of execution, each testing the buffer before its
  operation and interrupted by the other between any two statements, never lose, duplicate or
  reorder a byte: what was removed is a prefix of what was inserted, the difference fits the
  buffer, and between operations it is exactly the buffer's contents; \<open>Count\<close> never exceeds the
  size of the array.
\<close>

theorem RingBuffer_two_threads_fifo:
  assumes "spsc_reach DataPtr s" "0 < length DataPtr" "length DataPtr < 2 ^ 16"
  shows "(\<exists>rest. sp_sent s = sp_rcvd s @ rest \<and> length rest \<le> length DataPtr) \<and>
    (sp_prod s = P_Test \<and> sp_cons s = C_Test \<longrightarrow> sp_sent s = sp_rcvd s @ rb_contents (sp_rb s)) \<and>
    unat (RingBuffer_GetCount (sp_rb s)) \<le> length DataPtr"
proof -
  have inv: "spsc_inv s" by (rule spsc_reach_inv [OF assms])
  have size: "unat (rb_Size (sp_rb s)) = length DataPtr"
    using spsc_reach_Size [OF assms(1)] assms(3) by (simp add: unat_of_nat)
  have "length (spsc_queue s) \<le> length DataPtr"
    using inv size by (simp add: spsc_inv_def rb_occ_def spsc_queue_def)
  then have "\<exists>rest. sp_sent s = sp_rcvd s @ rest \<and> length rest \<le> length DataPtr"
    using inv by (intro exI [of _ "if sp_cons s = C_Advance then tl (spsc_queue s) else spsc_queue s"])
      (auto simp: spsc_inv_def spsc_cons_ok_def)
  moreover have "sp_sent s = sp_rcvd s @ rb_contents (sp_rb s)"
    if "sp_prod s = P_Test \<and> sp_cons s = C_Test"
    using inv that by (simp add: spsc_inv_def spsc_cons_ok_def spsc_queue_def spsc_occ_def rb_contents_def)
  ultimately show ?thesis
    using inv size by (simp add: RingBuffer_GetCount_def spsc_inv_def spsc_prod_ok_def)
qed

theorem RingBuffer_two_threads_fifo_witness:
  "spsc_reach [0, 0] ((spsc_init [0, 0])\<lparr>sp_prod := P_Store 7\<rparr>) \<and>
   unat (RingBuffer_GetCount (sp_rb ((spsc_init [0, 0])\<lparr>sp_prod := P_Store 7\<rparr>))) \<le> 2"
proof -
  have r: "spsc_reach [0, 0] ((spsc_init [0, 0])\<lparr>sp_prod := P_Store 7\<rparr>)"
    by (rule spsc_reach.step [OF spsc_reach.init], rule spsc_step.p_test)
      (simp_all add: spsc_init_def RingBuffer_InitBuffer_def RingBuffer_IsFull_def RingBuffer_GetCount_def)
  show ?thesis
    using r RingBuffer_two_threads_fifo [OF r] by simp
qed

text \<open>
  C2: A guarded sequence of \<open>RingBuffer_Insert\<close> and \<open>RingBuffer_Remove\<close> on a freshly initialised
  buffer removes and keeps exactly what the same sequence removes and keeps on a list of at
  most \<open>Size\<close> elements.
\<close>

theorem RingBuffer_run_refines_queue:
  assumes "length DataPtr = unat Size" "0 < unat Size"
    and "fifo_run RingBuffer_IsFull RingBuffer_IsEmpty RingBuffer_Insert RingBuffer_Remove ops
      (RingBuffer_InitBuffer DataPtr Size) = (ins, outs, b)"
  shows "fifo_ref (unat Size) ops [] = (ins, outs, rb_contents b) \<and>
    RingBuffer_GetFreeCount b = Size - of_nat (length (rb_contents b))"
proof -
  have i: "rb_inv (RingBuffer_InitBuffer DataPtr Size)" by (rule rb_inv_init [OF assms(1,2)])
  have size: "rb_Size (RingBuffer_InitBuffer DataPtr Size) = Size"
    by (simp add: RingBuffer_InitBuffer_def)
  have r: "unat (rb_Size b) = unat Size" "fifo_ref (unat Size) ops [] = (ins, outs, rb_contents b)"
    using lufa_ring.run_refines [OF i assms(3)] size by simp_all
  then have "rb_Size b = Size" by (simp add: word_unat_eq_iff)
  then show ?thesis
    using r by (simp add: RingBuffer_GetFreeCount_def RingBuffer_GetCount_def rb_contents_def)
qed

theorem RingBuffer_run_refines_queue_witness:
  "fst (fifo_run RingBuffer_IsFull RingBuffer_IsEmpty RingBuffer_Insert RingBuffer_Remove
      [Put 1, Put 2, Put 3, Get] (RingBuffer_InitBuffer [0, 0] 2)) = [1, 2]"
proof -
  obtain ins outs b where r: "fifo_run RingBuffer_IsFull RingBuffer_IsEmpty RingBuffer_Insert RingBuffer_Remove
      [Put 1, Put 2, Put 3, Get] (RingBuffer_InitBuffer [0, 0] 2) = (ins, outs, b)"
    by (metis prod_cases3)
  have "[1, 2] = ins"
    using RingBuffer_run_refines_queue [OF _ _ r] by auto
  with r show ?thesis by simp
qed

end
