(* ===== verification/Arduino_HardwareSerial.thy ===== *)
theory Arduino_HardwareSerial
  imports Fifo_Interface
begin

text \<open>
  The interrupt driven UART driver (\<open>cores/AT90USB/HardwareSerial.cpp\<close>) as it is built for the
  AT90USB parts, where the only USART is USART1: the two ring buffers, the receive and
  data-register-empty handlers, and the methods of \<open>HardwareSerial\<close>.  The registers the driver
  writes are fields of the state; the events on the transmit line and on the RS485 direction
  pin are recorded in \<open>hs_trace\<close>.
\<close>

section \<open>The ring buffers\<close>

text \<open>\<open>SERIAL_BUFFER_SIZE\<close> for parts with more than 1000 bytes of RAM.\<close>

definition SERIAL_BUFFER_SIZE :: nat where
  "SERIAL_BUFFER_SIZE = 64"

record ring_buffer =
  hb_buffer :: "u8 list"
  hb_head :: u8
  hb_tail :: u8

definition ring_buffer_zero :: ring_buffer where
  "ring_buffer_zero = \<lparr>hb_buffer = replicate SERIAL_BUFFER_SIZE 0, hb_head = 0, hb_tail = 0\<rparr>"

definition hb_next :: "u8 \<Rightarrow> u8" where
  "hb_next i = (i + 1) mod of_nat SERIAL_BUFFER_SIZE"

definition store_char :: "u8 \<Rightarrow> ring_buffer \<Rightarrow> ring_buffer" where
  "store_char c b =
     (let i = hb_next (hb_head b) in
      if i \<noteq> hb_tail b
      then b\<lparr>hb_buffer := (hb_buffer b)[unat (hb_head b) := c], hb_head := i\<rparr>
      else b)"

text \<open>Taking the oldest byte, as \<open>read\<close> and the transmit handler do on a non-empty buffer.\<close>

definition hb_take :: "ring_buffer \<Rightarrow> u8 \<times> ring_buffer" where
  "hb_take b = (hb_buffer b ! unat (hb_tail b), b\<lparr>hb_tail := hb_next (hb_tail b)\<rparr>)"

section \<open>The driver's state\<close>

datatype uart_event = Pin_Mode_Output u8 | Pin_Out u8 bool | Load u8 | Frame_Done u8

record HardwareSerial =
  hs_rx :: ring_buffer
  hs_tx :: ring_buffer
  hs_ubrrh :: u8
  hs_ubrrl :: u8
  hs_ucsra :: u8
  hs_ucsrb :: u8
  hs_ucsrc :: u8
  hs_rxen :: nat
  hs_txen :: nat
  hs_rxcie :: nat
  hs_udrie :: nat
  hs_u2x :: nat
  hs_transmitting :: bool
  hs_pin :: u8
  hs_clear_baud :: u32
  hs_sreg_i :: bool
  hs_shift :: "u8 option"
  hs_trace :: "uart_event list"

text \<open>
  \<open>hs_pin\<close> is the global \<open>_pin\<close>; \<open>hs_clear_baud\<close> is the rate from which the global delay
  \<open>SER_CLEAR_TM\<close> was computed (0 before \<open>begin\<close>); \<open>hs_sreg_i\<close> is the interrupt enable bit of
  the status register; \<open>hs_shift\<close> is the frame in the transmit shift register.
\<close>

definition TXC0 :: nat where
  "TXC0 = 6"

definition HardwareSerial_ctor :: "nat \<Rightarrow> nat \<Rightarrow> nat \<Rightarrow> nat \<Rightarrow> nat \<Rightarrow> HardwareSerial" where
  "HardwareSerial_ctor rxen txen rxcie udrie u2x =
     \<lparr>hs_rx = ring_buffer_zero, hs_tx = ring_buffer_zero, hs_ubrrh = 0, hs_ubrrl = 0,
      hs_ucsra = 0, hs_ucsrb = 0, hs_ucsrc = 0, hs_rxen = rxen, hs_txen = txen,
      hs_rxcie = rxcie, hs_udrie = udrie, hs_u2x = u2x, hs_transmitting = False,
      hs_pin = 0, hs_clear_baud = 0, hs_sreg_i = True, hs_shift = None, hs_trace = []\<rparr>"

text \<open>The object \<open>Serial1\<close> with \<open>RXEN1\<close>, \<open>TXEN1\<close>, \<open>RXCIE1\<close>, \<open>UDRIE1\<close> and \<open>U2X1\<close>.\<close>

definition Serial1 :: HardwareSerial where
  "Serial1 = HardwareSerial_ctor 4 3 7 5 1"

text \<open>
  Writing \<open>UCSRnA\<close>: only \<open>U2X\<close> and \<open>MPCM\<close> (bits 1 and 0) take the written value, \<open>RXC\<close> and \<open>UDRE\<close>
  (bits 7 and 5) are read-only, the error flags are written as zero, and \<open>TXC\<close> is cleared by
  writing a one to it.
\<close>

definition ucsra_write :: "u8 \<Rightarrow> u8 \<Rightarrow> u8" where
  "ucsra_write v old = (v AND 3) OR (old AND 160) OR (old AND BV TXC0 AND NOT v)"

section \<open>Interrupt handlers\<close>

definition USART1_RX_isr :: "bool \<Rightarrow> u8 \<Rightarrow> HardwareSerial \<Rightarrow> HardwareSerial" where
  "USART1_RX_isr parity_error c s =
     (if \<not> parity_error then s\<lparr>hs_rx := store_char c (hs_rx s)\<rparr> else s)"

definition hs_pin_write :: "bool \<Rightarrow> HardwareSerial \<Rightarrow> HardwareSerial" where
  "hs_pin_write v s =
     (if hs_pin s > 0 then s\<lparr>hs_trace := hs_trace s @ [Pin_Out (hs_pin s) v]\<rparr> else s)"

definition hs_frame_done :: "HardwareSerial \<Rightarrow> HardwareSerial" where
  "hs_frame_done s =
     (case hs_shift s of
        None \<Rightarrow> s
      | Some c \<Rightarrow> s\<lparr>hs_shift := None, hs_ucsra := sbi (hs_ucsra s) TXC0,
                  hs_trace := hs_trace s @ [Frame_Done c]\<rparr>)"

definition hs_wait_txc :: "HardwareSerial \<Rightarrow> HardwareSerial" where
  "hs_wait_txc s = (if bit (hs_ucsra s) TXC0 then s else hs_frame_done s)"

definition USART1_UDRE_isr :: "HardwareSerial \<Rightarrow> HardwareSerial" where
  "USART1_UDRE_isr s =
     (if hb_head (hs_tx s) = hb_tail (hs_tx s)
      then s\<lparr>hs_ucsrb := cbi (hs_ucsrb s) (hs_udrie s)\<rparr>
      else
        (let s1 = hs_pin_write True s;
             c = fst (hb_take (hs_tx s1));
             s2 = s1\<lparr>hs_tx := snd (hb_take (hs_tx s1))\<rparr>;
             s3 = s2\<lparr>hs_shift := Some c, hs_trace := hs_trace s2 @ [Load c]\<rparr>;
             s4 = hs_wait_txc s3
         in hs_pin_write False s4))"

text \<open>
  What may happen between two statements of the main program: a frame on the line completes,
  and the data-register-empty handler runs if it is enabled.
\<close>

definition hs_env :: "HardwareSerial \<Rightarrow> HardwareSerial" where
  "hs_env s =
     (let s1 = hs_frame_done s in
      if hs_sreg_i s1 \<and> bit (hs_ucsrb s1) (hs_udrie s1) then USART1_UDRE_isr s1 else s1)"

section \<open>Methods\<close>

definition F_CPU :: u32 where
  "F_CPU = 16000000"

definition baud_setting :: "bool \<Rightarrow> u32 \<Rightarrow> u16" where
  "baud_setting use_u2x baud =
     ucast (if use_u2x then (F_CPU div 4 div baud - 1) div 2 else (F_CPU div 8 div baud - 1) div 2)"

definition begin_use_u2x :: "u32 \<Rightarrow> bool" where
  "begin_use_u2x baud \<longleftrightarrow> baud \<noteq> 57600 \<and> \<not> baud_setting True baud > 4095"

definition begin_setting :: "u32 \<Rightarrow> HardwareSerial \<Rightarrow> HardwareSerial" where
  "begin_setting baud s =
     (let use_u2x = begin_use_u2x baud; setting = baud_setting use_u2x baud in
      s\<lparr>hs_ucsra := ucsra_write (if use_u2x then BV (hs_u2x s) else 0) (hs_ucsra s),
        hs_ubrrh := ucast (drop_bit 8 setting), hs_ubrrl := ucast setting\<rparr>)"

definition begin_enable :: "HardwareSerial \<Rightarrow> HardwareSerial" where
  "begin_enable s =
     s\<lparr>hs_ucsrb := cbi (sbi (sbi (sbi (hs_ucsrb s) (hs_rxen s)) (hs_txen s)) (hs_rxcie s)) (hs_udrie s)\<rparr>"

text \<open>A rate of zero divides by zero: \<open>None\<close>.\<close>

definition HardwareSerial_begin :: "u32 \<Rightarrow> HardwareSerial \<Rightarrow> HardwareSerial option" where
  "HardwareSerial_begin baud s =
     (if baud = 0 then None
      else Some (begin_enable
        ((begin_setting baud (s\<lparr>hs_pin := 0, hs_clear_baud := baud\<rparr>))\<lparr>hs_transmitting := False\<rparr>)))"

definition HardwareSerial_begin_config :: "u32 \<Rightarrow> u8 \<Rightarrow> HardwareSerial \<Rightarrow> HardwareSerial option" where
  "HardwareSerial_begin_config baud config s =
     (if baud = 0 then None
      else Some (begin_enable
        ((begin_setting baud (s\<lparr>hs_pin := 0\<rparr>))\<lparr>hs_ucsrc := config\<rparr>)))"

definition HardwareSerial_available :: "HardwareSerial \<Rightarrow> int" where
  "HardwareSerial_available s =
     uint ((of_nat SERIAL_BUFFER_SIZE + hb_head (hs_rx s) - hb_tail (hs_rx s)) mod of_nat SERIAL_BUFFER_SIZE)"

definition HardwareSerial_peek :: "HardwareSerial \<Rightarrow> int" where
  "HardwareSerial_peek s =
     (if hb_head (hs_rx s) = hb_tail (hs_rx s) then -1
      else uint (hb_buffer (hs_rx s) ! unat (hb_tail (hs_rx s))))"

definition HardwareSerial_read :: "HardwareSerial \<Rightarrow> int \<times> HardwareSerial" where
  "HardwareSerial_read s =
     (if hb_head (hs_rx s) = hb_tail (hs_rx s) then (-1, s)
      else (uint (fst (hb_take (hs_rx s))), s\<lparr>hs_rx := snd (hb_take (hs_rx s))\<rparr>))"

partial_function (option) end_wait :: "HardwareSerial \<Rightarrow> HardwareSerial option" where
  "end_wait s = (if hb_head (hs_tx s) \<noteq> hb_tail (hs_tx s) then end_wait (hs_env s) else Some s)"

definition HardwareSerial_end :: "HardwareSerial \<Rightarrow> HardwareSerial option" where
  "HardwareSerial_end s =
     do { s1 \<leftarrow> end_wait s;
          Some (s1\<lparr>hs_ucsrb := cbi (cbi (cbi (cbi (hs_ucsrb s1) (hs_rxen s1)) (hs_txen s1)) (hs_rxcie s1)) (hs_udrie s1),
                   hs_rx := (hs_rx s1)\<lparr>hb_head := hb_tail (hs_rx s1)\<rparr>\<rparr>) }"

partial_function (option) flush_wait :: "HardwareSerial \<Rightarrow> HardwareSerial option" where
  "flush_wait s =
     (if hs_transmitting s \<and> \<not> bit (hs_ucsra s) TXC0 then flush_wait (hs_env s) else Some s)"

definition HardwareSerial_flush :: "HardwareSerial \<Rightarrow> HardwareSerial option" where
  "HardwareSerial_flush s = do { s1 \<leftarrow> flush_wait s; Some (s1\<lparr>hs_transmitting := False\<rparr>) }"

partial_function (option) write_wait :: "u8 \<Rightarrow> HardwareSerial \<Rightarrow> HardwareSerial option" where
  "write_wait i s = (if i = hb_tail (hs_tx s) then write_wait i (hs_env s) else Some s)"

definition write_put :: "u8 \<Rightarrow> u8 \<Rightarrow> HardwareSerial \<Rightarrow> HardwareSerial" where
  "write_put c i s =
     s\<lparr>hs_tx := (hs_tx s)\<lparr>hb_buffer := (hb_buffer (hs_tx s))[unat (hb_head (hs_tx s)) := c], hb_head := i\<rparr>\<rparr>"

definition HardwareSerial_write :: "u8 \<Rightarrow> HardwareSerial \<Rightarrow> (nat \<times> HardwareSerial) option" where
  "HardwareSerial_write c s =
     (let i = hb_next (hb_head (hs_tx s)) in
      do { s1 \<leftarrow> write_wait i s;
           let s2 = write_put c i s1;
           let s3 = hs_env (s2\<lparr>hs_ucsrb := sbi (hs_ucsrb s2) (hs_udrie s2)\<rparr>);
           let s4 = hs_env (s3\<lparr>hs_transmitting := True\<rparr>);
           Some (1, s4\<lparr>hs_ucsra := ucsra_write (sbi (hs_ucsra s4) TXC0) (hs_ucsra s4)\<rparr>) })"

definition HardwareSerial_setPin :: "int \<Rightarrow> HardwareSerial \<Rightarrow> HardwareSerial" where
  "HardwareSerial_setPin pin s =
     (let p = word_of_int pin in s\<lparr>hs_pin := p, hs_trace := hs_trace s @ [Pin_Mode_Output p, Pin_Out p False]\<rparr>)"


section \<open>The ring buffers are bounded queues\<close>

definition hb_inv :: "ring_buffer \<Rightarrow> bool" where
  "hb_inv b \<longleftrightarrow> length (hb_buffer b) = 64 \<and> unat (hb_head b) < 64 \<and> unat (hb_tail b) < 64"

definition hb_len :: "ring_buffer \<Rightarrow> nat" where
  "hb_len b = (64 + unat (hb_head b) - unat (hb_tail b)) mod 64"

definition hb_contents :: "ring_buffer \<Rightarrow> u8 list" where
  "hb_contents b = ring_list (hb_buffer b) (unat (hb_tail b)) (hb_len b)"

definition hb_full :: "ring_buffer \<Rightarrow> bool" where
  "hb_full b \<longleftrightarrow> hb_next (hb_head b) = hb_tail b"

definition hb_empty :: "ring_buffer \<Rightarrow> bool" where
  "hb_empty b \<longleftrightarrow> hb_head b = hb_tail b"

lemma unat_hb_next: "unat i < 64 \<Longrightarrow> unat (hb_next i) = Suc (unat i) mod 64"
  by (simp add: hb_next_def SERIAL_BUFFER_SIZE_def unat_mod unat_word_ariths)

lemma mod_64: "x < 128 \<Longrightarrow> x mod 64 = (if x < 64 then x else x - (64::nat))"
  by (simp add: le_mod_geq)

lemma hb_head_conv: "hb_inv b \<Longrightarrow> unat (hb_head b) = (unat (hb_tail b) + hb_len b) mod 64"
  unfolding hb_inv_def hb_len_def by (auto simp: mod_64)

lemma hb_full_iff: "hb_inv b \<Longrightarrow> hb_full b \<longleftrightarrow> hb_len b = 63"
  unfolding hb_full_def hb_inv_def hb_len_def word_unat_eq_iff
  by (auto simp: unat_hb_next mod_64 split: if_splits)

lemma hb_empty_iff: "hb_inv b \<Longrightarrow> hb_empty b \<longleftrightarrow> hb_len b = 0"
  unfolding hb_empty_def hb_inv_def hb_len_def word_unat_eq_iff
  by (subst mod_64) auto

lemma hb_len_lt: "hb_len b < 64"
  by (simp add: hb_len_def)

lemma length_hb_contents [simp]: "length (hb_contents b) = hb_len b"
  by (simp add: hb_contents_def)

lemma hb_contents_Nil_iff: "hb_contents b = [] \<longleftrightarrow> hb_len b = 0"
  by (simp add: hb_contents_def)

lemma hb_inv_store_char: "hb_inv b \<Longrightarrow> hb_inv (store_char c b)"
  by (simp add: hb_inv_def store_char_def Let_def unat_hb_next)

lemma store_char_full: "hb_full b \<Longrightarrow> store_char c b = b"
  by (simp add: store_char_def hb_full_def)

lemma hb_len_store_char:
  assumes "hb_inv b" "\<not> hb_full b"
  shows "hb_len (store_char c b) = Suc (hb_len b)"
proof -
  have "hb_len b < 63" using assms hb_full_iff hb_len_lt [of b] by fastforce
  then show ?thesis
    using assms unfolding hb_inv_def hb_full_def store_char_def hb_len_def Let_def
    by (auto simp: unat_hb_next mod_64 word_unat_eq_iff split: if_splits)
qed

lemma store_char_contents:
  assumes "hb_inv b" "\<not> hb_full b"
  shows "hb_contents (store_char c b) = hb_contents b @ [c]"
proof -
  have "hb_len b < length (hb_buffer b)"
    using assms hb_len_lt [of b] by (simp add: hb_inv_def)
  then show ?thesis
    using assms ring_list_write [of "hb_len b" "hb_buffer b" "unat (hb_tail b)" c]
    by (simp add: hb_contents_def hb_len_store_char)
      (simp add: store_char_def hb_full_def Let_def hb_head_conv hb_inv_def)
qed

lemma hb_inv_take: "hb_inv b \<Longrightarrow> hb_inv (snd (hb_take b))"
  by (simp add: hb_inv_def hb_take_def unat_hb_next)

lemma hb_len_take:
  assumes "hb_inv b" "\<not> hb_empty b"
  shows "hb_len b = Suc (hb_len (snd (hb_take b)))"
  using assms hb_empty_iff [OF assms(1)] unfolding hb_inv_def hb_len_def hb_take_def
  by (auto simp: unat_hb_next mod_64 split: if_splits)

lemma hb_take_contents:
  assumes "hb_inv b" "\<not> hb_empty b"
  shows "hb_contents b = fst (hb_take b) # hb_contents (snd (hb_take b))"
  using assms ring_list_mod [of "hb_buffer b" "Suc (unat (hb_tail b))" "hb_len (snd (hb_take b))"]
  by (simp add: hb_contents_def hb_len_take [OF assms] ring_list_Suc)
    (simp add: hb_take_def hb_inv_def unat_hb_next)

interpretation serial_ring: bounded_fifo hb_inv hb_contents "\<lambda>_. 63" hb_full hb_empty
  store_char hb_take
proof unfold_locales
  show "length (hb_contents q) \<le> 63" for q
    using hb_len_lt [of q] by simp
qed (simp_all add: hb_inv_store_char store_char_contents hb_inv_take hb_take_contents [symmetric],
    simp_all add: hb_full_iff hb_empty_iff hb_contents_Nil_iff)


section \<open>Reception\<close>

text \<open>
  A history of the receive side: \<open>Rx e c\<close> is the reception of \<open>c\<close>, with a parity error if \<open>e\<close>;
  \<open>Read\<close> is a call of \<open>read\<close>.  \<open>rx_ref\<close> is what the history means on the list of waiting bytes.
\<close>

datatype rx_event = Rx bool u8 | Read

fun hs_rx_run :: "rx_event list \<Rightarrow> HardwareSerial \<Rightarrow> int list \<times> HardwareSerial" where
  "hs_rx_run [] s = ([], s)"
| "hs_rx_run (Rx e c # evs) s = hs_rx_run evs (USART1_RX_isr e c s)"
| "hs_rx_run (Read # evs) s =
     (let (r, s1) = HardwareSerial_read s; (rs, s2) = hs_rx_run evs s1 in (r # rs, s2))"

fun rx_ref :: "rx_event list \<Rightarrow> u8 list \<Rightarrow> int list \<times> u8 list" where
  "rx_ref [] xs = ([], xs)"
| "rx_ref (Rx e c # evs) xs = rx_ref evs (if \<not> e \<and> length xs < 63 then xs @ [c] else xs)"
| "rx_ref (Read # evs) xs =
     (case xs of
        [] \<Rightarrow> (let (rs, ys) = rx_ref evs [] in (-1 # rs, ys))
      | x # xs' \<Rightarrow> (let (rs, ys) = rx_ref evs xs' in (uint x # rs, ys)))"

lemma hs_read_empty: "hb_inv (hs_rx s) \<Longrightarrow> hb_contents (hs_rx s) = [] \<Longrightarrow> HardwareSerial_read s = (-1, s)"
  using hb_empty_iff [of "hs_rx s"]
  by (simp add: HardwareSerial_read_def hb_empty_def hb_contents_Nil_iff)

lemma hs_read_Cons:
  assumes "hb_inv (hs_rx s)" "hb_contents (hs_rx s) = x # xs"
  obtains b where "HardwareSerial_read s = (uint x, s\<lparr>hs_rx := b\<rparr>)" "hb_inv b" "hb_contents b = xs"
proof -
  have ne: "\<not> hb_empty (hs_rx s)"
    using assms hb_empty_iff [of "hs_rx s"] by (metis hb_contents_Nil_iff list.distinct(1))
  then have "HardwareSerial_read s = (uint x, s\<lparr>hs_rx := snd (hb_take (hs_rx s))\<rparr>)"
    using assms hb_take_contents [OF assms(1) ne]
    by (simp add: HardwareSerial_read_def hb_empty_def)
  then show ?thesis
    using that assms hb_take_contents [OF assms(1) ne] hb_inv_take [OF assms(1)] by simp
qed

lemma hs_rx_isr_contents:
  assumes "hb_inv (hs_rx s)"
  shows "hb_contents (hs_rx (USART1_RX_isr e c s)) =
      (if \<not> e \<and> length (hb_contents (hs_rx s)) < 63 then hb_contents (hs_rx s) @ [c] else hb_contents (hs_rx s))"
    and "hb_inv (hs_rx (USART1_RX_isr e c s))"
proof -
  have "length (hb_contents (hs_rx s)) < 63 \<longleftrightarrow> \<not> hb_full (hs_rx s)"
    using assms hb_full_iff hb_len_lt [of "hs_rx s"] by auto
  then show "hb_contents (hs_rx (USART1_RX_isr e c s)) =
      (if \<not> e \<and> length (hb_contents (hs_rx s)) < 63 then hb_contents (hs_rx s) @ [c] else hb_contents (hs_rx s))"
    using assms by (auto simp: USART1_RX_isr_def store_char_contents store_char_full)
  show "hb_inv (hs_rx (USART1_RX_isr e c s))"
    using assms by (simp add: USART1_RX_isr_def hb_inv_store_char)
qed

lemma hs_rx_run_ref:
  "hb_inv (hs_rx s) \<Longrightarrow> hs_rx_run evs s = (rs, s') \<Longrightarrow>
    rx_ref evs (hb_contents (hs_rx s)) = (rs, hb_contents (hs_rx s')) \<and> hb_inv (hs_rx s')"
proof (induction evs s arbitrary: rs rule: hs_rx_run.induct)
  case (1 s)
  then show ?case by simp
next
  case (2 e c evs s)
  then show ?case using hs_rx_isr_contents [OF "2.prems"(1), of e c] by simp
next
  case (3 evs s)
  show ?case
  proof (cases "hb_contents (hs_rx s)")
    case Nil
    with 3 show ?thesis using hs_read_empty [OF "3.prems"(1) Nil] by (auto split: prod.splits)
  next
    case (Cons x xs)
    obtain b where b: "HardwareSerial_read s = (uint x, s\<lparr>hs_rx := b\<rparr>)" "hb_inv b" "hb_contents b = xs"
      using hs_read_Cons [OF "3.prems"(1) Cons] by blast
    with 3 Cons show ?thesis by (auto split: prod.splits)
  qed
qed

section \<open>Transmission\<close>

primrec loads :: "uart_event list \<Rightarrow> u8 list" where
  "loads [] = []"
| "loads (e # es) = (case e of Load c \<Rightarrow> c # loads es | _ \<Rightarrow> loads es)"

lemma loads_append [simp]: "loads (xs @ ys) = loads xs @ loads ys"
  by (induction xs) (auto split: uart_event.splits)

text \<open>The bytes already handed to the line followed by the ones still queued.\<close>

definition tx_flow :: "HardwareSerial \<Rightarrow> u8 list" where
  "tx_flow s = loads (hs_trace s) @ hb_contents (hs_tx s)"

definition hs_tx_inv :: "HardwareSerial \<Rightarrow> bool" where
  "hs_tx_inv s \<longleftrightarrow> hb_inv (hs_tx s) \<and> hs_udrie s < 8 \<and>
     (hb_contents (hs_tx s) \<noteq> [] \<longrightarrow> bit (hs_ucsrb s) (hs_udrie s))"

lemma hs_frame_done_frame [simp]:
  "hs_tx (hs_frame_done s) = hs_tx s" "hs_ucsrb (hs_frame_done s) = hs_ucsrb s"
  "hs_udrie (hs_frame_done s) = hs_udrie s" "hs_sreg_i (hs_frame_done s) = hs_sreg_i s"
  "hs_transmitting (hs_frame_done s) = hs_transmitting s" "hs_pin (hs_frame_done s) = hs_pin s"
  "loads (hs_trace (hs_frame_done s)) = loads (hs_trace s)" "hs_rx (hs_frame_done s) = hs_rx s"
  "hs_shift (hs_frame_done s) = None"
  by (simp_all add: hs_frame_done_def split: option.splits)

lemma hs_wait_txc_frame [simp]:
  "hs_tx (hs_wait_txc s) = hs_tx s" "hs_ucsrb (hs_wait_txc s) = hs_ucsrb s"
  "hs_udrie (hs_wait_txc s) = hs_udrie s" "hs_sreg_i (hs_wait_txc s) = hs_sreg_i s"
  "hs_transmitting (hs_wait_txc s) = hs_transmitting s" "hs_pin (hs_wait_txc s) = hs_pin s"
  "loads (hs_trace (hs_wait_txc s)) = loads (hs_trace s)" "hs_rx (hs_wait_txc s) = hs_rx s"
  by (simp_all add: hs_wait_txc_def)

lemma hs_pin_write_frame [simp]:
  "hs_tx (hs_pin_write v s) = hs_tx s" "hs_ucsrb (hs_pin_write v s) = hs_ucsrb s"
  "hs_udrie (hs_pin_write v s) = hs_udrie s" "hs_sreg_i (hs_pin_write v s) = hs_sreg_i s"
  "hs_transmitting (hs_pin_write v s) = hs_transmitting s" "hs_pin (hs_pin_write v s) = hs_pin s"
  "loads (hs_trace (hs_pin_write v s)) = loads (hs_trace s)" "hs_rx (hs_pin_write v s) = hs_rx s"
  "hs_ucsra (hs_pin_write v s) = hs_ucsra s" "hs_shift (hs_pin_write v s) = hs_shift s"
  by (simp_all add: hs_pin_write_def)

lemma hs_isr_frame [simp]:
  "hs_sreg_i (USART1_UDRE_isr s) = hs_sreg_i s" "hs_udrie (USART1_UDRE_isr s) = hs_udrie s"
  "hs_rx (USART1_UDRE_isr s) = hs_rx s" "hb_head (hs_tx (USART1_UDRE_isr s)) = hb_head (hs_tx s)"
  "hs_transmitting (USART1_UDRE_isr s) = hs_transmitting s"
  by (simp_all add: USART1_UDRE_isr_def Let_def hb_take_def)

lemma hs_isr_empty:
  "hb_empty (hs_tx s) \<Longrightarrow> USART1_UDRE_isr s = s\<lparr>hs_ucsrb := cbi (hs_ucsrb s) (hs_udrie s)\<rparr>"
  by (simp add: USART1_UDRE_isr_def hb_empty_def)

lemma hs_isr_busy:
  assumes "\<not> hb_empty (hs_tx s)"
  shows "hs_tx (USART1_UDRE_isr s) = snd (hb_take (hs_tx s))"
    and "loads (hs_trace (USART1_UDRE_isr s)) = loads (hs_trace s) @ [fst (hb_take (hs_tx s))]"
    and "hs_ucsrb (USART1_UDRE_isr s) = hs_ucsrb s"
  using assms by (simp_all add: USART1_UDRE_isr_def hb_empty_def Let_def)

lemma hs_isr_flow:
  assumes "hb_inv (hs_tx s)"
  shows "tx_flow (USART1_UDRE_isr s) = tx_flow s"
proof (cases "hb_empty (hs_tx s)")
  case True
  then show ?thesis by (simp add: hs_isr_empty tx_flow_def)
next
  case False
  then show ?thesis
    using hb_take_contents [OF assms False] by (simp add: tx_flow_def hs_isr_busy)
qed

lemma hs_isr_inv:
  assumes "hs_tx_inv s"
  shows "hs_tx_inv (USART1_UDRE_isr s)"
proof (cases "hb_empty (hs_tx s)")
  case True
  then show ?thesis
    using assms hb_empty_iff [of "hs_tx s"]
    by (simp add: hs_isr_empty hs_tx_inv_def hb_contents_Nil_iff)
next
  case False
  then show ?thesis
    using assms hb_empty_iff [of "hs_tx s"]
    by (simp add: hs_isr_busy hs_tx_inv_def hb_inv_take hb_contents_Nil_iff)
qed

lemma hs_env_frame [simp]:
  "hs_sreg_i (hs_env s) = hs_sreg_i s" "hs_udrie (hs_env s) = hs_udrie s"
  "hs_rx (hs_env s) = hs_rx s" "hb_head (hs_tx (hs_env s)) = hb_head (hs_tx s)"
  "hs_transmitting (hs_env s) = hs_transmitting s"
  by (simp_all add: hs_env_def Let_def)

lemma hs_tx_inv_frame_done [simp]: "hs_tx_inv (hs_frame_done s) = hs_tx_inv s"
  by (simp add: hs_tx_inv_def)

lemma hs_env_inv: "hs_tx_inv s \<Longrightarrow> hs_tx_inv (hs_env s)"
  by (simp add: hs_env_def Let_def hs_isr_inv)

lemma hs_env_flow: "hb_inv (hs_tx s) \<Longrightarrow> tx_flow (hs_env s) = tx_flow s"
  by (simp add: hs_env_def Let_def hs_isr_flow) (simp add: tx_flow_def)

lemma write_put_store:
  "i = hb_next (hb_head (hs_tx s)) \<Longrightarrow> \<not> hb_full (hs_tx s) \<Longrightarrow>
    write_put c i s = s\<lparr>hs_tx := store_char c (hs_tx s)\<rparr>"
  by (simp add: write_put_def store_char_def hb_full_def Let_def)

lemma write_wait_ready: "\<not> hb_full (hs_tx s) \<Longrightarrow> write_wait (hb_next (hb_head (hs_tx s))) s = Some s"
  by (simp add: write_wait.simps hb_full_def)

lemma hs_env_full:
  assumes "hs_tx_inv s" "hs_sreg_i s" "hb_full (hs_tx s)"
  shows "\<not> hb_full (hs_tx (hs_env s))"
proof -
  have len: "hb_len (hs_tx s) = 63" and inv: "hb_inv (hs_tx s)"
    using assms by (simp_all add: hs_tx_inv_def hb_full_iff)
  then have ne: "\<not> hb_empty (hs_tx s)"
    by (simp add: hb_empty_iff)
  have "hs_tx (hs_env s) = snd (hb_take (hs_tx s))"
    using assms len ne by (simp add: hs_env_def Let_def hs_tx_inv_def hb_contents_Nil_iff hs_isr_busy)
  then show ?thesis
    using hb_len_take [OF inv ne] len hb_inv_take [OF inv] by (simp add: hb_full_iff)
qed

lemma write_wait_total:
  assumes "hs_tx_inv s" "hs_sreg_i s"
  obtains s1 where "write_wait (hb_next (hb_head (hs_tx s))) s = Some s1" "hs_tx_inv s1" "hs_sreg_i s1"
    "tx_flow s1 = tx_flow s" "hs_rx s1 = hs_rx s" "\<not> hb_full (hs_tx s1)"
    "hb_head (hs_tx s1) = hb_head (hs_tx s)"
proof (cases "hb_full (hs_tx s)")
  case False
  then show ?thesis using that [of s] assms by (simp add: write_wait_ready)
next
  case True
  have inv: "hb_inv (hs_tx s)" using assms(1) by (simp add: hs_tx_inv_def)
  have nf: "\<not> hb_full (hs_tx (hs_env s))" by (rule hs_env_full [OF assms True])
  have "write_wait (hb_next (hb_head (hs_tx s))) s = write_wait (hb_next (hb_head (hs_tx s))) (hs_env s)"
    using True by (subst write_wait.simps) (simp add: hb_full_def)
  also have "\<dots> = Some (hs_env s)"
    using write_wait_ready [OF nf] by simp
  finally show ?thesis
    using that [of "hs_env s"] assms(2) nf hs_env_inv [OF assms(1)] hs_env_flow [of s] inv by simp
qed

lemma hs_tx_inv_enable:
  "hb_inv (hs_tx s) \<Longrightarrow> hs_udrie s < 8 \<Longrightarrow> hs_tx_inv (s\<lparr>hs_ucsrb := sbi (hs_ucsrb s) (hs_udrie s)\<rparr>)"
  by (simp add: hs_tx_inv_def)

lemma tx_flow_cong: "hs_trace s = hs_trace t \<Longrightarrow> hs_tx s = hs_tx t \<Longrightarrow> tx_flow s = tx_flow t"
  by (simp add: tx_flow_def)

lemma hs_tx_inv_update [simp]:
  "hs_tx_inv (s\<lparr>hs_transmitting := b\<rparr>) = hs_tx_inv s" "hs_tx_inv (s\<lparr>hs_ucsra := v\<rparr>) = hs_tx_inv s"
  "tx_flow (s\<lparr>hs_transmitting := b\<rparr>) = tx_flow s" "tx_flow (s\<lparr>hs_ucsra := v\<rparr>) = tx_flow s"
  "tx_flow (s\<lparr>hs_ucsrb := v\<rparr>) = tx_flow s"
  by (simp_all add: hs_tx_inv_def tx_flow_def)

lemma hs_write_flow:
  assumes "hs_tx_inv s" "hs_sreg_i s"
  shows "\<exists>s'. HardwareSerial_write c s = Some (1, s') \<and> hs_tx_inv s' \<and> hs_sreg_i s' \<and>
    hs_rx s' = hs_rx s \<and> tx_flow s' = tx_flow s @ [c]"
proof -
  obtain s1 where s1: "write_wait (hb_next (hb_head (hs_tx s))) s = Some s1" "hs_tx_inv s1" "hs_sreg_i s1"
    "tx_flow s1 = tx_flow s" "hs_rx s1 = hs_rx s" "\<not> hb_full (hs_tx s1)"
    "hb_head (hs_tx s1) = hb_head (hs_tx s)"
    using write_wait_total [OF assms] by blast
  define s2 where "s2 = s1\<lparr>hs_tx := store_char c (hs_tx s1)\<rparr>"
  define s3 where "s3 = s2\<lparr>hs_ucsrb := sbi (hs_ucsrb s2) (hs_udrie s2)\<rparr>"
  have put: "write_put c (hb_next (hb_head (hs_tx s))) s1 = s2"
    using s1 write_put_store [of _ s1 c] by (simp add: s2_def)
  have i3: "hs_tx_inv s3"
    using s1 unfolding s3_def
    by (intro hs_tx_inv_enable) (simp_all add: s2_def hs_tx_inv_def hb_inv_store_char)
  have f3: "tx_flow s3 = tx_flow s @ [c]"
    using s1 by (simp add: s3_def s2_def tx_flow_def store_char_contents hs_tx_inv_def)
  have fr: "hs_sreg_i s3" "hs_rx s3 = hs_rx s"
    using s1 by (simp_all add: s3_def s2_def)
  have i4: "hs_tx_inv ((hs_env s3)\<lparr>hs_transmitting := True\<rparr>)"
    using hs_env_inv [OF i3] by simp
  have fl: "tx_flow (hs_env ((hs_env s3)\<lparr>hs_transmitting := True\<rparr>)) = tx_flow s3"
    using i3 i4 by (simp add: hs_env_flow hs_tx_inv_def)
  show ?thesis
    using s1(1) put hs_env_inv [OF i4] fl f3 fr
    by (simp add: HardwareSerial_write_def Let_def s3_def [symmetric])
qed

lemma hs_env_masked: "\<not> hs_sreg_i s \<Longrightarrow> hs_env s = hs_frame_done s"
  by (simp add: hs_env_def Let_def)

lemma write_wait_blocked:
  assumes "write_wait i s = Some r" "i = hb_tail (hs_tx s)" "\<not> hs_sreg_i s"
  shows False
proof -
  have "i = hb_tail (hs_tx s) \<and> \<not> hs_sreg_i s \<longrightarrow> False"
  proof (rule write_wait.raw_induct [where P = "\<lambda>i s r. i = hb_tail (hs_tx s) \<and> \<not> hs_sreg_i s \<longrightarrow> False",
        OF _ assms(1)])
    fix f i s r
    assume IH: "\<And>i s r. f i s = Some r \<Longrightarrow> i = hb_tail (hs_tx s) \<and> \<not> hs_sreg_i s \<longrightarrow> False"
      and eq: "(if i = hb_tail (hs_tx s) then f i (hs_env s) else Some s) = Some r"
    show "i = hb_tail (hs_tx s) \<and> \<not> hs_sreg_i s \<longrightarrow> False"
    proof
      assume a: "i = hb_tail (hs_tx s) \<and> \<not> hs_sreg_i s"
      with eq have "f i (hs_env s) = Some r" by simp
      from IH [OF this] a show False by (simp add: hs_env_masked)
    qed
  qed
  with assms show False by blast
qed

definition hs_idle :: "HardwareSerial \<Rightarrow> bool" where
  "hs_idle s \<longleftrightarrow> hb_empty (hs_tx s) \<and> hs_shift s = None \<and> \<not> bit (hs_ucsra s) TXC0"

lemma hs_frame_done_none: "hs_shift s = None \<Longrightarrow> hs_frame_done s = s"
  by (simp add: hs_frame_done_def)

lemma hs_env_drained:
  "hb_empty (hs_tx s) \<Longrightarrow> hs_shift s = None \<Longrightarrow>
    hs_env s = (if hs_sreg_i s \<and> bit (hs_ucsrb s) (hs_udrie s)
      then s\<lparr>hs_ucsrb := cbi (hs_ucsrb s) (hs_udrie s)\<rparr> else s)"
  by (simp add: hs_env_def hs_frame_done_none hs_isr_empty)

lemma bit_ucsra_write_TXC0: "bit (ucsra_write (sbi v TXC0) old) TXC0 = False"
  by (simp add: ucsra_write_def bit_or_iff bit_and_iff bit_not_iff TXC0_def bit_simps) 

lemma flush_wait_stuck:
  assumes "flush_wait s = Some r" "hs_transmitting s" "hs_idle s"
  shows False
proof -
  have "hs_transmitting s \<and> hs_idle s \<longrightarrow> False"
  proof (rule flush_wait.raw_induct [where P = "\<lambda>s r. hs_transmitting s \<and> hs_idle s \<longrightarrow> False",
        OF _ assms(1)])
    fix f s r
    assume IH: "\<And>s r. f s = Some r \<Longrightarrow> hs_transmitting s \<and> hs_idle s \<longrightarrow> False"
      and eq: "(if hs_transmitting s \<and> \<not> bit (hs_ucsra s) TXC0 then f (hs_env s) else Some s) = Some r"
    show "hs_transmitting s \<and> hs_idle s \<longrightarrow> False"
    proof
      assume a: "hs_transmitting s \<and> hs_idle s"
      with eq have "f (hs_env s) = Some r" by (simp add: hs_idle_def)
      from IH [OF this] a show False by (auto simp: hs_idle_def hs_env_drained split: if_splits)
    qed
  qed
  with assms show False by blast
qed

lemma hs_isr_send_idle:
  assumes "\<not> hb_empty (hs_tx s)" "\<not> bit (hs_ucsra s) TXC0"
  shows "hs_shift (USART1_UDRE_isr s) = None"
    and "hs_trace (USART1_UDRE_isr s) = hs_trace s @
      (let c = fst (hb_take (hs_tx s)) in
       if hs_pin s > 0 then [Pin_Out (hs_pin s) True, Load c, Frame_Done c, Pin_Out (hs_pin s) False]
       else [Load c, Frame_Done c])"
  using assms
  by (simp_all add: USART1_UDRE_isr_def hb_empty_def Let_def hs_wait_txc_def hs_frame_done_def hs_pin_write_def)

lemma hs_write_idle:
  assumes "hs_tx_inv s" "hs_sreg_i s" "hs_idle s"
  shows "\<exists>s'. HardwareSerial_write c s = Some (1, s') \<and> hs_idle s' \<and> hs_transmitting s' \<and> hs_tx_inv s' \<and>
    hs_trace s' = hs_trace s @
      (if hs_pin s > 0 then [Pin_Out (hs_pin s) True, Load c, Frame_Done c, Pin_Out (hs_pin s) False]
       else [Load c, Frame_Done c])"
proof -
  have inv: "hb_inv (hs_tx s)" and nf: "\<not> hb_full (hs_tx s)" and c0: "hb_contents (hs_tx s) = []"
    using assms hb_empty_iff [of "hs_tx s"]
    by (auto simp: hs_tx_inv_def hs_idle_def hb_full_iff hb_contents_Nil_iff)
  define s2 where "s2 = s\<lparr>hs_tx := store_char c (hs_tx s), hs_ucsrb := sbi (hs_ucsrb s) (hs_udrie s)\<rparr>"
  have c2: "hb_contents (hs_tx s2) = [c]" and i2: "hb_inv (hs_tx s2)"
    using inv nf c0 by (simp_all add: s2_def store_char_contents hb_inv_store_char)
  have ne: "\<not> hb_empty (hs_tx s2)"
    using c2 hb_empty_iff [OF i2] by (metis hb_contents_Nil_iff list.distinct(1))
  have tk: "fst (hb_take (hs_tx s2)) = c" "hb_contents (snd (hb_take (hs_tx s2))) = []"
    using hb_take_contents [OF i2 ne] c2 by simp_all
  have em: "hb_empty (snd (hb_take (hs_tx s2)))"
    using tk(2) hb_inv_take [OF i2] hb_empty_iff by (simp add: hb_contents_Nil_iff)
  define s3 where "s3 = USART1_UDRE_isr s2"
  have s3: "hs_env s2 = s3"
    using assms by (simp add: hs_env_def s3_def s2_def hs_idle_def hs_frame_done_none Let_def hs_tx_inv_def)
  have st: "hs_shift s3 = None" "hs_tx s3 = snd (hb_take (hs_tx s2))" "hs_trace s3 = hs_trace s @
      (if hs_pin s > 0 then [Pin_Out (hs_pin s) True, Load c, Frame_Done c, Pin_Out (hs_pin s) False]
       else [Load c, Frame_Done c])"
    using hs_isr_send_idle [OF ne] hs_isr_busy(1) [OF ne] assms tk(1)
    by (simp_all add: s3_def hs_idle_def) (simp_all add: s2_def)
  have "hs_tx_inv s'" if "HardwareSerial_write c s = Some (1, s')" for s'
    using hs_write_flow [OF assms(1,2), of c] that by auto
  then show ?thesis
    using st em nf assms(1) s3
    by (simp add: HardwareSerial_write_def Let_def write_wait_ready write_put_store s2_def hs_env_drained
        hs_idle_def bit_ucsra_write_TXC0)
qed

definition hs_ubrr :: "HardwareSerial \<Rightarrow> nat" where
  "hs_ubrr s = unat (hs_ubrrh s) * 256 + unat (hs_ubrrl s)"

lemma unat_split_u16: "unat (ucast (drop_bit 8 v) :: u8) * 256 + unat (ucast v :: u8) = unat (v::u16)"
proof -
  have "unat (ucast (drop_bit 8 v) :: u8) = unat v div 256"
  proof -
    have "unat v < 65536" using unsigned_less [of v] by simp
    then have "unat v div 256 < 256" by (simp add: div_less_iff_less_mult)
    then show ?thesis by (simp add: unsigned_ucast_eq take_bit_eq_mod drop_bit_eq_div unat_div)
  qed
  moreover have "unat (ucast v :: u8) = unat v mod 256"
    by (simp add: unsigned_ucast_eq take_bit_eq_mod)
  ultimately show ?thesis by simp
qed

lemma unat_baud_setting:
  assumes "31 \<le> unat baud"
  shows "unat baud \<le> 4000000 \<Longrightarrow> unat (baud_setting True baud) = (4000000 div unat baud - 1) div 2"
    and "unat baud \<le> 2000000 \<Longrightarrow> unat (baud_setting False baud) = (2000000 div unat baud - 1) div 2"
proof -
  have k: "4000000 div unat baud \<le> 129032" "2000000 div unat baud \<le> 64516"
    using div_le_mono2 [OF _ assms, of 4000000] div_le_mono2 [OF _ assms, of 2000000] by simp_all
  show "unat (baud_setting True baud) = (4000000 div unat baud - 1) div 2" if "unat baud \<le> 4000000"
  proof -
    have "1 \<le> 4000000 div unat baud" using that assms by (simp add: Suc_le_eq div_greater_zero_iff)
    then have "unat (F_CPU div 4 div baud - 1) = 4000000 div unat baud - 1"
      by (simp add: F_CPU_def unat_sub word_le_nat_alt unat_div)
    then show ?thesis using k by (simp add: baud_setting_def unsigned_ucast_eq take_bit_eq_mod unat_div)
  qed
  show "unat (baud_setting False baud) = (2000000 div unat baud - 1) div 2" if "unat baud \<le> 2000000"
  proof -
    have "1 \<le> 2000000 div unat baud" using that assms by (simp add: Suc_le_eq div_greater_zero_iff)
    then have "unat (F_CPU div 8 div baud - 1) = 2000000 div unat baud - 1"
      by (simp add: F_CPU_def unat_sub word_le_nat_alt unat_div)
    then show ?thesis using k by (simp add: baud_setting_def unsigned_ucast_eq take_bit_eq_mod unat_div)
  qed
qed

lemma round_half_div:
  assumes "0 < b" "b \<le> (t::nat)"
  shows "2 * \<bar>int t - int b * (int ((2 * t div b - 1) div 2) + 1)\<bar> \<le> int b"
proof -
  define k where "k = 2 * t div b"
  define j where "j = (k - 1) div 2"
  have lo: "k * b \<le> 2 * t" and hi: "2 * t < k * b + b"
    using assms unfolding k_def
    by (simp, metis add.commute div_mult_mod_eq mod_less_divisor nat_add_left_cancel_less)
  have "1 \<le> k" using assms by (simp add: k_def Suc_le_eq div_greater_zero_iff)
  then have "k = 2 * j + 1 \<or> k = 2 * j + 2"
    unfolding j_def by presburger
  then have "b + 2 * (b * j) \<le> 2 * t" "2 * t < 3 * b + 2 * (b * j)"
    using lo hi by (auto simp: algebra_simps)
  then have "int (b + 2 * (b * j)) \<le> int (2 * t)" "int (2 * t) < int (3 * b + 2 * (b * j))"
    by (simp_all only: of_nat_le_iff of_nat_less_iff)
  then have "int b + 2 * (int b * int j) \<le> 2 * int t" "2 * int t < 3 * int b + 2 * (int b * int j)"
    by simp_all
  moreover have "int b * (int j + 1) = int b * int j + int b"
    by (simp add: algebra_simps)
  ultimately have "2 * \<bar>int t - int b * (int j + 1)\<bar> \<le> int b"
    by arith
  then show ?thesis
    by (simp add: j_def k_def)
qed

lemma scale_error:
  assumes "2 * \<bar>t - b * m\<bar> \<le> (b::int)" "0 \<le> d"
  shows "2 * \<bar>d * t - d * b * m\<bar> \<le> d * b"
proof -
  have "d * t - d * b * m = d * (t - b * m)" by (simp add: algebra_simps)
  then have "2 * \<bar>d * t - d * b * m\<bar> = d * (2 * \<bar>t - b * m\<bar>)"
    using assms(2) by (simp add: abs_mult)
  also have "\<dots> \<le> d * b" using assms by (rule mult_left_mono)
  finally show ?thesis .
qed

lemma begin_setting_ubrr [simp]: "hs_ubrr (begin_setting baud s) = unat (baud_setting (begin_use_u2x baud) baud)"
  by (simp add: begin_setting_def hs_ubrr_def Let_def unat_split_u16)

lemma bit_begin_setting_u2x:
  "hs_u2x s = 1 \<Longrightarrow> bit (hs_ucsra (begin_setting baud s)) 1 = begin_use_u2x baud"
  by (simp add: begin_setting_def Let_def ucsra_write_def bit_or_iff bit_and_iff bit_not_iff bit_BV TXC0_def
      bit_simps)

definition hs_divisor :: "HardwareSerial \<Rightarrow> int" where
  "hs_divisor s = (if bit (hs_ucsra s) 1 then 8 else 16)"

lemma unat_avail:
  assumes "unat (h::u8) < 64" "unat t < 64"
  shows "unat (64 + h - t) = 64 + unat h - unat t"
proof -
  have "unat (64 + h) = 64 + unat h"
    using assms by (simp add: unat_word_ariths)
  moreover from this have "t \<le> 64 + h"
    using assms by (simp add: word_le_nat_alt)
  ultimately show ?thesis by (simp add: unat_sub)
qed

lemma hs_available_len: "hb_inv (hs_rx s) \<Longrightarrow> HardwareSerial_available s = int (hb_len (hs_rx s))"
  by (simp add: HardwareSerial_available_def SERIAL_BUFFER_SIZE_def uint_nat unat_mod unat_avail
      hb_inv_def hb_len_def)

lemma hs_peek_contents:
  "hb_inv (hs_rx s) \<Longrightarrow>
    HardwareSerial_peek s = (case hb_contents (hs_rx s) of [] \<Rightarrow> -1 | c # _ \<Rightarrow> uint c)"
  using hb_empty_iff [of "hs_rx s"] hb_take_contents [of "hs_rx s"]
  by (cases "hb_empty (hs_rx s)")
    (simp_all add: HardwareSerial_peek_def hb_empty_def hb_take_def hb_contents_Nil_iff [THEN iffD2])

section \<open>Properties\<close>

text \<open>
  C3: For every history of received bytes, parity errors and calls of \<open>read\<close>, the results of the
  calls are those of a first-in first-out list of at most 63 waiting bytes: bytes come out in
  the order they arrived, \<open>-1\<close> exactly when nothing waits, a byte with a parity error and a byte
  that finds 63 waiting are dropped; afterwards \<open>available\<close> is the number of waiting bytes.
\<close>

theorem Serial_rx_history:
  assumes "hb_inv (hs_rx s)" "hs_rx_run evs s = (rs, s')"
  shows "rx_ref evs (hb_contents (hs_rx s)) = (rs, hb_contents (hs_rx s')) \<and>
    HardwareSerial_available s' = int (length (hb_contents (hs_rx s')))"
  using hs_rx_run_ref [OF assms] by (simp add: hs_available_len)

theorem Serial_rx_history_witness:
  "fst (hs_rx_run [Rx False 65, Read, Rx True 66, Read] Serial1) = [65, -1]"
proof -
  have i: "hb_inv (hs_rx Serial1)"
    by (simp add: Serial1_def HardwareSerial_ctor_def ring_buffer_zero_def SERIAL_BUFFER_SIZE_def hb_inv_def)
  have c: "hb_contents (hs_rx Serial1) = []"
    by (simp add: Serial1_def HardwareSerial_ctor_def ring_buffer_zero_def hb_contents_def hb_len_def)
  obtain rs s' where r: "hs_rx_run [Rx False 65, Read, Rx True 66, Read] Serial1 = (rs, s')"
    by (cases "hs_rx_run [Rx False 65, Read, Rx True 66, Read] Serial1")
  show ?thesis
    using Serial_rx_history [OF i r] c r by simp
qed


lemma Serial1_ready: "hs_tx_inv Serial1" "hs_sreg_i Serial1" "hs_idle Serial1"
  by (simp_all add: hs_tx_inv_def hs_idle_def Serial1_def HardwareSerial_ctor_def ring_buffer_zero_def
      SERIAL_BUFFER_SIZE_def hb_inv_def hb_contents_def hb_len_def hb_empty_def)


text \<open>
  C5: After a byte was written on an idle line, \<open>flush\<close> never returns: the handler has already waited
  for the end of the frame when \<open>write\<close> clears the transmit complete flag, so the flag \<open>flush\<close>
  waits for is never set again.
\<close>

theorem hs_flush_after_write_hangs:
  assumes "hs_tx_inv s" "hs_sreg_i s" "hs_idle s"
  shows "\<exists>s'. HardwareSerial_write c s = Some (1, s') \<and> HardwareSerial_flush s' = None"
proof -
  obtain s' where s': "HardwareSerial_write c s = Some (1, s')" "hs_idle s'" "hs_transmitting s'"
    using hs_write_idle [OF assms, of c] by blast
  then have "flush_wait s' = None"
    using flush_wait_stuck [of s'] by (cases "flush_wait s'") auto
  with s' show ?thesis
    by (simp add: HardwareSerial_flush_def)
qed

theorem hs_flush_after_write_hangs_witness:
  "\<exists>s'. HardwareSerial_write 65 Serial1 = Some (1, s') \<and> HardwareSerial_flush s' = None"
  using hs_flush_after_write_hangs [OF Serial1_ready, of 65] .

text \<open>
  When the transmit complete flag is still set from an earlier byte, the handler drives the RS485
  pin low while the byte it loaded is still in the shift register.
\<close>

theorem hs_isr_stale_txc:
  assumes "\<not> hb_empty (hs_tx s)" "bit (hs_ucsra s) TXC0" "hs_pin s > 0"
  shows "hs_trace (USART1_UDRE_isr s) = hs_trace s @
      [Pin_Out (hs_pin s) True, Load (fst (hb_take (hs_tx s))), Pin_Out (hs_pin s) False] \<and>
    hs_shift (USART1_UDRE_isr s) = Some (fst (hb_take (hs_tx s)))"
  using assms
  by (simp add: USART1_UDRE_isr_def hb_empty_def Let_def hs_wait_txc_def hs_pin_write_def)

definition stale_example :: HardwareSerial where
  "stale_example = Serial1\<lparr>hs_tx := store_char 66 ring_buffer_zero, hs_ucsra := BV TXC0, hs_pin := 5\<rparr>"

theorem hs_isr_stale_txc_witness:
  "hs_trace (USART1_UDRE_isr stale_example) = [Pin_Out 5 True, Load 66, Pin_Out 5 False] \<and>
    hs_shift (USART1_UDRE_isr stale_example) = Some 66"
proof -
  have "\<not> hb_empty (hs_tx stale_example)" "bit (hs_ucsra stale_example) TXC0" "hs_pin stale_example > 0"
    by (simp_all add: stale_example_def store_char_def ring_buffer_zero_def hb_next_def
        SERIAL_BUFFER_SIZE_def hb_empty_def bit_BV TXC0_def)
  from hs_isr_stale_txc [OF this] show ?thesis
    by (simp add: stale_example_def hb_take_def store_char_def ring_buffer_zero_def hb_next_def
        SERIAL_BUFFER_SIZE_def Serial1_def HardwareSerial_ctor_def)
qed



text \<open>
  With interrupts disabled, \<open>write\<close> into a full transmit buffer never returns.
\<close>

theorem hs_write_blocks:
  assumes "hb_full (hs_tx s)" "\<not> hs_sreg_i s"
  shows "HardwareSerial_write c s = None"
proof -
  have "write_wait (hb_next (hb_head (hs_tx s))) s = None"
    using write_wait_blocked assms by (metis hb_full_def option.exhaust)
  then show ?thesis
    by (simp add: HardwareSerial_write_def Let_def)
qed

definition full_example :: HardwareSerial where
  "full_example = Serial1\<lparr>hs_tx := ring_buffer_zero\<lparr>hb_head := 63\<rparr>, hs_sreg_i := False\<rparr>"

theorem hs_write_blocks_witness: "HardwareSerial_write 65 full_example = None"
proof -
  have "hb_full (hs_tx full_example)" "\<not> hs_sreg_i full_example"
    by (simp_all add: full_example_def hb_full_def hb_next_def ring_buffer_zero_def SERIAL_BUFFER_SIZE_def)
  then show ?thesis by (rule hs_write_blocks)
qed

end
