(* ===== verification/C_Strings.thy ===== *)
theory C_Strings
  imports AVR_Prelude
begin

text \<open>
  The functions of \<open>string.h\<close>, \<open>ctype.h\<close> and \<open>stdlib.h\<close> that the core calls, on memory given as
  the list of bytes from the pointer to the end of its block.  Reading or writing past the end
  of the block is \<open>None\<close>.  \<open>holds_str m xs\<close> says that \<open>m\<close> starts with the terminated text \<open>xs\<close>.
\<close>

named_theorems cstr_simps \<open>what the string functions do on terminated text\<close>

section \<open>Scanning\<close>

fun strlen_c :: "u8 list \<Rightarrow> nat option" where
  "strlen_c [] = None"
| "strlen_c (c # cs) = (if c = 0 then Some 0 else map_option Suc (strlen_c cs))"

fun strcmp_c :: "u8 list \<Rightarrow> u8 list \<Rightarrow> int option" where
  "strcmp_c (a # as) (b # bs) =
     (if a \<noteq> b then Some (uint a - uint b) else if a = 0 then Some 0 else strcmp_c as bs)"
| "strcmp_c _ _ = None"

fun strncmp_c :: "u8 list \<Rightarrow> u8 list \<Rightarrow> nat \<Rightarrow> int option" where
  "strncmp_c _ _ 0 = Some 0"
| "strncmp_c (a # as) (b # bs) (Suc n) =
     (if a \<noteq> b then Some (uint a - uint b) else if a = 0 then Some 0 else strncmp_c as bs n)"
| "strncmp_c _ _ (Suc n) = None"

text \<open>The searches return the offset of the match, \<open>Some None\<close> for the null pointer.\<close>

fun strchr_c :: "u8 list \<Rightarrow> u8 \<Rightarrow> nat option option" where
  "strchr_c [] ch = None"
| "strchr_c (c # cs) ch =
     (if c = ch then Some (Some 0) else if c = 0 then Some None
      else map_option (map_option Suc) (strchr_c cs ch))"

fun strrchr_c :: "u8 list \<Rightarrow> u8 \<Rightarrow> nat option option" where
  "strrchr_c [] ch = None"
| "strrchr_c (c # cs) ch =
     (if c = 0 then Some (if ch = 0 then Some 0 else None)
      else do { r \<leftarrow> strrchr_c cs ch;
                Some (case r of Some i \<Rightarrow> Some (Suc i) | None \<Rightarrow> if c = ch then Some 0 else None) })"

text \<open>\<open>match_c hay needle\<close>: does the terminated text at \<open>needle\<close> start at \<open>hay\<close>?\<close>

fun match_c :: "u8 list \<Rightarrow> u8 list \<Rightarrow> bool option" where
  "match_c hay [] = None"
| "match_c hay (n # ns) =
     (if n = 0 then Some True
      else (case hay of [] \<Rightarrow> None | h # hs \<Rightarrow> if h = n then match_c hs ns else Some False))"

fun strstr_c :: "u8 list \<Rightarrow> u8 list \<Rightarrow> nat option option" where
  "strstr_c [] needle = None"
| "strstr_c (h # hs) needle =
     do { m \<leftarrow> match_c (h # hs) needle;
          if m then Some (Some 0) else if h = 0 then Some None
          else map_option (map_option Suc) (strstr_c hs needle) }"

section \<open>Copying\<close>

definition write_at :: "u8 list \<Rightarrow> nat \<Rightarrow> u8 list \<Rightarrow> u8 list option" where
  "write_at dst off xs =
     (if off + length xs \<le> length dst
      then Some (take off dst @ xs @ drop (off + length xs) dst) else None)"

definition strcpy_c :: "u8 list \<Rightarrow> nat \<Rightarrow> u8 list \<Rightarrow> u8 list option" where
  "strcpy_c dst off src = do { n \<leftarrow> strlen_c src; write_at dst off (take (Suc n) src) }"

definition memcpy_c :: "u8 list \<Rightarrow> nat \<Rightarrow> u8 list \<Rightarrow> nat \<Rightarrow> u8 list option" where
  "memcpy_c dst off src n = (if n \<le> length src then write_at dst off (take n src) else None)"

text \<open>The bytes \<open>strncpy\<close> stores: the text, padded with zeros to the count.\<close>

fun strncpy_bytes :: "u8 list \<Rightarrow> nat \<Rightarrow> u8 list option" where
  "strncpy_bytes _ 0 = Some []"
| "strncpy_bytes [] (Suc n) = None"
| "strncpy_bytes (c # cs) (Suc n) =
     (if c = 0 then Some (replicate (Suc n) 0) else map_option (Cons c) (strncpy_bytes cs n))"

text \<open>
  Copies inside one block: \<open>memmove\<close>, and \<open>memcpy\<close> and \<open>strcpy\<close> towards lower addresses, where the
  library's ascending byte loop never overwrites what it still has to read.
\<close>

definition move_within :: "u8 list \<Rightarrow> nat \<Rightarrow> nat \<Rightarrow> nat \<Rightarrow> u8 list option" where
  "move_within b dst src n = memcpy_c b dst (drop src b) n"

fun copy_up :: "u8 list \<Rightarrow> nat \<Rightarrow> nat \<Rightarrow> nat \<Rightarrow> u8 list option" where
  "copy_up b dst src 0 = Some b"
| "copy_up b dst src (Suc n) =
     do { c \<leftarrow> arr_get b src; b' \<leftarrow> arr_set b dst c; copy_up b' (Suc dst) (Suc src) n }"

section \<open>Characters and numbers\<close>

definition tolower_c :: "u8 \<Rightarrow> u8" where
  "tolower_c c = (if 65 \<le> c \<and> c \<le> 90 then c + 32 else c)"

definition toupper_c :: "u8 \<Rightarrow> u8" where
  "toupper_c c = (if 97 \<le> c \<and> c \<le> 122 then c - 32 else c)"

definition isspace_c :: "u8 \<Rightarrow> bool" where
  "isspace_c c \<longleftrightarrow> c = 32 \<or> 9 \<le> c \<and> c \<le> 13"

definition isdigit_c :: "u8 \<Rightarrow> bool" where
  "isdigit_c c \<longleftrightarrow> 48 \<le> c \<and> c \<le> 57"

text \<open>The digits of a number in a base, most significant first; letters are lower case.\<close>

definition digit_char :: "nat \<Rightarrow> u8" where
  "digit_char d = of_nat (if d < 10 then 48 + d else 87 + d)"

fun digits_rev :: "nat \<Rightarrow> nat \<Rightarrow> nat list" where
  "digits_rev base n =
     (if base < 2 then [] else if n < base then [n] else n mod base # digits_rev base (n div base))"

declare digits_rev.simps [simp del]

definition utoa_c :: "nat \<Rightarrow> nat \<Rightarrow> u8 list" where
  "utoa_c base n =
     (if base < 2 \<or> 36 < base then [] else rev (map digit_char (digits_rev base n)))"

text \<open>
  The signed conversions treat the value as unsigned of the given width unless the base is ten.
\<close>

definition itoa_c :: "nat \<Rightarrow> nat \<Rightarrow> int \<Rightarrow> u8 list" where
  "itoa_c width base n =
     (if base = 10 \<and> n < 0 then 45 # utoa_c base (nat (- n))
      else utoa_c base (nat (n mod 2 ^ width)))"

text \<open>\<open>atol\<close>: white space, an optional sign, digits; the value wraps at 32 bits.\<close>

fun atol_digits :: "u32 \<Rightarrow> u8 list \<Rightarrow> u32 option" where
  "atol_digits acc [] = None"
| "atol_digits acc (c # cs) =
     (if isdigit_c c then atol_digits (acc * 10 + ucast (c - 48)) cs else Some acc)"

fun atol_c :: "u8 list \<Rightarrow> u32 option" where
  "atol_c [] = None"
| "atol_c (c # cs) =
     (if isspace_c c then atol_c cs
      else if c = 45 then map_option uminus (atol_digits 0 cs)
      else if c = 43 then atol_digits 0 cs
      else atol_digits 0 (c # cs))"

text \<open>A 16-bit signed value from an integer expression.\<close>

definition int16 :: "int \<Rightarrow> int" where
  "int16 n = sint (word_of_int n :: u16)"

section \<open>Terminated text\<close>

definition holds_str :: "u8 list \<Rightarrow> u8 list \<Rightarrow> bool" where
  "holds_str m xs \<longleftrightarrow> (\<exists>rest. m = xs @ 0 # rest) \<and> 0 \<notin> set xs"

lemma holds_strI: "0 \<notin> set xs \<Longrightarrow> holds_str (xs @ 0 # rest) xs"
  by (auto simp: holds_str_def)

lemma holds_str_Cons [simp]: "holds_str (c # m) (x # xs) \<longleftrightarrow> c = x \<and> x \<noteq> 0 \<and> holds_str m xs"
  by (auto simp: holds_str_def)

lemma holds_str_Nil: "holds_str m [] \<longleftrightarrow> (\<exists>rest. m = 0 # rest)"
  by (auto simp: holds_str_def)

lemma holds_str_Nil_Cons [simp]: "holds_str (c # m) [] \<longleftrightarrow> c = 0"
  by (auto simp: holds_str_def)

lemma holds_str_empty [simp]: "\<not> holds_str [] xs"
  by (auto simp: holds_str_def)

lemma holds_str_length: "holds_str m xs \<Longrightarrow> length xs < length m"
  by (auto simp: holds_str_def)

lemma holds_str_take: "holds_str m xs \<Longrightarrow> take (length xs) m = xs"
  by (auto simp: holds_str_def)

lemma holds_str_drop: "holds_str m xs \<Longrightarrow> k \<le> length xs \<Longrightarrow> holds_str (drop k m) (drop k xs)"
  by (auto simp: holds_str_def dest: in_set_dropD)

lemma holds_str_nth: "holds_str m xs \<Longrightarrow> i < length xs \<Longrightarrow> m ! i = xs ! i"
  by (auto simp: holds_str_def nth_append)

lemma holds_str_nth_end: "holds_str m xs \<Longrightarrow> m ! length xs = 0"
  by (auto simp: holds_str_def)

lemma strlen_holds [cstr_simps]: "holds_str m xs \<Longrightarrow> strlen_c m = Some (length xs)"
proof (induction xs arbitrary: m)
  case Nil
  then show ?case by (auto simp: holds_str_Nil)
next
  case (Cons x xs)
  then show ?case by (cases m) auto
qed

lemma write_at_Some_iff:
  "write_at dst off xs = Some d \<longleftrightarrow>
    off + length xs \<le> length dst \<and> d = take off dst @ xs @ drop (off + length xs) dst"
  by (auto simp: write_at_def)

lemma length_write_at: "write_at dst off xs = Some d \<Longrightarrow> length d = length dst"
  by (auto simp: write_at_Some_iff)

lemma strcpy_holds [cstr_simps]:
  assumes "holds_str src ys" "off + length ys < length dst"
  shows "strcpy_c dst off src = Some (take off dst @ ys @ 0 # drop (Suc (off + length ys)) dst)"
proof -
  have "take (Suc (length ys)) src = ys @ [0]"
    using assms(1) by (auto simp: holds_str_def)
  then show ?thesis
    using assms by (simp add: strcpy_c_def strlen_holds write_at_def)
qed

lemma strcpy_holds_str:
  assumes "holds_str src ys" "off + length ys < length dst" "strcpy_c dst off src = Some d"
    and "off \<le> length dst" "0 \<notin> set (take off dst)"
  shows "holds_str d (take off dst @ ys)"
  using assms by (auto simp: strcpy_holds holds_str_def)

lemma uint_inj_iff: "uint a = uint b \<longleftrightarrow> a = b" for a b :: u8
  by (simp add: word_uint_eq_iff)

lemma strcmp_eq_0 [cstr_simps]:
  "holds_str m xs \<Longrightarrow> holds_str n ys \<Longrightarrow> strcmp_c m n = Some 0 \<longleftrightarrow> xs = ys"
proof (induction m n arbitrary: xs ys rule: strcmp_c.induct)
  case (1 a as b bs)
  then show ?case by (cases xs; cases ys) (auto simp: uint_inj_iff uint_0_iff)
qed auto

lemma strcmp_total: "holds_str m xs \<Longrightarrow> holds_str n ys \<Longrightarrow> \<exists>r. strcmp_c m n = Some r"
proof (induction m n arbitrary: xs ys rule: strcmp_c.induct)
  case (1 a as b bs)
  then show ?case by (cases xs; cases ys) auto
qed auto

lemma strcmp_antisym: "strcmp_c m n = Some r \<Longrightarrow> strcmp_c n m = Some (- r)"
  by (induction m n rule: strcmp_c.induct) (auto split: if_splits)

lemma strncmp_prefix [cstr_simps]:
  "holds_str m xs \<Longrightarrow> holds_str n ys \<Longrightarrow>
    strncmp_c m n (length ys) = Some 0 \<longleftrightarrow> take (length ys) xs = ys"
proof (induction ys arbitrary: m n xs)
  case Nil
  then show ?case by simp
next
  case (Cons y ys)
  then show ?case by (cases m; cases n; cases xs) (auto simp: uint_inj_iff uint_0_iff)
qed

lemma strncmp_total: "holds_str m xs \<Longrightarrow> holds_str n ys \<Longrightarrow> \<exists>r. strncmp_c m n k = Some r"
proof (induction m n k arbitrary: xs ys rule: strncmp_c.induct)
  case (2 a as b bs n)
  then show ?case by (cases xs; cases ys) auto
qed auto

section \<open>Occurrences\<close>

definition occurs_at :: "'a list \<Rightarrow> 'a list \<Rightarrow> nat \<Rightarrow> bool" where
  "occurs_at ys xs i \<longleftrightarrow> i \<le> length xs \<and> take (length ys) (drop i xs) = ys"

fun first_occ :: "'a list \<Rightarrow> 'a list \<Rightarrow> nat option" where
  "first_occ ys [] = (if ys = [] then Some 0 else None)"
| "first_occ ys (x # xs) =
     (if take (length ys) (x # xs) = ys then Some 0 else map_option Suc (first_occ ys xs))"

fun last_char :: "'a \<Rightarrow> 'a list \<Rightarrow> nat option" where
  "last_char ch [] = None"
| "last_char ch (x # xs) =
     (case last_char ch xs of Some i \<Rightarrow> Some (Suc i) | None \<Rightarrow> if x = ch then Some 0 else None)"

lemma occurs_at_0 [simp]: "occurs_at ys xs 0 \<longleftrightarrow> take (length ys) xs = ys"
  by (simp add: occurs_at_def)

lemma occurs_at_Suc [simp]: "occurs_at ys (x # xs) (Suc i) \<longleftrightarrow> occurs_at ys xs i"
  by (simp add: occurs_at_def)

lemma occurs_at_Nil [simp]: "occurs_at ys [] i \<longleftrightarrow> i = 0 \<and> ys = []"
  by (auto simp: occurs_at_def)

lemma occurs_at_length: "occurs_at ys xs i \<Longrightarrow> i + length ys \<le> length xs"
  by (auto simp: occurs_at_def) (metis add_le_cancel_left le_add_diff_inverse length_drop length_take min.cobounded1 min.commute)

lemma first_occ_Some:
  "first_occ ys xs = Some i \<longleftrightarrow> occurs_at ys xs i \<and> (\<forall>j<i. \<not> occurs_at ys xs j)"
proof (induction ys xs arbitrary: i rule: first_occ.induct)
  case (1 ys)
  then show ?case by auto
next
  case (2 ys x xs)
  show ?case
  proof (cases i)
    case 0
    then show ?thesis by auto
  next
    case (Suc k)
    then show ?thesis using 2 by (auto simp: less_Suc_eq_0_disj)
  qed
qed

lemma first_occ_None: "first_occ ys xs = None \<longleftrightarrow> (\<forall>i. \<not> occurs_at ys xs i)"
proof (induction ys xs rule: first_occ.induct)
  case (1 ys)
  then show ?case by auto
next
  case (2 ys x xs)
  have "(\<forall>i. \<not> occurs_at ys (x # xs) i) \<longleftrightarrow> \<not> occurs_at ys (x # xs) 0 \<and> (\<forall>i. \<not> occurs_at ys xs i)"
    by (metis occurs_at_Suc not0_implies_Suc)
  then show ?case using 2 by auto
qed

lemma last_char_Some:
  "last_char ch xs = Some i \<longleftrightarrow> i < length xs \<and> xs ! i = ch \<and> (\<forall>j. i < j \<and> j < length xs \<longrightarrow> xs ! j \<noteq> ch)"
proof (induction ch xs arbitrary: i rule: last_char.induct)
  case (1 ch)
  then show ?case by simp
next
  case (2 ch x xs)
  show ?case
  proof (cases "last_char ch xs")
    case None
    then have "\<forall>j<length xs. xs ! j \<noteq> ch"
      using 2 by (metis (no_types, lifting) nat_neq_iff not_None_eq
          ex_has_greatest_nat [of "\<lambda>j. j < length xs \<and> xs ! j = ch" _ "\<lambda>j. j" "length xs"] less_imp_le not_le)
    then show ?thesis using None by (auto simp: nth_Cons split: nat.splits)
  next
    case (Some k)
    then show ?thesis using 2 [of k] by (auto simp: nth_Cons split: nat.splits) (metis Suc_less_eq nat_neq_iff not_less_eq)+
  qed
qed

lemma match_holds [cstr_simps]:
  "holds_str m xs \<Longrightarrow> holds_str n ys \<Longrightarrow> match_c m n = Some (take (length ys) xs = ys)"
proof (induction ys arbitrary: m n xs)
  case Nil
  then show ?case by (cases n) auto
next
  case (Cons y ys)
  then show ?case by (cases m; cases n; cases xs) auto
qed

lemma strstr_holds [cstr_simps]:
  "holds_str m xs \<Longrightarrow> holds_str n ys \<Longrightarrow> strstr_c m n = Some (first_occ ys xs)"
proof (induction xs arbitrary: m)
  case Nil
  then show ?case using match_holds [of m "[]" n ys] by (cases m) auto
next
  case (Cons x xs)
  then obtain m' where m: "m = x # m'" "holds_str m' xs" "x \<noteq> 0" by (cases m) auto
  then show ?case using Cons match_holds [of m "x # xs" n ys] by simp
qed

lemma strchr_holds [cstr_simps]:
  "holds_str m xs \<Longrightarrow> ch \<noteq> 0 \<Longrightarrow> strchr_c m ch = Some (first_occ [ch] xs)"
proof (induction xs arbitrary: m)
  case Nil
  then show ?case by (cases m) auto
next
  case (Cons x xs)
  then show ?case by (cases m) auto
qed

lemma strrchr_holds [cstr_simps]:
  "holds_str m xs \<Longrightarrow> ch \<noteq> 0 \<Longrightarrow> strrchr_c m ch = Some (last_char ch xs)"
proof (induction xs arbitrary: m)
  case Nil
  then show ?case by (cases m) auto
next
  case (Cons x xs)
  then show ?case by (cases m) auto
qed

section \<open>Copies inside a block\<close>

lemma copy_up_total:
  assumes "dst \<le> src" "src + n \<le> length b"
  shows "\<exists>b'. copy_up b dst src n = Some b' \<and> length b' = length b \<and>
    (\<forall>k<length b. b' ! k = (if dst \<le> k \<and> k < dst + n then b ! (src + (k - dst)) else b ! k))"
  using assms
proof (induction n arbitrary: b dst src)
  case 0
  then show ?case by auto
next
  case (Suc n)
  let ?b1 = "b[dst := b ! src]"
  obtain b' where b': "copy_up ?b1 (Suc dst) (Suc src) n = Some b'" "length b' = length ?b1"
    "\<forall>k<length ?b1. b' ! k = (if Suc dst \<le> k \<and> k < Suc dst + n then ?b1 ! (Suc src + (k - Suc dst)) else ?b1 ! k)"
    using Suc.IH [of "Suc dst" "Suc src" ?b1] Suc.prems by auto
  have "b' ! k = (if dst \<le> k \<and> k < dst + Suc n then b ! (src + (k - dst)) else b ! k)" if "k < length b" for k
  proof -
    consider "k < dst" | "k = dst" | "Suc dst \<le> k" by linarith
    then show ?thesis
      using b'(3) that Suc.prems by cases (auto simp: nth_list_update Suc_diff_Suc)
  qed
  then show ?case using b' Suc.prems by auto
qed

lemma copy_up_move_within:
  assumes "dst \<le> src" "src + n \<le> length b"
  shows "copy_up b dst src n = move_within b dst src n"
proof -
  obtain b' where b': "copy_up b dst src n = Some b'" "length b' = length b"
    "\<forall>k<length b. b' ! k = (if dst \<le> k \<and> k < dst + n then b ! (src + (k - dst)) else b ! k)"
    using copy_up_total [OF assms] by blast
  have "min (length b - src) n = n" using assms by simp
  then have "b' = take dst b @ take n (drop src b) @ drop (dst + n) b"
    using assms b'(2,3) by (intro nth_equalityI) (auto simp: nth_append min.absorb2)
  then show ?thesis
    using assms b'(1) by (simp add: move_within_def memcpy_c_def write_at_def)
qed

section \<open>Printed numbers\<close>

definition digits_val :: "nat \<Rightarrow> nat list \<Rightarrow> nat" where
  "digits_val base ds = foldl (\<lambda>a d. a * base + d) 0 ds"

lemma digits_val_Nil [simp]: "digits_val base [] = 0"
  by (simp add: digits_val_def)

lemma digits_val_snoc [simp]: "digits_val base (ds @ [d]) = digits_val base ds * base + d"
  by (simp add: digits_val_def)

lemma digits_rev_val: "2 \<le> base \<Longrightarrow> digits_val base (rev (digits_rev base n)) = n"
proof (induction base n rule: digits_rev.induct)
  case (1 base n)
  then show ?case by (subst digits_rev.simps) (simp add: digits_val_def)
qed

lemma digits_rev_bound: "d \<in> set (digits_rev base n) \<Longrightarrow> d < base"
proof (induction base n rule: digits_rev.induct)
  case (1 base n)
  then show ?case by (subst (asm) digits_rev.simps) (auto split: if_splits)
qed

lemma digits_rev_length: "2 \<le> base \<Longrightarrow> n < base ^ Suc k \<Longrightarrow> length (digits_rev base n) \<le> Suc k"
proof (induction k arbitrary: n)
  case 0
  then show ?case by (subst digits_rev.simps) simp
next
  case (Suc k)
  have "n div base < base ^ Suc k"
    using Suc.prems by (simp add: div_less_iff_less_mult mult.commute)
  then show ?case using Suc.IH [of "n div base"] Suc.prems(1) by (subst digits_rev.simps) simp
qed

lemma digits_rev_nonempty: "2 \<le> base \<Longrightarrow> digits_rev base n \<noteq> []"
  by (subst digits_rev.simps) simp

lemma unat_digit_char: "d < 36 \<Longrightarrow> unat (digit_char d) = (if d < 10 then 48 + d else 87 + d)"
  by (simp add: digit_char_def unat_of_nat)

lemma digit_char_nonzero: "d < 36 \<Longrightarrow> digit_char d \<noteq> 0"
  using unat_digit_char [of d] by (auto simp: unat_eq_0 split: if_splits)

lemma utoa_nonzero: "0 \<notin> set (utoa_c base n)"
proof
  assume "0 \<in> set (utoa_c base n)"
  then obtain d where "d \<in> set (digits_rev base n)" "digit_char d = 0" "base \<le> 36"
    by (auto simp: utoa_c_def split: if_splits)
  then show False using digits_rev_bound [of d base n] digit_char_nonzero [of d] by simp
qed

lemma utoa_length:
  assumes "base = 0 \<or> base = 1 \<or> n < base ^ Suc k"
  shows "length (utoa_c base n) \<le> Suc k"
  using assms digits_rev_length [of base n k] by (auto simp: utoa_c_def)

lemma utoa_length_pow2:
  assumes "n < 2 ^ Suc k"
  shows "length (utoa_c base n) \<le> Suc k"
proof (cases "2 \<le> base")
  case True
  then have "(2::nat) ^ Suc k \<le> base ^ Suc k" by (rule power_mono) simp
  then show ?thesis using assms utoa_length [of base n k] by linarith
qed (simp add: utoa_c_def)

lemma itoa_nonzero: "0 \<notin> set (itoa_c w base n)"
  using utoa_nonzero by (simp add: itoa_c_def)

lemma isdigit_digit_char: "d < 10 \<Longrightarrow> isdigit_c (digit_char d)"
  by (simp add: isdigit_c_def word_le_nat_alt unat_digit_char)

lemma ucast_digit_char: "d < 10 \<Longrightarrow> (ucast (digit_char d - 48) :: u32) = of_nat d"
proof -
  assume d: "d < 10"
  have "digit_char d - 48 = of_nat d" using d by (simp add: digit_char_def)
  then have "unat (digit_char d - 48) = d" using d by (simp add: unat_of_nat)
  then show ?thesis by (metis of_nat_unat)
qed

lemma atol_digits_val:
  assumes "\<forall>d\<in>set ds. d < 10" "\<not> isdigit_c c"
  shows "atol_digits acc (map digit_char ds @ c # rest) =
    Some (foldl (\<lambda>a d. a * 10 + of_nat d) acc ds)"
  using assms by (induction ds arbitrary: acc) (auto simp: isdigit_digit_char ucast_digit_char)

lemma foldl_digits_word:
  "foldl (\<lambda>a d. a * 10 + of_nat d) (of_nat m :: 'a::len word) ds = of_nat (foldl (\<lambda>a d. a * 10 + d) m ds)"
proof (induction ds arbitrary: m)
  case (Cons d ds)
  then show ?case using Cons.IH [of "m * 10 + d"] by simp
qed simp

lemma atol_utoa:
  assumes "\<not> isdigit_c c"
  shows "atol_digits 0 (utoa_c 10 n @ c # rest) = Some (of_nat n)"
proof -
  have "\<forall>d\<in>set (rev (digits_rev 10 n)). d < 10" using digits_rev_bound by auto
  then show ?thesis
    using atol_digits_val [of "rev (digits_rev 10 n)" c 0 rest] assms digits_rev_val [of 10 n]
      foldl_digits_word [of 0 "rev (digits_rev 10 n)", where 'a = 32]
    by (simp add: utoa_c_def rev_map digits_val_def)
qed

lemma utoa_10_hd: "\<exists>d ds. utoa_c 10 n = digit_char d # ds \<and> d < 10"
proof -
  obtain d ds where "rev (digits_rev 10 n) = d # ds"
    using digits_rev_nonempty [of 10 n] by (cases "rev (digits_rev 10 n)") auto
  moreover from this have "d < 10"
    using digits_rev_bound [of d 10 n] by (metis list.set_intros(1) set_rev)
  ultimately show ?thesis by (auto simp: utoa_c_def rev_map)
qed

lemma digit_not_special:
  assumes "d < 10"
  shows "\<not> isspace_c (digit_char d)" "digit_char d \<noteq> 45" "digit_char d \<noteq> 43"
  using unat_digit_char [of d] assms by (auto simp: isspace_c_def word_le_nat_alt)

lemma atol_itoa:
  assumes "\<not> isdigit_c c" "- (2 ^ 31) \<le> n" "n < 2 ^ 31"
  shows "atol_c (itoa_c 32 10 n @ c # rest) = Some (word_of_int n)"
proof (cases "n < 0")
  case True
  then have "- word_of_nat (nat (- n)) = (word_of_int n :: u32)" by (simp add: of_nat_nat)
  then show ?thesis
    using True atol_utoa [OF assms(1)] by (simp add: itoa_c_def isspace_c_def)
next
  case False
  then have n: "nat (n mod 2 ^ 32) = nat n" "of_nat (nat n) = (word_of_int n :: u32)"
    using assms(3) by simp_all
  obtain d ds where d: "utoa_c 10 (nat n) = digit_char d # ds" "d < 10" using utoa_10_hd by blast
  have "atol_c (utoa_c 10 (nat n) @ c # rest) = atol_digits 0 (utoa_c 10 (nat n) @ c # rest)"
    using d digit_not_special [of d] by simp
  then show ?thesis
    using False n atol_utoa [OF assms(1), of "nat n"] by (simp add: itoa_c_def)
qed

end
