(* ===== verification/Arduino_WString.thy ===== *)
theory Arduino_WString
  imports C_Strings
begin

text \<open>
  The \<open>String\<close> class (\<open>cores/AT90USB/WString.cpp\<close>).  \<open>buffer\<close> is \<open>None\<close> for the null pointer and
  otherwise the allocated block; the lengths are the 16-bit \<open>unsigned int\<close> of the target.  The
  allocator is a parameter: \<open>alloc n\<close> is a fresh block of \<open>n\<close> bytes, or \<open>None\<close> when it fails.  A
  memory access outside a block or through the null pointer makes the result of the operation
  \<open>None\<close>.  Objects passed by reference are distinct from the receiver.
\<close>

section \<open>State and memory management\<close>

record WString =
  ws_buffer :: "u8 list option"
  ws_capacity :: u16
  ws_len :: u16
  ws_flags :: u8

type_synonym alloc = "nat \<Rightarrow> u8 list option"

definition alloc_ok :: "alloc \<Rightarrow> bool" where
  "alloc_ok alloc \<longleftrightarrow> (\<forall>n b. alloc n = Some b \<longrightarrow> length b = n)"

definition realloc_c :: "alloc \<Rightarrow> u8 list option \<Rightarrow> nat \<Rightarrow> u8 list option" where
  "realloc_c alloc old n =
     (case alloc n of
        None \<Rightarrow> None
      | Some b \<Rightarrow> Some (case old of None \<Rightarrow> b | Some a \<Rightarrow> take n a @ drop (length a) b))"

definition String_init :: WString where
  "String_init = \<lparr>ws_buffer = None, ws_capacity = 0, ws_len = 0, ws_flags = 0\<rparr>"

definition String_invalidate :: "WString \<Rightarrow> WString" where
  "String_invalidate s = s\<lparr>ws_buffer := None, ws_capacity := 0, ws_len := 0\<rparr>"

definition String_changeBuffer :: "alloc \<Rightarrow> u16 \<Rightarrow> WString \<Rightarrow> bool \<times> WString" where
  "String_changeBuffer alloc maxStrLen s =
     (case realloc_c alloc (ws_buffer s) (unat (maxStrLen + 1)) of
        Some newbuffer \<Rightarrow> (True, s\<lparr>ws_buffer := Some newbuffer, ws_capacity := maxStrLen\<rparr>)
      | None \<Rightarrow> (False, s))"

definition ws_set :: "WString \<Rightarrow> nat \<Rightarrow> u8 \<Rightarrow> WString option" where
  "ws_set s i c = do { b \<leftarrow> ws_buffer s; b' \<leftarrow> arr_set b i c; Some (s\<lparr>ws_buffer := Some b'\<rparr>) }"

definition String_reserve :: "alloc \<Rightarrow> u16 \<Rightarrow> WString \<Rightarrow> (bool \<times> WString) option" where
  "String_reserve alloc sz s =
     (if ws_buffer s \<noteq> None \<and> ws_capacity s \<ge> sz then Some (True, s)
      else (case String_changeBuffer alloc sz s of
              (True, s1) \<Rightarrow>
                if ws_len s1 = 0 then do { s2 \<leftarrow> ws_set s1 0 0; Some (True, s2) } else Some (True, s1)
            | (False, s1) \<Rightarrow> Some (False, s1)))"

definition String_copy :: "alloc \<Rightarrow> u8 list \<Rightarrow> u16 \<Rightarrow> WString \<Rightarrow> WString option" where
  "String_copy alloc cstr n s =
     do { (ok, s1) \<leftarrow> String_reserve alloc n s;
          if \<not> ok then Some (String_invalidate s1)
          else do { b \<leftarrow> ws_buffer s1; b' \<leftarrow> strcpy_c b 0 cstr;
                    Some (s1\<lparr>ws_len := n, ws_buffer := Some b'\<rparr>) } }"

definition cstr_len16 :: "u8 list \<Rightarrow> u16 option" where
  "cstr_len16 cstr = map_option of_nat (strlen_c cstr)"

definition String_assign_cstr :: "alloc \<Rightarrow> u8 list option \<Rightarrow> WString \<Rightarrow> WString option" where
  "String_assign_cstr alloc cstr s =
     (case cstr of
        Some m \<Rightarrow> do { n \<leftarrow> cstr_len16 m; String_copy alloc m n s }
      | None \<Rightarrow> Some (String_invalidate s))"

definition String_assign :: "alloc \<Rightarrow> WString \<Rightarrow> WString \<Rightarrow> WString option" where
  "String_assign alloc rhs s =
     (case ws_buffer rhs of
        Some m \<Rightarrow> String_copy alloc m (ws_len rhs) s
      | None \<Rightarrow> Some (String_invalidate s))"

definition String_move :: "WString \<Rightarrow> WString \<Rightarrow> (WString \<times> WString) option" where
  "String_move rhs s =
     (if ws_buffer s \<noteq> None \<and> ws_capacity s \<ge> ws_len rhs
      then do { b \<leftarrow> ws_buffer s; m \<leftarrow> ws_buffer rhs; b' \<leftarrow> strcpy_c b 0 m;
                Some (s\<lparr>ws_buffer := Some b', ws_len := ws_len rhs\<rparr>, rhs\<lparr>ws_len := 0\<rparr>) }
      else Some (s\<lparr>ws_buffer := ws_buffer rhs, ws_capacity := ws_capacity rhs, ws_len := ws_len rhs\<rparr>,
                 rhs\<lparr>ws_buffer := None, ws_capacity := 0, ws_len := 0\<rparr>))"

section \<open>Constructors\<close>

definition String_cstr :: "alloc \<Rightarrow> u8 list option \<Rightarrow> WString option" where
  "String_cstr alloc cstr =
     (case cstr of
        Some m \<Rightarrow> do { n \<leftarrow> cstr_len16 m; String_copy alloc m n String_init }
      | None \<Rightarrow> Some String_init)"

definition String_String :: "alloc \<Rightarrow> WString \<Rightarrow> WString option" where
  "String_String alloc value = String_assign alloc value String_init"

definition String_char :: "alloc \<Rightarrow> u8 \<Rightarrow> WString option" where
  "String_char alloc c = String_assign_cstr alloc (Some [c, 0]) String_init"

text \<open>The number constructors print into an array of the given size first.\<close>

definition in_buf :: "nat \<Rightarrow> u8 list \<Rightarrow> u8 list option" where
  "in_buf bufsize xs = (if length xs < bufsize then Some (xs @ [0]) else None)"

definition String_uchar :: "alloc \<Rightarrow> u8 \<Rightarrow> u8 \<Rightarrow> WString option" where
  "String_uchar alloc value base =
     do { buf \<leftarrow> in_buf 9 (utoa_c (unat base) (unat value)); String_assign_cstr alloc (Some buf) String_init }"

definition String_int :: "alloc \<Rightarrow> u16 \<Rightarrow> u8 \<Rightarrow> WString option" where
  "String_int alloc value base =
     do { buf \<leftarrow> in_buf 18 (itoa_c 16 (unat base) (sint value)); String_assign_cstr alloc (Some buf) String_init }"

definition String_uint :: "alloc \<Rightarrow> u16 \<Rightarrow> u8 \<Rightarrow> WString option" where
  "String_uint alloc value base =
     do { buf \<leftarrow> in_buf 17 (utoa_c (unat base) (unat value)); String_assign_cstr alloc (Some buf) String_init }"

definition String_long :: "alloc \<Rightarrow> u32 \<Rightarrow> u8 \<Rightarrow> WString option" where
  "String_long alloc value base =
     do { buf \<leftarrow> in_buf 34 (itoa_c 32 (unat base) (sint value)); String_assign_cstr alloc (Some buf) String_init }"

definition String_ulong :: "alloc \<Rightarrow> u32 \<Rightarrow> u8 \<Rightarrow> WString option" where
  "String_ulong alloc value base =
     do { buf \<leftarrow> in_buf 33 (utoa_c (unat base) (unat value)); String_assign_cstr alloc (Some buf) String_init }"

section \<open>Concatenation\<close>

definition String_concat_n :: "alloc \<Rightarrow> u8 list option \<Rightarrow> u16 \<Rightarrow> WString \<Rightarrow> (bool \<times> WString) option" where
  "String_concat_n alloc cstr n s =
     (let newlen = ws_len s + n in
      case cstr of
        None \<Rightarrow> Some (False, s)
      | Some m \<Rightarrow>
          if n = 0 then Some (True, s)
          else do { (ok, s1) \<leftarrow> String_reserve alloc newlen s;
                    if \<not> ok then Some (False, s1)
                    else do { b \<leftarrow> ws_buffer s1; b' \<leftarrow> strcpy_c b (unat (ws_len s1)) m;
                              Some (True, s1\<lparr>ws_buffer := Some b', ws_len := newlen\<rparr>) } })"

definition String_concat :: "alloc \<Rightarrow> WString \<Rightarrow> WString \<Rightarrow> (bool \<times> WString) option" where
  "String_concat alloc s2 s = String_concat_n alloc (ws_buffer s2) (ws_len s2) s"

definition String_concat_cstr :: "alloc \<Rightarrow> u8 list option \<Rightarrow> WString \<Rightarrow> (bool \<times> WString) option" where
  "String_concat_cstr alloc cstr s =
     (case cstr of
        None \<Rightarrow> Some (False, s)
      | Some m \<Rightarrow> do { n \<leftarrow> cstr_len16 m; String_concat_n alloc (Some m) n s })"

definition String_concat_char :: "alloc \<Rightarrow> u8 \<Rightarrow> WString \<Rightarrow> (bool \<times> WString) option" where
  "String_concat_char alloc c s = String_concat_n alloc (Some [c, 0]) 1 s"

definition String_concat_uchar :: "alloc \<Rightarrow> u8 \<Rightarrow> WString \<Rightarrow> (bool \<times> WString) option" where
  "String_concat_uchar alloc num s =
     do { buf \<leftarrow> in_buf 4 (itoa_c 16 10 (uint num)); n \<leftarrow> cstr_len16 buf; String_concat_n alloc (Some buf) n s }"

definition String_concat_int :: "alloc \<Rightarrow> u16 \<Rightarrow> WString \<Rightarrow> (bool \<times> WString) option" where
  "String_concat_int alloc num s =
     do { buf \<leftarrow> in_buf 7 (itoa_c 16 10 (sint num)); n \<leftarrow> cstr_len16 buf; String_concat_n alloc (Some buf) n s }"

definition String_concat_uint :: "alloc \<Rightarrow> u16 \<Rightarrow> WString \<Rightarrow> (bool \<times> WString) option" where
  "String_concat_uint alloc num s =
     do { buf \<leftarrow> in_buf 6 (utoa_c 10 (unat num)); n \<leftarrow> cstr_len16 buf; String_concat_n alloc (Some buf) n s }"

definition String_concat_long :: "alloc \<Rightarrow> u32 \<Rightarrow> WString \<Rightarrow> (bool \<times> WString) option" where
  "String_concat_long alloc num s =
     do { buf \<leftarrow> in_buf 12 (itoa_c 32 10 (sint num)); n \<leftarrow> cstr_len16 buf; String_concat_n alloc (Some buf) n s }"

definition String_concat_ulong :: "alloc \<Rightarrow> u32 \<Rightarrow> WString \<Rightarrow> (bool \<times> WString) option" where
  "String_concat_ulong alloc num s =
     do { buf \<leftarrow> in_buf 11 (utoa_c 10 (unat num)); n \<leftarrow> cstr_len16 buf; String_concat_n alloc (Some buf) n s }"

text \<open>The sum operators invalidate their left operand when the concatenation fails.\<close>

definition or_invalidate :: "bool \<times> WString \<Rightarrow> WString" where
  "or_invalidate r = (if fst r then snd r else String_invalidate (snd r))"

definition String_plus :: "alloc \<Rightarrow> WString \<Rightarrow> WString \<Rightarrow> WString option" where
  "String_plus alloc lhs rhs = map_option or_invalidate (String_concat_n alloc (ws_buffer rhs) (ws_len rhs) lhs)"

definition String_plus_cstr :: "alloc \<Rightarrow> WString \<Rightarrow> u8 list option \<Rightarrow> WString option" where
  "String_plus_cstr alloc lhs cstr = map_option or_invalidate (String_concat_cstr alloc cstr lhs)"

definition String_plus_char :: "alloc \<Rightarrow> WString \<Rightarrow> u8 \<Rightarrow> WString option" where
  "String_plus_char alloc lhs c = map_option or_invalidate (String_concat_char alloc c lhs)"

definition String_plus_uchar :: "alloc \<Rightarrow> WString \<Rightarrow> u8 \<Rightarrow> WString option" where
  "String_plus_uchar alloc lhs num = map_option or_invalidate (String_concat_uchar alloc num lhs)"

definition String_plus_int :: "alloc \<Rightarrow> WString \<Rightarrow> u16 \<Rightarrow> WString option" where
  "String_plus_int alloc lhs num = map_option or_invalidate (String_concat_int alloc num lhs)"

definition String_plus_uint :: "alloc \<Rightarrow> WString \<Rightarrow> u16 \<Rightarrow> WString option" where
  "String_plus_uint alloc lhs num = map_option or_invalidate (String_concat_uint alloc num lhs)"

definition String_plus_long :: "alloc \<Rightarrow> WString \<Rightarrow> u32 \<Rightarrow> WString option" where
  "String_plus_long alloc lhs num = map_option or_invalidate (String_concat_long alloc num lhs)"

definition String_plus_ulong :: "alloc \<Rightarrow> WString \<Rightarrow> u32 \<Rightarrow> WString option" where
  "String_plus_ulong alloc lhs num = map_option or_invalidate (String_concat_ulong alloc num lhs)"

section \<open>Comparison\<close>

definition String_compareTo :: "WString \<Rightarrow> WString \<Rightarrow> int option" where
  "String_compareTo self s =
     (case (ws_buffer self, ws_buffer s) of
        (Some b, Some b2) \<Rightarrow> strcmp_c b b2
      | (None, Some b2) \<Rightarrow> if ws_len s > 0 then map_option (\<lambda>c. 0 - uint c) (arr_get b2 0) else Some 0
      | (Some b, None) \<Rightarrow> if ws_len self > 0 then map_option uint (arr_get b 0) else Some 0
      | (None, None) \<Rightarrow> Some 0)"

definition String_equals :: "WString \<Rightarrow> WString \<Rightarrow> bool option" where
  "String_equals self s2 =
     (if ws_len self = ws_len s2 then map_option (\<lambda>r. r = 0) (String_compareTo self s2) else Some False)"

definition String_equals_cstr :: "WString \<Rightarrow> u8 list option \<Rightarrow> bool option" where
  "String_equals_cstr self cstr =
     (if ws_len self = 0
      then (case cstr of None \<Rightarrow> Some True | Some m \<Rightarrow> map_option (\<lambda>c. c = 0) (arr_get m 0))
      else do { b \<leftarrow> ws_buffer self;
                case cstr of
                  None \<Rightarrow> map_option (\<lambda>c. c = 0) (arr_get b 0)
                | Some m \<Rightarrow> map_option (\<lambda>r. r = 0) (strcmp_c b m) })"

definition String_less :: "WString \<Rightarrow> WString \<Rightarrow> bool option" where
  "String_less self rhs = map_option (\<lambda>r. r < 0) (String_compareTo self rhs)"

definition String_greater :: "WString \<Rightarrow> WString \<Rightarrow> bool option" where
  "String_greater self rhs = map_option (\<lambda>r. r > 0) (String_compareTo self rhs)"

definition String_less_eq :: "WString \<Rightarrow> WString \<Rightarrow> bool option" where
  "String_less_eq self rhs = map_option (\<lambda>r. r \<le> 0) (String_compareTo self rhs)"

definition String_greater_eq :: "WString \<Rightarrow> WString \<Rightarrow> bool option" where
  "String_greater_eq self rhs = map_option (\<lambda>r. r \<ge> 0) (String_compareTo self rhs)"

fun equalsIgnoreCase_loop :: "u8 list \<Rightarrow> u8 list \<Rightarrow> bool option" where
  "equalsIgnoreCase_loop [] _ = None"
| "equalsIgnoreCase_loop (a # as) p2 =
     (if a = 0 then Some True
      else (case p2 of
              [] \<Rightarrow> None
            | b # bs \<Rightarrow> if tolower_c a \<noteq> tolower_c b then Some False else equalsIgnoreCase_loop as bs))"

definition String_equalsIgnoreCase :: "WString \<Rightarrow> WString \<Rightarrow> bool option" where
  "String_equalsIgnoreCase self s2 =
     (if ws_len self \<noteq> ws_len s2 then Some False
      else if ws_len self = 0 then Some True
      else do { p1 \<leftarrow> ws_buffer self; p2 \<leftarrow> ws_buffer s2; equalsIgnoreCase_loop p1 p2 })"

definition String_startsWith_at :: "WString \<Rightarrow> u16 \<Rightarrow> WString \<Rightarrow> bool option" where
  "String_startsWith_at s2 offset self =
     (if offset > ws_len self - ws_len s2 then Some False
      else (case (ws_buffer self, ws_buffer s2) of
              (Some b, Some b2) \<Rightarrow>
                map_option (\<lambda>r. r = 0) (strncmp_c (drop (unat offset) b) b2 (unat (ws_len s2)))
            | _ \<Rightarrow> Some False))"

definition String_startsWith :: "WString \<Rightarrow> WString \<Rightarrow> bool option" where
  "String_startsWith s2 self =
     (if ws_len self < ws_len s2 then Some False else String_startsWith_at s2 0 self)"

definition String_endsWith :: "WString \<Rightarrow> WString \<Rightarrow> bool option" where
  "String_endsWith s2 self =
     (if ws_len self < ws_len s2 then Some False
      else (case (ws_buffer self, ws_buffer s2) of
              (Some b, Some b2) \<Rightarrow>
                map_option (\<lambda>r. r = 0) (strcmp_c (drop (unat (ws_len self - ws_len s2)) b) b2)
            | _ \<Rightarrow> Some False))"

section \<open>Character access\<close>

definition String_index :: "u16 \<Rightarrow> WString \<Rightarrow> u8 option" where
  "String_index index self =
     (case ws_buffer self of
        None \<Rightarrow> Some 0
      | Some b \<Rightarrow> if index \<ge> ws_len self then Some 0 else arr_get b (unat index))"

definition String_charAt :: "u16 \<Rightarrow> WString \<Rightarrow> u8 option" where
  "String_charAt loc self = String_index loc self"

definition String_setCharAt :: "u16 \<Rightarrow> u8 \<Rightarrow> WString \<Rightarrow> WString option" where
  "String_setCharAt loc c self = (if loc < ws_len self then ws_set self (unat loc) c else Some self)"

definition String_getBytes :: "u8 list option \<Rightarrow> u16 \<Rightarrow> u16 \<Rightarrow> WString \<Rightarrow> u8 list option option" where
  "String_getBytes buf bufsize index self =
     (case buf of
        None \<Rightarrow> Some None
      | Some m \<Rightarrow>
          if bufsize = 0 then Some (Some m)
          else if index \<ge> ws_len self then map_option Some (arr_set m 0 0)
          else do { let n = (if bufsize - 1 > ws_len self - index then ws_len self - index else bufsize - 1);
                    b \<leftarrow> ws_buffer self;
                    bytes \<leftarrow> strncpy_bytes (drop (unat index) b) (unat n);
                    m1 \<leftarrow> write_at m 0 bytes;
                    map_option Some (arr_set m1 (unat n) 0) })"

section \<open>Search\<close>

text \<open>The offset of a found character as an \<open>int\<close>, -1 for the null pointer.\<close>

definition found_int :: "nat option \<Rightarrow> int" where
  "found_int r = (case r of None \<Rightarrow> -1 | Some i \<Rightarrow> int16 (int i))"

definition String_indexOf_char_from :: "u8 \<Rightarrow> u16 \<Rightarrow> WString \<Rightarrow> int option" where
  "String_indexOf_char_from ch fromIndex self =
     (if fromIndex \<ge> ws_len self then Some (- 1)
      else do { b \<leftarrow> ws_buffer self;
                temp \<leftarrow> strchr_c (drop (unat fromIndex) b) ch;
                Some (found_int (map_option (\<lambda>i. unat fromIndex + i) temp)) })"

definition String_indexOf_char :: "u8 \<Rightarrow> WString \<Rightarrow> int option" where
  "String_indexOf_char c self = String_indexOf_char_from c 0 self"

definition String_indexOf_from :: "WString \<Rightarrow> u16 \<Rightarrow> WString \<Rightarrow> int option" where
  "String_indexOf_from s2 fromIndex self =
     (if fromIndex \<ge> ws_len self then Some (- 1)
      else do { b \<leftarrow> ws_buffer self; b2 \<leftarrow> ws_buffer s2;
                found \<leftarrow> strstr_c (drop (unat fromIndex) b) b2;
                Some (found_int (map_option (\<lambda>i. unat fromIndex + i) found)) })"

definition String_indexOf :: "WString \<Rightarrow> WString \<Rightarrow> int option" where
  "String_indexOf s2 self = String_indexOf_from s2 0 self"

text \<open>
  The search backwards for a character terminates the text after \<open>fromIndex\<close> for the time of the
  library call; the restored buffer is unchanged.
\<close>

definition String_lastIndexOf_char_from :: "u8 \<Rightarrow> u16 \<Rightarrow> WString \<Rightarrow> int option" where
  "String_lastIndexOf_char_from ch fromIndex self =
     (if fromIndex \<ge> ws_len self then Some (- 1)
      else do { b \<leftarrow> ws_buffer self;
                b' \<leftarrow> arr_set b (unat (fromIndex + 1)) 0;
                temp \<leftarrow> strrchr_c b' ch;
                Some (found_int temp) })"

definition String_lastIndexOf_char :: "u8 \<Rightarrow> WString \<Rightarrow> int option" where
  "String_lastIndexOf_char theChar self = String_lastIndexOf_char_from theChar (ws_len self - 1) self"

function lastIndexOf_loop :: "u8 list \<Rightarrow> u8 list \<Rightarrow> nat \<Rightarrow> nat \<Rightarrow> nat option \<Rightarrow> nat option option" where
  "lastIndexOf_loop b b2 fromIndex p found =
     (if p \<le> fromIndex
      then do { r \<leftarrow> strstr_c (drop p b) b2;
                case r of
                  None \<Rightarrow> Some found
                | Some k \<Rightarrow>
                    lastIndexOf_loop b b2 fromIndex (Suc (p + k))
                      (if p + k \<le> fromIndex then Some (p + k) else found) }
      else Some found)"
  by pat_completeness auto
termination
  by (relation "measure (\<lambda>(_, _, fromIndex, p, _). Suc fromIndex - p)") auto

declare lastIndexOf_loop.simps [simp del]

definition String_lastIndexOf_from :: "WString \<Rightarrow> u16 \<Rightarrow> WString \<Rightarrow> int option" where
  "String_lastIndexOf_from s2 fromIndex self =
     (if ws_len s2 = 0 \<or> ws_len self = 0 \<or> ws_len s2 > ws_len self then Some (- 1)
      else do { let from = (if fromIndex \<ge> ws_len self then ws_len self - 1 else fromIndex);
                b \<leftarrow> ws_buffer self; b2 \<leftarrow> ws_buffer s2;
                r \<leftarrow> lastIndexOf_loop b b2 (unat from) 0 None;
                Some (found_int r) })"

definition String_lastIndexOf :: "WString \<Rightarrow> WString \<Rightarrow> int option" where
  "String_lastIndexOf s2 self = String_lastIndexOf_from s2 (ws_len self - ws_len s2) self"

definition String_substring :: "alloc \<Rightarrow> u16 \<Rightarrow> u16 \<Rightarrow> WString \<Rightarrow> WString option" where
  "String_substring alloc left right self =
     (let l = (if left > right then right else left); r = (if left > right then left else right) in
      if l > ws_len self then Some String_init
      else do { let r = (if r > ws_len self then ws_len self else r);
                b \<leftarrow> ws_buffer self;
                b' \<leftarrow> arr_set b (unat r) 0;
                String_assign_cstr alloc (Some (drop (unat l) b')) String_init })"

definition String_substring_from :: "alloc \<Rightarrow> u16 \<Rightarrow> WString \<Rightarrow> WString option" where
  "String_substring_from alloc left self = String_substring alloc left (ws_len self) self"

section \<open>Modification\<close>

text \<open>A loop over the text that rewrites each character.\<close>

fun map_str :: "(u8 \<Rightarrow> u8) \<Rightarrow> u8 list \<Rightarrow> u8 list option" where
  "map_str f [] = None"
| "map_str f (c # cs) = (if c = 0 then Some (c # cs) else map_option (Cons (f c)) (map_str f cs))"

definition String_map :: "(u8 \<Rightarrow> u8) \<Rightarrow> WString \<Rightarrow> WString option" where
  "String_map f self =
     (case ws_buffer self of
        None \<Rightarrow> Some self
      | Some b \<Rightarrow> map_option (\<lambda>b'. self\<lparr>ws_buffer := Some b'\<rparr>) (map_str f b))"

definition String_replace_char :: "u8 \<Rightarrow> u8 \<Rightarrow> WString \<Rightarrow> WString option" where
  "String_replace_char old new self = String_map (\<lambda>c. if c = old then new else c) self"

definition String_toLowerCase :: "WString \<Rightarrow> WString option" where
  "String_toLowerCase self = String_map tolower_c self"

definition String_toUpperCase :: "WString \<Rightarrow> WString option" where
  "String_toUpperCase self = String_map toupper_c self"

text \<open>The bytes \<open>memcpy\<close> reads from the replacement; none are read when the count is zero.\<close>

definition replacement_bytes :: "WString \<Rightarrow> u8 list option" where
  "replacement_bytes r =
     (if ws_len r = 0 then Some []
      else do { b \<leftarrow> ws_buffer r; if unat (ws_len r) \<le> length b then Some (take (unat (ws_len r)) b) else None })"

text \<open>The three loops of \<open>replace\<close>; \<open>needle\<close> is the memory at \<open>find.buffer\<close>.\<close>

partial_function (option) replace_same_loop ::
    "u8 list \<Rightarrow> WString \<Rightarrow> nat \<Rightarrow> u8 list \<Rightarrow> u8 list option" where
  "replace_same_loop needle new readFrom b =
     do { r \<leftarrow> strstr_c (drop readFrom b) needle;
          case r of
            None \<Rightarrow> Some b
          | Some k \<Rightarrow> do { rep \<leftarrow> replacement_bytes new;
                           b' \<leftarrow> write_at b (readFrom + k) rep;
                           replace_same_loop needle new (readFrom + k + unat (ws_len new)) b' } }"

partial_function (option) replace_shrink_loop ::
    "u8 list \<Rightarrow> nat \<Rightarrow> WString \<Rightarrow> u16 \<Rightarrow> nat \<Rightarrow> nat \<Rightarrow> u8 list \<Rightarrow> u16 \<Rightarrow> (u8 list \<times> u16) option" where
  "replace_shrink_loop needle oldlen new diff readFrom writeTo b len =
     do { r \<leftarrow> strstr_c (drop readFrom b) needle;
          case r of
            None \<Rightarrow> do { n \<leftarrow> strlen_c (drop readFrom b);
                         b' \<leftarrow> copy_up b writeTo readFrom (Suc n);
                         Some (b', len) }
          | Some k \<Rightarrow> do { b1 \<leftarrow> copy_up b writeTo readFrom k;
                           rep \<leftarrow> replacement_bytes new;
                           b2 \<leftarrow> write_at b1 (writeTo + k) rep;
                           replace_shrink_loop needle oldlen new diff (readFrom + k + oldlen)
                             (writeTo + k + unat (ws_len new)) b2 (len + diff) } }"

partial_function (option) replace_size_loop ::
    "u8 list \<Rightarrow> nat \<Rightarrow> u16 \<Rightarrow> nat \<Rightarrow> u8 list \<Rightarrow> u16 \<Rightarrow> u16 option" where
  "replace_size_loop needle oldlen diff readFrom b sz =
     do { r \<leftarrow> strstr_c (drop readFrom b) needle;
          case r of
            None \<Rightarrow> Some sz
          | Some k \<Rightarrow> replace_size_loop needle oldlen diff (readFrom + k + oldlen) b (sz + diff) }"

partial_function (option) replace_grow_loop ::
    "WString \<Rightarrow> WString \<Rightarrow> u16 \<Rightarrow> int \<Rightarrow> WString \<Rightarrow> WString option" where
  "replace_grow_loop old new diff index self =
     (if index < 0 then Some self
      else do { i \<leftarrow> String_lastIndexOf_from old (word_of_int index) self;
                if i < 0 then Some self
                else do { b \<leftarrow> ws_buffer self;
                          let readFrom = nat i + unat (ws_len old);
                          b1 \<leftarrow> move_within b (readFrom + unat diff) readFrom
                                  (unat (ws_len self - of_nat readFrom));
                          let len = ws_len self + diff;
                          b2 \<leftarrow> arr_set b1 (unat len) 0;
                          rep \<leftarrow> replacement_bytes new;
                          b3 \<leftarrow> write_at b2 (nat i) rep;
                          replace_grow_loop old new diff (i - 1)
                            (self\<lparr>ws_buffer := Some b3, ws_len := len\<rparr>) } })"

declare replace_same_loop.simps [code] replace_shrink_loop.simps [code]
  replace_size_loop.simps [code] replace_grow_loop.simps [code]

definition String_replace :: "alloc \<Rightarrow> WString \<Rightarrow> WString \<Rightarrow> WString \<Rightarrow> WString option" where
  "String_replace alloc old new self =
     (if ws_len self = 0 \<or> ws_len old = 0 then Some self
      else do { let diff = ws_len new - ws_len old;
                b \<leftarrow> ws_buffer self; needle \<leftarrow> ws_buffer old;
                if diff = 0
                then do { b' \<leftarrow> replace_same_loop needle new 0 b;
                          Some (self\<lparr>ws_buffer := Some b'\<rparr>) }
                else if sint diff < 0
                then do { (b', len) \<leftarrow> replace_shrink_loop needle (unat (ws_len old)) new diff 0 0 b (ws_len self);
                          Some (self\<lparr>ws_buffer := Some b', ws_len := len\<rparr>) }
                else do { sz \<leftarrow> replace_size_loop needle (unat (ws_len old)) diff 0 b (ws_len self);
                          if sz = ws_len self then Some self
                          else do { let (ok, s1) = (if sz > ws_capacity self then String_changeBuffer alloc sz self
                                                    else (True, self));
                                    if \<not> ok then Some s1
                                    else replace_grow_loop old new diff (int16 (uint (ws_len s1 - 1))) s1 } } })"

fun skip_space :: "u8 list \<Rightarrow> nat option" where
  "skip_space [] = None"
| "skip_space (c # cs) = (if isspace_c c then map_option Suc (skip_space cs) else Some 0)"

text \<open>The backward loop of \<open>trim\<close>; the last argument is \<open>end + 1\<close>.\<close>

fun trim_end :: "u8 list \<Rightarrow> nat \<Rightarrow> nat \<Rightarrow> nat option" where
  "trim_end b start 0 = None"
| "trim_end b start (Suc e) =
     do { c \<leftarrow> arr_get b e; if isspace_c c \<and> e \<ge> start then trim_end b start e else Some (Suc e) }"

definition String_trim :: "WString \<Rightarrow> WString option" where
  "String_trim self =
     (case ws_buffer self of
        None \<Rightarrow> Some self
      | Some b \<Rightarrow>
          if ws_len self = 0 then Some self
          else do { start \<leftarrow> skip_space b;
                    e \<leftarrow> trim_end b start (unat (ws_len self));
                    let len = (of_nat e - of_nat start :: u16);
                    b1 \<leftarrow> (if start > 0 then copy_up b 0 start (unat len) else Some b);
                    b2 \<leftarrow> arr_set b1 (unat len) 0;
                    Some (self\<lparr>ws_buffer := Some b2, ws_len := len\<rparr>) })"

section \<open>Parsing\<close>

definition String_toInt :: "WString \<Rightarrow> u32 option" where
  "String_toInt self = (case ws_buffer self of Some b \<Rightarrow> atol_c b | None \<Rightarrow> Some 0)"

section \<open>The text of a string\<close>

text \<open>
  \<open>ws_rep s xs\<close>: the block has \<open>capacity + 1\<close> bytes and starts with the terminated text \<open>xs\<close>, whose
  length is \<open>len\<close>.  \<open>ws_val\<close> also admits the invalid string, whose text is empty.
\<close>

definition ws_rep :: "WString \<Rightarrow> u8 list \<Rightarrow> bool" where
  "ws_rep s xs \<longleftrightarrow>
     (case ws_buffer s of
        None \<Rightarrow> False
      | Some b \<Rightarrow> length b = Suc (unat (ws_capacity s)) \<and> unat (ws_len s) = length xs \<and> holds_str b xs)"

definition ws_null :: "WString \<Rightarrow> bool" where
  "ws_null s \<longleftrightarrow> ws_buffer s = None \<and> ws_len s = 0 \<and> ws_capacity s = 0"

definition ws_val :: "WString \<Rightarrow> u8 list \<Rightarrow> bool" where
  "ws_val s xs \<longleftrightarrow> ws_null s \<and> xs = [] \<or> ws_rep s xs"

lemma ws_rep_Some:
  "ws_rep s xs \<longleftrightarrow> (\<exists>b. ws_buffer s = Some b \<and> length b = Suc (unat (ws_capacity s)) \<and>
     unat (ws_len s) = length xs \<and> holds_str b xs)"
  by (simp add: ws_rep_def split: option.splits)

lemma ws_repE:
  assumes "ws_rep s xs"
  obtains b where "ws_buffer s = Some b" "length b = Suc (unat (ws_capacity s))"
    "unat (ws_len s) = length xs" "ws_len s = of_nat (length xs)" "holds_str b xs"
  using assms unfolding ws_rep_Some by (metis of_nat_unat ucast_id)

lemma ws_valE:
  assumes "ws_val s xs"
  obtains "ws_null s" "xs = []" "ws_len s = 0" | "ws_rep s xs" "ws_len s = of_nat (length xs)"
  using assms unfolding ws_val_def by (metis ws_repE ws_null_def)

lemma ws_val_len: "ws_val s xs \<Longrightarrow> ws_len s = of_nat (length xs) \<and> unat (ws_len s) = length xs"
  by (auto elim!: ws_repE simp: ws_val_def ws_null_def)

lemma ws_rep_fits: "ws_rep s xs \<Longrightarrow> length xs \<le> unat (ws_capacity s)"
  by (auto simp: ws_rep_Some dest: holds_str_length)

lemma ws_rep_len: "ws_rep s xs \<Longrightarrow> length xs < 65536"
  using unsigned_less [where w = "ws_len s" and 'a = nat] by (auto simp: ws_rep_Some)

lemma ws_len_0_iff: "ws_rep s xs \<Longrightarrow> ws_len s = 0 \<longleftrightarrow> xs = []"
  by (auto simp: ws_rep_Some unat_eq_0)

lemma unat_Suc_small: "unat n < 65535 \<Longrightarrow> unat (n + 1) = Suc (unat n)" for n :: u16
  by (simp add: unat_word_ariths)

lemma unat_of_nat16: "n < 65536 \<Longrightarrow> unat (of_nat n :: u16) = n"
  by (simp add: unat_of_nat)

lemma length_realloc:
  assumes "alloc_ok alloc" "realloc_c alloc old n = Some b"
  shows "length b = n"
  using assms by (auto simp: realloc_c_def alloc_ok_def split: option.splits)

lemma realloc_holds:
  assumes "alloc_ok alloc" "realloc_c alloc (Some a) n = Some b" "holds_str a xs" "length a \<le> n"
  shows "holds_str b xs"
  using assms by (auto simp: realloc_c_def alloc_ok_def holds_str_def split: option.splits)

lemma String_init_null [simp]: "ws_null String_init"
  by (simp add: ws_null_def String_init_def)

lemma String_invalidate_null [simp]: "ws_null (String_invalidate s)"
  by (simp add: ws_null_def String_invalidate_def)

lemma String_reserve_val:
  assumes "alloc_ok alloc" "ws_val s xs" "unat n < 65535"
  shows "(\<exists>s'. String_reserve alloc n s = Some (True, s') \<and> ws_rep s' xs \<and> n \<le> ws_capacity s') \<or>
    String_reserve alloc n s = Some (False, s) \<and> alloc (Suc (unat n)) = None"
  using assms(2)
proof (cases rule: ws_valE)
  case 1
  show ?thesis
  proof (cases "alloc (Suc (unat n))")
    case None
    then show ?thesis using 1 assms(3)
      by (auto simp: String_reserve_def String_changeBuffer_def ws_null_def realloc_c_def unat_Suc_small)
  next
    case (Some b)
    then have "length b = Suc (unat n)" using assms(1) by (auto simp: alloc_ok_def)
    then obtain x b' where b: "b = x # b'" "length b' = unat n" by (cases b) auto
    then show ?thesis using 1 assms(3) Some
      by (simp add: String_reserve_def String_changeBuffer_def ws_null_def realloc_c_def unat_Suc_small
          ws_set_def ws_rep_Some arr_set_def)
  qed
next
  case 2
  then obtain a where a: "ws_buffer s = Some a" "length a = Suc (unat (ws_capacity s))"
    "unat (ws_len s) = length xs" "holds_str a xs"
    by (auto elim: ws_repE)
  show ?thesis
  proof (cases "n \<le> ws_capacity s")
    case True
    then show ?thesis using a 2 by (simp add: String_reserve_def)
  next
    case False
    show ?thesis
    proof (cases "realloc_c alloc (Some a) (Suc (unat n))")
      case None
      then show ?thesis using a False assms(3)
        by (auto simp: String_reserve_def String_changeBuffer_def unat_Suc_small realloc_c_def split: option.splits)
    next
      case (Some b)
      have "holds_str b xs"
        using realloc_holds [OF assms(1) Some a(4)] a(2) False by (simp add: word_le_nat_alt)
      moreover have "length b = Suc (unat n)" using length_realloc [OF assms(1) Some] .
      moreover from calculation have "xs = [] \<longrightarrow> holds_str (b[0 := 0]) []"
        by (cases b) auto
      moreover have "b \<noteq> []" using calculation(2) by auto
      moreover have "ws_len s = 0 \<longleftrightarrow> xs = []" using a(3) by (metis length_0_conv unat_eq_0)
      ultimately show ?thesis using a False assms(3) Some
        by (simp add: String_reserve_def String_changeBuffer_def unat_Suc_small ws_set_def ws_rep_Some arr_set_def)
    qed
  qed
qed

lemma String_copy_val:
  assumes "alloc_ok alloc" "ws_val s xs" "holds_str m ys" "length ys < 65535"
  shows "\<exists>s'. String_copy alloc m (of_nat (length ys)) s = Some s' \<and>
    (ws_rep s' ys \<or> ws_null s' \<and> alloc (Suc (length ys)) = None)"
proof -
  let ?n = "of_nat (length ys) :: u16"
  have n: "unat ?n = length ys"
    using assms(4) by (simp add: unat_of_nat16)
  from String_reserve_val [OF assms(1,2), of ?n]
  consider s1 where "String_reserve alloc ?n s = Some (True, s1)" "ws_rep s1 xs" "length ys \<le> unat (ws_capacity s1)"
    | "String_reserve alloc ?n s = Some (False, s)" "alloc (Suc (length ys)) = None"
    unfolding word_le_nat_alt n using assms(4) by auto
  then show ?thesis
  proof cases
    case 1
    then obtain b where b: "ws_buffer s1 = Some b" "length b = Suc (unat (ws_capacity s1))"
      by (auto elim: ws_repE)
    then have "strcpy_c b 0 m = Some (ys @ 0 # drop (Suc (length ys)) b)"
      using strcpy_holds [OF assms(3), of 0 b] 1(3) by simp
    moreover have "0 \<notin> set ys" using assms(3) by (simp add: holds_str_def)
    ultimately show ?thesis using 1 b n
      by (simp add: String_copy_def ws_rep_Some holds_strI)
  next
    case 2
    then show ?thesis by (simp add: String_copy_def)
  qed
qed

lemma String_assign_cstr_val:
  assumes "alloc_ok alloc" "ws_val s xs" "holds_str m ys" "length ys < 65535"
  shows "\<exists>s'. String_assign_cstr alloc (Some m) s = Some s' \<and>
    (ws_rep s' ys \<or> ws_null s' \<and> alloc (Suc (length ys)) = None)"
  using String_copy_val [OF assms] assms(3) by (simp add: String_assign_cstr_def cstr_len16_def strlen_holds)

lemma String_concat_n_val:
  assumes "alloc_ok alloc" "ws_val s xs" "holds_str m ys" "length xs + length ys < 65535"
  shows "(\<exists>s'. String_concat_n alloc (Some m) (of_nat (length ys)) s = Some (True, s') \<and> ws_val s' (xs @ ys)) \<or>
    String_concat_n alloc (Some m) (of_nat (length ys)) s = Some (False, s) \<and>
    alloc (Suc (length xs + length ys)) = None"
proof (cases "ys = []")
  case True
  then show ?thesis using assms(2) by (simp add: String_concat_n_def)
next
  case False
  have "unat (of_nat (length ys) :: u16) = length ys"
    using assms(4) by (simp add: unat_of_nat16)
  then have pos: "of_nat (length ys) \<noteq> (0 :: u16)" using False by (metis length_0_conv unat_0)
  let ?new = "ws_len s + of_nat (length ys)"
  have new: "unat ?new = length xs + length ys"
    using ws_val_len [OF assms(2)] assms(4) unat_of_nat16 [of "length xs + length ys"] by simp
  from String_reserve_val [OF assms(1,2), of ?new]
  consider s1 where "String_reserve alloc ?new s = Some (True, s1)" "ws_rep s1 xs"
      "length xs + length ys \<le> unat (ws_capacity s1)"
    | "String_reserve alloc ?new s = Some (False, s)" "alloc (Suc (length xs + length ys)) = None"
    unfolding word_le_nat_alt new using assms(4) by auto
  then show ?thesis
  proof cases
    case 1
    then obtain b where b: "ws_buffer s1 = Some b" "length b = Suc (unat (ws_capacity s1))"
      "unat (ws_len s1) = length xs" "holds_str b xs"
      by (auto elim: ws_repE)
    have "strcpy_c b (length xs) m = Some (xs @ ys @ 0 # drop (Suc (length xs + length ys)) b)"
      using strcpy_holds [OF assms(3), of "length xs" b] b(2) 1(3) holds_str_take [OF b(4)] by simp
    moreover have "0 \<notin> set (xs @ ys)" using assms(3) b(4) by (simp add: holds_str_def)
    ultimately show ?thesis using 1 b pos new holds_strI [of "xs @ ys"]
      by (simp add: String_concat_n_def ws_val_def ws_rep_Some)
  next
    case 2
    then show ?thesis using pos by (simp add: String_concat_n_def)
  qed
qed

section \<open>Rewriting and trimming\<close>

lemma map_str_holds:
  "holds_str m xs \<Longrightarrow> map_str f m = Some (map f xs @ drop (length xs) m)"
proof (induction xs arbitrary: m)
  case Nil
  then show ?case by (auto simp: holds_str_Nil)
next
  case (Cons x xs)
  then show ?case by (cases m) auto
qed

lemma String_map_val:
  assumes "ws_val s xs" "\<And>x. x \<noteq> 0 \<Longrightarrow> f x \<noteq> 0"
  shows "\<exists>s'. String_map f s = Some s' \<and> ws_val s' (map f xs)"
  using assms(1)
proof (cases rule: ws_valE)
  case 1
  then show ?thesis using assms(1) by (simp add: String_map_def ws_null_def)
next
  case 2
  then obtain b where b: "ws_buffer s = Some b" "length b = Suc (unat (ws_capacity s))"
    "unat (ws_len s) = length xs" "holds_str b xs"
    by (auto elim: ws_repE)
  then obtain rest where rest: "b = xs @ 0 # rest" "0 \<notin> set xs" by (auto simp: holds_str_def)
  have "f x \<noteq> 0" if "x \<in> set xs" for x using assms(2) rest(2) that by metis
  then have "holds_str (map f xs @ drop (length xs) b) (map f xs)"
    using rest(1) by (auto intro!: holds_strI)
  then show ?thesis using b holds_str_length [OF b(4)]
    by (simp add: String_map_def map_str_holds ws_val_def ws_rep_Some)
qed

lemma tolower_nonzero: "c \<noteq> 0 \<Longrightarrow> tolower_c c \<noteq> 0"
proof -
  have "unat (c + 32) = unat c + 32" if "unat c \<le> 90"
    using that by (simp add: unat_word_ariths)
  then show "c \<noteq> 0 \<Longrightarrow> tolower_c c \<noteq> 0"
    by (auto simp: tolower_c_def word_le_nat_alt)
qed

lemma toupper_nonzero: "c \<noteq> 0 \<Longrightarrow> toupper_c c \<noteq> 0"
  by (auto simp: toupper_c_def word_le_nat_alt)

definition trim_list :: "u8 list \<Rightarrow> u8 list" where
  "trim_list xs = rev (dropWhile isspace_c (rev (dropWhile isspace_c xs)))"

lemma skip_space_holds:
  "holds_str m xs \<Longrightarrow> skip_space m = Some (length (takeWhile isspace_c xs))"
proof (induction xs arbitrary: m)
  case Nil
  then show ?case by (auto simp: holds_str_Nil isspace_c_def)
next
  case (Cons x xs)
  then show ?case by (cases m) auto
qed

lemma trim_end_rev:
  assumes "length p = start" "xs \<noteq> [] \<longrightarrow> \<not> isspace_c (hd xs)" "p @ xs \<noteq> []"
  shows "trim_end (p @ xs @ rest) start (length (p @ xs)) =
    Some (start + length (dropWhile isspace_c (rev xs)))"
  using assms
proof (induction xs arbitrary: rest rule: rev_induct)
  case Nil
  then show ?case by (cases p rule: rev_cases) auto
next
  case (snoc x xs)
  have g: "arr_get (p @ xs @ x # rest) (length p + length xs) = Some x"
    by (simp add: nth_append)
  show ?case
  proof (cases "isspace_c x")
    case True
    then have "xs \<noteq> []" using snoc.prems(2) by auto
    then have "trim_end (p @ xs @ x # rest) start (length (p @ xs)) =
        Some (start + length (dropWhile isspace_c (rev xs)))"
      using snoc by (intro snoc.IH) auto
    then show ?thesis using True g snoc.prems(1) by simp
  next
    case False
    then show ?thesis using g snoc.prems(1) by simp
  qed
qed

lemma dropWhile_rev_take: "rev (dropWhile P (rev xs)) = take (length (dropWhile P (rev xs))) xs"
proof -
  have "xs = rev (dropWhile P (rev xs)) @ rev (takeWhile P (rev xs))"
    by (simp flip: rev_append)
  then show ?thesis by (metis append_eq_conv_conj length_rev)
qed

lemma String_trim_val:
  assumes "ws_val s xs"
  shows "\<exists>s'. String_trim s = Some s' \<and> ws_val s' (trim_list xs)"
  using assms
proof (cases rule: ws_valE)
  case 1
  then show ?thesis using assms by (simp add: String_trim_def ws_null_def trim_list_def)
next
  case 2
  then obtain b where b: "ws_buffer s = Some b" "length b = Suc (unat (ws_capacity s))"
    "unat (ws_len s) = length xs" "holds_str b xs"
    by (auto elim: ws_repE)
  show ?thesis
  proof (cases "xs = []")
    case True
    then show ?thesis using assms b ws_len_0_iff [OF 2(1)] by (simp add: String_trim_def trim_list_def)
  next
    case False
    define p ys where "p = takeWhile isspace_c xs" and "ys = dropWhile isspace_c xs"
    define k where "k = length (dropWhile isspace_c (rev ys))"
    obtain rest where rest: "b = xs @ 0 # rest" "0 \<notin> set xs" using b(4) by (auto simp: holds_str_def)
    have xs: "xs = p @ ys" by (simp add: p_def ys_def)
    have k: "k \<le> length ys" by (simp add: k_def) (metis length_dropWhile_le length_rev)
    have "ys \<noteq> [] \<longrightarrow> \<not> isspace_c (hd ys)" by (simp add: ys_def hd_dropWhile)
    then have e: "trim_end b (length p) (length xs) = Some (length p + k)"
      using trim_end_rev [of p "length p" ys "0 # rest"] False rest(1) xs by (simp add: k_def)
    have trim: "trim_list xs = take k ys"
      unfolding trim_list_def k_def ys_def by (rule dropWhile_rev_take)
    have len: "(of_nat (length p + k) - of_nat (length p) :: u16) = of_nat k" by simp
    have small: "unat (of_nat k :: u16) = k"
      using ws_rep_len [OF 2(1)] k xs by (intro unat_of_nat16) simp
    have "copy_up b 0 (length p) k = move_within b 0 (length p) k"
      using rest(1) xs k by (intro copy_up_move_within) auto
    then have c: "(if 0 < length p then copy_up b 0 (length p) k else Some b) = Some (take k ys @ drop k b)"
      using rest(1) xs k by (auto simp: move_within_def memcpy_c_def write_at_def)
    have "drop k b = b ! k # drop (Suc k) b"
      using k rest(1) xs by (intro Cons_nth_drop_Suc [symmetric]) simp
    then have "(take k ys @ drop k b)[k := 0] = take k ys @ 0 # drop (Suc k) b"
      using k by (simp add: list_update_append)
    moreover have "0 \<notin> set (take k ys)" using rest(2) xs by (auto dest: in_set_takeD)
    moreover have "k < length b" "ws_len s \<noteq> 0"
      using k rest(1) xs False ws_len_0_iff [OF 2(1)] by auto
    moreover from calculation have
      "String_trim s = Some (s\<lparr>ws_buffer := Some (take k ys @ 0 # drop (Suc k) b), ws_len := of_nat k\<rparr>)"
      using b(1,3) c e len small k skip_space_holds [OF b(4)]
      by (cases "p = []") (simp_all add: String_trim_def Let_def p_def [symmetric] arr_set_def)
    ultimately show ?thesis
      using b(2) trim small k by (simp add: ws_val_def ws_rep_Some holds_strI)
  qed
qed

lemma String_setCharAt_val:
  assumes "ws_val s xs" "c \<noteq> 0"
  shows "\<exists>s'. String_setCharAt loc c s = Some s' \<and> ws_val s' (xs[unat loc := c])"
  using assms(1)
proof (cases rule: ws_valE)
  case 1
  then show ?thesis using assms(1) by (simp add: String_setCharAt_def)
next
  case 2
  then obtain b where b: "ws_buffer s = Some b" "length b = Suc (unat (ws_capacity s))"
    "unat (ws_len s) = length xs" "holds_str b xs"
    by (auto elim: ws_repE)
  show ?thesis
  proof (cases "unat loc < length xs")
    case True
    then have "holds_str (b[unat loc := c]) (xs[unat loc := c])"
      using b(4) assms(2)
      by (auto simp: holds_str_def list_update_append dest: subsetD [OF set_update_subset_insert])
    then show ?thesis
      using True b holds_str_length [OF b(4)]
      by (simp add: String_setCharAt_def ws_set_def arr_set_def word_less_nat_alt ws_val_def ws_rep_Some)
  next
    case False
    then show ?thesis
      using assms(1) b(3) by (simp add: String_setCharAt_def word_less_nat_alt list_update_beyond)
  qed
qed

section \<open>Searching\<close>

primrec last_occ :: "u8 list \<Rightarrow> u8 list \<Rightarrow> nat \<Rightarrow> nat option" where
  "last_occ ys xs 0 = (if occurs_at ys xs 0 then Some 0 else None)"
| "last_occ ys xs (Suc n) = (if occurs_at ys xs (Suc n) then Some (Suc n) else last_occ ys xs n)"

lemma last_occ_Some:
  "last_occ ys xs n = Some i \<longleftrightarrow> i \<le> n \<and> occurs_at ys xs i \<and> (\<forall>j. i < j \<and> j \<le> n \<longrightarrow> \<not> occurs_at ys xs j)"
  by (induction n) (auto simp: le_Suc_eq simp del: occurs_at_0)

lemma last_occ_None: "last_occ ys xs n = None \<longleftrightarrow> (\<forall>j\<le>n. \<not> occurs_at ys xs j)"
  by (induction n) (auto simp: le_Suc_eq simp del: occurs_at_0)

lemma occurs_at_drop: "p \<le> length xs \<Longrightarrow> occurs_at ys (drop p xs) i \<longleftrightarrow> occurs_at ys xs (p + i)"
  by (auto simp: occurs_at_def add.commute)

lemma lastIndexOf_loop_holds:
  assumes "holds_str b xs" "holds_str b2 ys" "fromIndex < length xs"
  shows "lastIndexOf_loop b b2 fromIndex p found =
    Some (case last_occ ys xs fromIndex of None \<Rightarrow> found | Some i \<Rightarrow> if p \<le> i then Some i else found)"
  using assms
proof (induction b b2 fromIndex p found rule: lastIndexOf_loop.induct)
  case (1 b b2 fromIndex p found)
  show ?case
  proof (cases "p \<le> fromIndex")
    case False
    then show ?thesis
      by (subst lastIndexOf_loop.simps) (auto simp: last_occ_Some split: option.splits)
  next
    case True
    then have str: "strstr_c (drop p b) b2 = Some (first_occ ys (drop p xs))"
      using 1(2-) by (intro strstr_holds holds_str_drop) auto
    show ?thesis
    proof (cases "first_occ ys (drop p xs)")
      case None
      then have no: "\<not> occurs_at ys xs (p + i)" for i
        using True 1(4) by (simp add: first_occ_None occurs_at_drop)
      have "\<not> p \<le> i" if "last_occ ys xs fromIndex = Some i" for i
        using that no [of "i - p"] by (auto simp: last_occ_Some)
      then show ?thesis
        using True str None by (subst lastIndexOf_loop.simps) (auto split: option.splits)
    next
      case (Some k)
      then have k: "occurs_at ys xs (p + k)" "\<forall>j<k. \<not> occurs_at ys xs (p + j)"
        using True 1(4) by (auto simp: first_occ_Some occurs_at_drop)
      have IH: "lastIndexOf_loop b b2 fromIndex (Suc (p + k)) (if p + k \<le> fromIndex then Some (p + k) else found) =
        Some (case last_occ ys xs fromIndex of
                None \<Rightarrow> if p + k \<le> fromIndex then Some (p + k) else found
              | Some i \<Rightarrow> if Suc (p + k) \<le> i then Some i
                         else if p + k \<le> fromIndex then Some (p + k) else found)"
        using 1(1) [OF True str Some] 1(2-) by simp
      have "lastIndexOf_loop b b2 fromIndex p found =
          lastIndexOf_loop b b2 fromIndex (Suc (p + k)) (if p + k \<le> fromIndex then Some (p + k) else found)"
        using True str Some by (subst lastIndexOf_loop.simps) simp
      moreover have "i = p + k" if "last_occ ys xs fromIndex = Some i" "p \<le> i" "i \<le> p + k" for i
        using that k(1) spec [OF k(2), of "i - p"] by (auto simp: last_occ_Some)
      moreover have "p + k \<le> i" if "last_occ ys xs fromIndex = Some i" "p + k \<le> fromIndex" for i
        using that k(1) by (metis last_occ_Some not_le)
      moreover have "\<not> p + k \<le> fromIndex" if "last_occ ys xs fromIndex = None"
        using that k(1) by (auto simp: last_occ_None)
      moreover have "i \<le> fromIndex" if "last_occ ys xs fromIndex = Some i" for i
        using that by (simp add: last_occ_Some)
      ultimately show ?thesis
        using IH by (cases "last_occ ys xs fromIndex") (auto simp: not_less_eq_eq)
    qed
  qed
qed

lemma int16_small: "0 \<le> n \<Longrightarrow> n < 32768 \<Longrightarrow> int16 n = n"
  by (simp add: int16_def sint_sbintrunc' signed_take_bit_int_eq_self)

lemma String_lastIndexOf_from_rep:
  assumes "ws_rep s xs" "ws_rep s2 ys" "ys \<noteq> []" "unat fromIndex < length xs" "length xs < 32768"
  shows "String_lastIndexOf_from s2 fromIndex s =
    Some (case last_occ ys xs (unat fromIndex) of None \<Rightarrow> -1 | Some i \<Rightarrow> int i)"
proof -
  obtain b b2 where b: "ws_buffer s = Some b" "holds_str b xs" "unat (ws_len s) = length xs"
    and b2: "ws_buffer s2 = Some b2" "holds_str b2 ys" "unat (ws_len s2) = length ys"
    using assms(1,2) by (auto simp: ws_rep_Some)
  have nz: "ws_len s \<noteq> 0" "ws_len s2 \<noteq> 0" using assms(3,4) b(3) b2(3) by auto
  have small: "int16 (int i) = int i" if "last_occ ys xs (unat fromIndex) = Some i" for i
    using that assms(4,5) by (intro int16_small) (auto simp: last_occ_Some)
  show ?thesis
  proof (cases "length ys \<le> length xs")
    case True
    then show ?thesis
      using lastIndexOf_loop_holds [OF b(2) b2(2) assms(4), of 0 None] b b2 nz assms(4) small
      by (auto simp: String_lastIndexOf_from_def word_less_nat_alt word_le_nat_alt found_int_def split: option.splits)
  next
    case False
    then have "last_occ ys xs (unat fromIndex) = None"
      using occurs_at_length [of ys xs] by (force simp: last_occ_None)
    then show ?thesis using False b b2 by (simp add: String_lastIndexOf_from_def word_less_nat_alt)
  qed
qed

section \<open>Replacing\<close>

text \<open>The intended result: occurrences are replaced from the left, without overlap.\<close>

function replace_all :: "u8 list \<Rightarrow> u8 list \<Rightarrow> u8 list \<Rightarrow> u8 list" where
  "replace_all old new xs =
     (if old = [] then xs
      else (case first_occ old xs of
              None \<Rightarrow> xs
            | Some k \<Rightarrow> take k xs @ new @ replace_all old new (drop (k + length old) xs)))"
  by pat_completeness auto
termination
proof (relation "measure (\<lambda>(_, _, xs). length xs)", simp)
  fix old new xs :: "u8 list" and k
  assume "old \<noteq> []" "first_occ old xs = Some k"
  then show "((old, new, drop (k + length old) xs), (old, new, xs)) \<in> measure (\<lambda>(_, _, xs). length xs)"
    using occurs_at_length [of old xs k] by (cases old) (auto simp: first_occ_Some)
qed

declare replace_all.simps [simp del]

lemma replace_all_step:
  "old \<noteq> [] \<Longrightarrow> replace_all old new xs =
    (case first_occ old xs of
       None \<Rightarrow> xs
     | Some k \<Rightarrow> take k xs @ new @ replace_all old new (drop (k + length old) xs))"
  by (subst replace_all.simps) simp

lemma replacement_bytes_val:
  assumes "ws_val r ns"
  shows "replacement_bytes r = Some ns"
  using assms
proof (cases rule: ws_valE)
  case 2
  then obtain b where b: "ws_buffer r = Some b" "unat (ws_len r) = length ns" "holds_str b ns"
    by (auto elim: ws_repE)
  then show ?thesis
    using ws_len_0_iff [OF 2(1)] holds_str_length [OF b(3)] holds_str_take [OF b(3)]
    by (simp add: replacement_bytes_def)
qed (simp add: replacement_bytes_def)

text \<open>The tail of the text from which the loops continue, after a match at \<open>k\<close>.\<close>

lemma match_split:
  assumes "first_occ old ys = Some k"
  shows "ys = take k ys @ old @ drop (k + length old) ys" "k + length old \<le> length ys"
proof -
  have o: "occurs_at old ys k" using assms by (simp add: first_occ_Some)
  then show "k + length old \<le> length ys" by (rule occurs_at_length)
  have "drop k ys = old @ drop (length old) (drop k ys)"
    using o by (metis append_take_drop_id occurs_at_def)
  then show "ys = take k ys @ old @ drop (k + length old) ys"
    by (metis append_take_drop_id drop_drop add.commute)
qed

lemma replace_same_loop_app:
  assumes "holds_str needle old" "old \<noteq> []" "ws_val new ns" "length ns = length old" "0 \<notin> set ys"
  shows "replace_same_loop needle new (length p) (p @ ys @ 0 # rest) =
    Some (p @ replace_all old ns ys @ 0 # rest)"
  using assms(5)
proof (induction "length ys" arbitrary: ys p rule: less_induct)
  case less
  have str: "strstr_c (ys @ 0 # rest) needle = Some (first_occ old ys)"
    using less.prems assms(1) by (intro strstr_holds holds_strI)
  show ?case
  proof (cases "first_occ old ys")
    case None
    then show ?thesis
      using str assms(2) by (subst replace_same_loop.simps) (simp add: replace_all_step)
  next
    case (Some k)
    note split = match_split [OF Some]
    let ?zs = "drop (k + length old) ys" and ?p = "p @ take k ys @ ns"
    have w: "write_at (p @ ys @ 0 # rest) (length p + k) ns = Some (?p @ ?zs @ 0 # rest)"
      using split(2) assms(4) by (simp add: write_at_def add.assoc)
    have "length ?zs < length ys" using assms(2) split(2) by (cases old) auto
    then have "replace_same_loop needle new (length ?p) (?p @ ?zs @ 0 # rest) =
        Some (?p @ replace_all old ns ?zs @ 0 # rest)"
      using less.prems by (intro less.hyps) (auto dest: in_set_dropD)
    moreover have "length ?p = length p + k + unat (ws_len new)"
      using split(2) ws_val_len [OF assms(3), THEN conjunct2] by simp
    ultimately show ?thesis
      using str Some w replacement_bytes_val [OF assms(3)] assms(2)
      by (subst replace_same_loop.simps) (simp add: replace_all_step [of old ns ys] add.assoc)
  qed
qed

lemma copy_up_app:
  "copy_up (w @ junk @ xs @ rest) (length w) (length w + length junk) (length xs) =
    Some (w @ xs @ drop (length xs) (junk @ xs) @ rest)"
  by (subst copy_up_move_within) (simp_all add: move_within_def memcpy_c_def write_at_def)

lemma replace_shrink_loop_app:
  assumes "holds_str needle old" "ws_val new ns" "length ns < length old" "0 \<notin> set ys"
    "diff = of_nat (length ns) - of_nat (length old)"
  shows "\<exists>rest'. length rest' + length (replace_all old ns ys) = length junk + length ys + length rest \<and>
    replace_shrink_loop needle (length old) new diff (length w + length junk) (length w)
      (w @ junk @ ys @ 0 # rest) len =
    Some (w @ replace_all old ns ys @ 0 # rest', len + of_nat (length (replace_all old ns ys)) - of_nat (length ys))"
  using assms(4)
proof (induction "length ys" arbitrary: ys w junk len rule: less_induct)
  case less
  have old: "old \<noteq> []" using assms(3) by auto
  have str: "strstr_c (ys @ 0 # rest) needle = Some (first_occ old ys)"
    using less.prems assms(1) by (intro strstr_holds holds_strI)
  show ?case
  proof (cases "first_occ old ys")
    case None
    have "strlen_c (ys @ 0 # rest) = Some (length ys)"
      using less.prems by (intro strlen_holds holds_strI)
    then show ?thesis
      using str None old copy_up_app [of w junk "ys @ [0]" rest]
      by (subst replace_shrink_loop.simps) (simp add: replace_all_step)
  next
    case (Some k)
    note split = match_split [OF Some]
    let ?zs = "drop (k + length old) ys" and ?w = "w @ take k ys @ ns"
    let ?junk1 = "drop k (junk @ take k ys)"
    let ?junk = "drop (length ns) (?junk1 @ old)"
    have ys: "ys @ 0 # rest = take k ys @ old @ ?zs @ 0 # rest"
      using arg_cong [OF split(1), of "\<lambda>xs. xs @ 0 # rest"] by (simp only: append_assoc)
    have c: "copy_up (w @ junk @ ys @ 0 # rest) (length w) (length w + length junk) k =
        Some (w @ take k ys @ ?junk1 @ old @ ?zs @ 0 # rest)"
      unfolding ys using copy_up_app [of w junk "take k ys" "old @ ?zs @ 0 # rest"] split(2) by (simp add: min.absorb2)
    have w: "write_at (w @ take k ys @ ?junk1 @ old @ ?zs @ 0 # rest) (length w + k) ns =
        Some (?w @ ?junk @ ?zs @ 0 # rest)"
      using split(2) assms(3) by (simp add: write_at_def)
    have lt: "length ?zs < length ys" using old split(2) by (cases old) auto
    have "0 \<notin> set ?zs" using less.prems by (auto dest: in_set_dropD)
    from less.hyps [OF lt this, of junk' w' "len + diff" for junk' w']
    obtain rest' where rest': "length rest' + length (replace_all old ns ?zs) = length ?junk + length ?zs + length rest"
      "replace_shrink_loop needle (length old) new diff (length ?w + length ?junk) (length ?w)
        (?w @ ?junk @ ?zs @ 0 # rest) (len + diff) =
       Some (?w @ replace_all old ns ?zs @ 0 # rest', len + diff + of_nat (length (replace_all old ns ?zs)) - of_nat (length ?zs))"
      by blast
    have lens: "length ?w = length w + k + unat (ws_len new)"
      "length ?w + length ?junk = length w + length junk + k + length old"
      using split(2) assms(3) ws_val_len [OF assms(2), THEN conjunct2] by simp_all
    have "replace_shrink_loop needle (length old) new diff (length w + length junk) (length w)
        (w @ junk @ ys @ 0 # rest) len =
       Some (?w @ replace_all old ns ?zs @ 0 # rest', len + diff + of_nat (length (replace_all old ns ?zs)) - of_nat (length ?zs))"
      using str Some c w rest'(2) [unfolded lens(2), unfolded lens(1)] replacement_bytes_val [OF assms(2)]
      by (subst replace_shrink_loop.simps) simp
    moreover have "replace_all old ns ys = take k ys @ ns @ replace_all old ns ?zs"
      using Some old by (simp add: replace_all_step [of old ns ys])
    moreover from this have "len + diff + of_nat (length (replace_all old ns ?zs)) - of_nat (length ?zs) =
        len + of_nat (length (replace_all old ns ys)) - of_nat (length ys)"
      using split(2) by (simp add: assms(5) of_nat_diff)
    moreover have "length rest' + length (take k ys @ ns @ replace_all old ns ?zs) = length junk + length ys + length rest"
      using split(2) rest'(1) assms(3) by simp
    ultimately show ?thesis by (intro exI [of _ rest']) simp
  qed
qed

lemma replace_size_loop_app:
  assumes "holds_str needle old" "old \<noteq> []" "0 \<notin> set ys"
    "diff = of_nat (length (ns :: u8 list)) - of_nat (length old)"
  shows "replace_size_loop needle (length old) diff (length p) (p @ ys @ 0 # rest) sz =
    Some (sz + of_nat (length (replace_all old ns ys)) - of_nat (length ys))"
  using assms(3)
proof (induction "length ys" arbitrary: ys p sz rule: less_induct)
  case less
  have str: "strstr_c (ys @ 0 # rest) needle = Some (first_occ old ys)"
    using less.prems assms(1) by (intro strstr_holds holds_strI)
  show ?case
  proof (cases "first_occ old ys")
    case None
    then show ?thesis
      using str assms(2) by (subst replace_size_loop.simps) (simp add: replace_all_step)
  next
    case (Some k)
    note split = match_split [OF Some]
    let ?zs = "drop (k + length old) ys" and ?p = "p @ take k ys @ old"
    have lt: "length ?zs < length ys" using assms(2) split(2) by (cases old) auto
    have "0 \<notin> set ?zs" using less.prems by (auto dest: in_set_dropD)
    note IH = less.hyps [OF lt this, of ?p "sz + diff"]
    have ys: "?p @ ?zs @ 0 # rest = p @ ys @ 0 # rest"
      using arg_cong [OF split(1), of "\<lambda>xs. p @ xs @ 0 # rest"] by (simp only: append_assoc)
    have len: "length ?p = length p + k + length old" using split(2) by simp
    have "replace_size_loop needle (length old) diff (length p) (p @ ys @ 0 # rest) sz =
        Some (sz + diff + of_nat (length (replace_all old ns ?zs)) - of_nat (length ?zs))"
      using str Some IH [unfolded ys len] by (subst replace_size_loop.simps) simp
    moreover have "replace_all old ns ys = take k ys @ ns @ replace_all old ns ?zs"
      using Some assms(2) by (simp add: replace_all_step [of old ns ys])
    ultimately show ?thesis using split(2) by (simp add: assms(4) of_nat_diff)
  qed
qed

lemma replace_all_single:
  "replace_all [c] ns xs = concat (map (\<lambda>x. if x = c then ns else [x]) xs)"
proof (induction xs)
  case Nil
  then show ?case by (simp add: replace_all_step)
next
  case (Cons x xs)
  show ?case
  proof (cases "x = c")
    case True
    then show ?thesis using Cons by (simp add: replace_all_step [of "[c]" ns "c # xs"])
  next
    case False
    then have "replace_all [c] ns (x # xs) = x # replace_all [c] ns xs"
      by (simp add: replace_all_step [of "[c]" ns] split: option.splits)
    then show ?thesis using False Cons by simp
  qed
qed

lemma replace_all_absent: "c \<notin> set xs \<Longrightarrow> replace_all [c] ns xs = xs"
  unfolding replace_all_single by (induction xs) auto

lemma replace_all_single_app:
  "replace_all [c] ns (xs @ ys) = replace_all [c] ns xs @ replace_all [c] ns ys"
  by (simp add: replace_all_single)

text \<open>One round of the growing loop: the tail moves up and the replacement is stored.\<close>

lemma write_at_mid: "length u = off \<Longrightarrow> length v = length xs \<Longrightarrow> write_at (u @ v @ w) off xs = Some (u @ xs @ w)"
  by (auto simp: write_at_def)

lemma arr_set_mid: "length u = off \<Longrightarrow> arr_set (u @ z # w) off x = Some (u @ x # w)"
  by (auto simp: arr_set_def list_update_append)

lemma grow_block:
  assumes "b = p @ c # tail @ 0 # rest" "length ns = Suc d" "length p + length ns + length tail < length b"
  shows "do { b1 \<leftarrow> move_within b (length p + 1 + d) (length p + 1) (length tail);
              b2 \<leftarrow> arr_set b1 (length p + 1 + length tail + d) 0;
              write_at b2 (length p) ns } =
    Some (p @ ns @ tail @ 0 # drop (Suc (length p + length ns + length tail)) b)"
proof -
  define X where "X = take (Suc d) (drop (length p) b)"
  define V where "V = take (length tail) (drop (length p + Suc d) b)"
  define n where "n = length p + Suc d + length tail"
  have len: "length X = Suc d" "length V = length tail"
    using assms(2,3) by (simp_all add: X_def V_def)
  have n: "n < length b" using assms(2,3) by (simp add: n_def)
  have "p @ X = take (length p + Suc d) b"
    using assms(1) by (simp add: X_def take_add)
  then have "b = (p @ X) @ drop (length p + Suc d) b" by (metis append_take_drop_id)
  moreover have "drop (length p + Suc d) b = V @ drop n b"
    by (metis V_def n_def append_take_drop_id drop_drop add.commute)
  ultimately have b: "b = (p @ X) @ V @ b ! n # drop (Suc n) b"
    by (metis Cons_nth_drop_Suc n)
  have "take (length tail) (drop (length p + 1) b) = tail" using assms(1) by simp
  then have m: "move_within b (length p + 1 + d) (length p + 1) (length tail) =
      write_at ((p @ X) @ V @ b ! n # drop (Suc n) b) (length p + 1 + d) tail"
    using assms(1) b by (simp add: move_within_def memcpy_c_def)
  also have "\<dots> = Some ((p @ X) @ tail @ b ! n # drop (Suc n) b)"
    using len by (intro write_at_mid) auto
  finally have "move_within b (length p + 1 + d) (length p + 1) (length tail) =
      Some (((p @ X) @ tail) @ b ! n # drop (Suc n) b)" by simp
  moreover have "arr_set (((p @ X) @ tail) @ b ! n # drop (Suc n) b) (length p + 1 + length tail + d) 0 =
      Some (((p @ X) @ tail) @ 0 # drop (Suc n) b)"
    using len by (intro arr_set_mid) auto
  moreover have "write_at (p @ X @ tail @ 0 # drop (Suc n) b) (length p) ns = Some (p @ ns @ tail @ 0 # drop (Suc n) b)"
    using len assms(2) by (intro write_at_mid) auto
  ultimately show ?thesis using assms(2) by (simp only: bind.simps append_assoc n_def)
qed

lemma replace_all_single_grows:
  assumes "ns \<noteq> []"
  shows "length xs \<le> length (replace_all [c] ns xs)"
proof -
  obtain n ns' where "ns = n # ns'" using assms by (cases ns) auto
  then show ?thesis unfolding replace_all_single by (induction xs) auto
qed

lemma replace_grow_loop_single:
  assumes "ws_rep old [c]" "ws_val new ns" "length ns = Suc d" "0 < d" "diff = of_nat d"
    and "ws_rep s (pre @ post)" "length (replace_all [c] ns pre @ post) \<le> unat (ws_capacity s)"
    and "unat (ws_capacity s) < 32768"
  shows "\<exists>s'. replace_grow_loop old new diff (int (length pre) - 1) s = Some s' \<and>
    ws_rep s' (replace_all [c] ns pre @ post) \<and> ws_capacity s' = ws_capacity s"
  using assms(6,7,8)
proof (induction "length pre" arbitrary: pre post s rule: less_induct)
  case less
  let ?xs = "pre @ post"
  show ?case
  proof (cases "pre = []")
    case True
    then show ?thesis using less.prems(1)
      by (subst replace_grow_loop.simps) (simp add: replace_all_absent)
  next
    case False
    define f where "f = (word_of_int (int (length pre) - 1) :: u16)"
    have small: "length ?xs < 32768"
      using less.prems ws_rep_fits [OF less.prems(1)] by simp
    have "f = of_nat (length pre - 1)" using False by (cases pre) (auto simp: f_def)
    then have f: "unat f = length pre - 1" using small by (simp add: unat_of_nat16)
    have li: "String_lastIndexOf_from old f s =
        Some (case last_occ [c] ?xs (length pre - 1) of None \<Rightarrow> -1 | Some i \<Rightarrow> int i)"
      using String_lastIndexOf_from_rep [OF less.prems(1) assms(1), of f] f small False by (cases pre) auto
    have occ: "occurs_at [c] ?xs j \<longleftrightarrow> pre ! j = c" if "j < length pre" for j
      using that by (simp add: occurs_at_def take_Suc hd_drop_conv_nth nth_append)
    have le: "j \<le> length pre - Suc 0 \<longleftrightarrow> j < length pre" for j using False by (cases pre) auto
    show ?thesis
    proof (cases "last_occ [c] ?xs (length pre - 1)")
      case None
      then have "c \<notin> set pre" using occ by (auto simp: last_occ_None in_set_conv_nth le)
      then show ?thesis using less.prems(1) False li None
        by (subst replace_grow_loop.simps) (simp add: f_def replace_all_absent)
    next
      case (Some i)
      then have i: "i < length pre" "pre ! i = c" "\<forall>j. i < j \<and> j < length pre \<longrightarrow> pre ! j \<noteq> c"
        using occ by (auto simp: last_occ_Some le)
      define p q where "p = take i pre" and "q = drop (Suc i) pre"
      have pre: "pre = p @ c # q" unfolding p_def q_def i(2) [symmetric] by (rule id_take_nth_drop [OF i(1)])
      have cq: "c \<notin> set q" using i by (auto simp: q_def in_set_conv_nth) 
      have pi: "length p = i" using i(1) by (simp add: p_def)
      have exp: "replace_all [c] ns pre = replace_all [c] ns p @ ns @ q"
      proof -
        have "replace_all [c] ns pre = replace_all [c] ns p @ replace_all [c] ns ([c] @ q)"
          unfolding pre by (simp only: replace_all_single_app append_Cons append_Nil)
        also have "replace_all [c] ns ([c] @ q) = ns @ q"
          using replace_all_absent [OF cq] unfolding replace_all_single_app by (simp add: replace_all_single)
        finally show ?thesis .
      qed
      obtain b rest where b: "ws_buffer s = Some b" "length b = Suc (unat (ws_capacity s))"
        "unat (ws_len s) = length ?xs" "0 \<notin> set ?xs" "b = p @ c # (q @ post) @ 0 # rest"
        using less.prems(1) pre by (auto simp: ws_rep_Some holds_str_def)
      have room: "length p + length ns + length (q @ post) < length b"
        using less.prems(2) b(2) exp replace_all_single_grows [of ns p c] assms(3) by fastforce
      let ?b = "p @ ns @ (q @ post) @ 0 # drop (Suc (length p + length ns + length (q @ post))) b"
      let ?s = "s\<lparr>ws_buffer := Some ?b, ws_len := ws_len s + diff\<rparr>"
      obtain b1 b2 where blk: "move_within b (i + 1 + d) (i + 1) (length (q @ post)) = Some b1"
        "arr_set b1 (i + 1 + length (q @ post) + d) 0 = Some b2" "write_at b2 i ns = Some ?b"
        using grow_block [OF b(5) assms(3) room] pi by (auto simp: bind_eq_Some_conv)
      have d: "unat diff = d" using assms(3,5) room b(2) less.prems(3) by (simp add: unat_of_nat16)
      have old1: "unat (ws_len old) = 1" using assms(1) by (auto simp: ws_rep_Some)
      have len: "unat (ws_len s + diff) = length p + 1 + length (q @ post) + d"
        using b(2,3) pre d room assms(3) less.prems(3) by (simp add: unat_word_ariths)
      have tail: "unat (ws_len s - of_nat (i + 1)) = length (q @ post)"
        using b(3) pre pi small by (simp add: unat_sub_if' unat_of_nat16 del: of_nat_add of_nat_Suc)
      have step: "replace_grow_loop old new diff (int (length pre) - 1) s =
          replace_grow_loop old new diff (int (length p) - 1) ?s"
        using li Some False b(1) blk d old1 len tail pi replacement_bytes_val [OF assms(2)]
        by (subst replace_grow_loop.simps) (simp add: f_def Let_def)
      have "0 \<notin> set ns" using assms(2) by (auto simp: ws_val_def ws_rep_Some holds_str_def)
      then have "holds_str ?b (p @ ns @ q @ post)"
        using b(4) pre holds_strI [of "p @ ns @ q @ post"] by simp
      moreover have "length ?b = length b" using room by simp
      ultimately have "ws_rep ?s (p @ ns @ q @ post)"
        using b(2) len assms(3) by (simp add: ws_rep_Some)
      moreover have "length (replace_all [c] ns p @ ns @ q @ post) \<le> unat (ws_capacity ?s)"
        using less.prems(2) exp by simp
      ultimately show ?thesis
        using less.hyps [of p ?s "ns @ q @ post"] less.prems(3) step exp pre by simp
    qed
  qed
qed

lemma sint_diff16:
  assumes "m < 32768" "n < 32768"
  shows "sint (of_nat m - of_nat n :: u16) = int m - int n"
proof -
  have "(of_nat m - of_nat n :: u16) = word_of_int (int m - int n)" by simp
  then show ?thesis using assms
    by (simp add: sint_sbintrunc' signed_take_bit_int_eq_self del: of_int_diff)
qed

lemma String_changeBuffer_rep:
  assumes "alloc_ok alloc" "ws_rep s xs" "ws_capacity s < sz" "unat sz < 65535"
  shows "(\<exists>s'. String_changeBuffer alloc sz s = (True, s') \<and> ws_rep s' xs \<and> ws_capacity s' = sz) \<or>
    String_changeBuffer alloc sz s = (False, s) \<and> alloc (Suc (unat sz)) = None"
proof -
  obtain a where a: "ws_buffer s = Some a" "length a = Suc (unat (ws_capacity s))"
    "unat (ws_len s) = length xs" "holds_str a xs"
    using assms(2) by (auto elim: ws_repE)
  show ?thesis
  proof (cases "realloc_c alloc (Some a) (Suc (unat sz))")
    case None
    then show ?thesis using a assms(4)
      by (auto simp: String_changeBuffer_def unat_Suc_small realloc_c_def split: option.splits)
  next
    case (Some b)
    then have "holds_str b xs" "length b = Suc (unat sz)"
      using realloc_holds [OF assms(1) Some a(4)] length_realloc [OF assms(1) Some] a(2) assms(3)
      by (simp_all add: word_less_nat_alt)
    then show ?thesis using a Some assms(4)
      by (simp add: String_changeBuffer_def unat_Suc_small ws_rep_Some)
  qed
qed

lemma String_replace_grow:
  assumes "alloc_ok alloc" "ws_rep s xs" "xs \<noteq> []" "ws_rep old [c]" "ws_val new ns" "1 < length ns"
    and "unat (ws_capacity s) < 32768" "length (replace_all [c] ns xs) < 32768" "length ns < 32768"
  shows "\<exists>s'. String_replace alloc old new s = Some s' \<and>
    (ws_rep s' (replace_all [c] ns xs) \<or> s' = s \<and> alloc (Suc (length (replace_all [c] ns xs))) = None)"
proof -
  define diff where "diff = ws_len new - ws_len old"
  let ?ys = "replace_all [c] ns xs"
  obtain b rest where b: "ws_buffer s = Some b" "unat (ws_len s) = length xs" "ws_len s = of_nat (length xs)"
    "0 \<notin> set xs" "b = [] @ xs @ 0 # rest"
    using assms(2) by (auto elim!: ws_repE simp: holds_str_def)
  obtain needle where n: "ws_buffer old = Some needle" "holds_str needle [c]" "unat (ws_len old) = length [c]" "ws_len old = 1"
    using assms(4) by (auto elim!: ws_repE)
  have diff: "diff = of_nat (length ns) - of_nat (length [c])"
    using ws_val_len [OF assms(5)] n(4) by (simp add: diff_def)
  have s: "sint diff = int (length ns) - 1" unfolding diff using assms(9) by (subst sint_diff16) auto
  have fits: "length xs < 32768" using ws_rep_fits [OF assms(2)] assms(7) by simp
  have nz: "ws_len s \<noteq> 0" "ws_len old \<noteq> 0" "diff \<noteq> 0" using b(2) n(4) s assms(3,6) by auto
  have sz: "replace_size_loop needle (unat (ws_len old)) diff 0 b (ws_len s) = Some (of_nat (length ?ys))"
    using replace_size_loop_app [OF n(2) _ b(4) diff, of "[]" rest "ws_len s"] b(3,5) n(3) by simp
  have szn: "unat (of_nat (length ?ys) :: u16) = length ?ys" using assms(8) by (simp add: unat_of_nat16)
  show ?thesis
  proof (cases "of_nat (length ?ys) = ws_len s")
    case True
    have "c \<notin> set xs"
    proof
      assume "c \<in> set xs"
      then obtain u v where uv: "xs = u @ [c] @ v" by (auto simp: in_set_conv_decomp)
      have "length u \<le> length (replace_all [c] ns u)" "length v \<le> length (replace_all [c] ns v)"
        using replace_all_single_grows [of ns] assms(6) by force+
      then have "length xs < length ?ys"
        using assms(6) by (simp add: uv replace_all_single_app del: append_Cons append_Nil) (simp add: replace_all_single)
      then show False using True szn b(2) by simp
    qed
    then show ?thesis using assms(2) True sz s assms(6) b(1) n(1) nz
      by (auto simp: String_replace_def Let_def diff_def [symmetric] replace_all_absent)
  next
    case False
    let ?r = "if of_nat (length ?ys) > ws_capacity s then String_changeBuffer alloc (of_nat (length ?ys)) s else (True, s)"
    have run: "String_replace alloc old new s =
        (case ?r of (ok, s1) \<Rightarrow> if \<not> ok then Some s1
          else replace_grow_loop old new diff (int16 (uint (ws_len s1 - 1))) s1)"
      using False sz s assms(6) b(1) n(1) nz
      by (auto simp: String_replace_def Let_def diff_def [symmetric])
    consider s1 where "?r = (True, s1)" "ws_rep s1 xs" "length ?ys \<le> unat (ws_capacity s1)" "unat (ws_capacity s1) < 32768"
      | "?r = (False, s)" "alloc (Suc (length ?ys)) = None"
    proof (cases "of_nat (length ?ys) > ws_capacity s")
      case True
      then show ?thesis
        using that String_changeBuffer_rep [OF assms(1,2) True] szn assms(8) by auto
    next
      case False
      then have "?r = (True, s)" by simp
      moreover have "length ?ys \<le> unat (ws_capacity s)"
        using False szn by (simp add: not_less word_le_nat_alt)
      ultimately show ?thesis using that(1) [OF _ assms(2)] assms(7) by blast
    qed
    then show ?thesis
    proof cases
      case 1
      have l1: "ws_len s1 = of_nat (length xs)" using 1(2) by (auto elim: ws_repE)
      have "ws_len s1 - 1 = of_nat (length xs - 1)" using assms(3) l1 by (cases xs) auto
      then have "uint (ws_len s1 - 1) = int (length xs - 1)"
        using fits by (simp add: uint_nat unat_of_nat16 del: of_nat_diff)
      then have "int16 (uint (ws_len s1 - 1)) = int (length xs) - 1"
        using assms(3) fits by (cases xs) (auto simp: int16_small)
      moreover obtain d where d: "length ns = Suc d" "0 < d" "diff = of_nat d"
        using assms(6) diff by (cases "length ns") auto
      ultimately show ?thesis
        using replace_grow_loop_single [OF assms(4,5) d, of s1 xs "[]"] 1 run by auto
    next
      case 2
      then show ?thesis using run by simp
    qed
  qed
qed

lemma replace_all_nonzero:
  "0 \<notin> set ys \<Longrightarrow> 0 \<notin> set ns \<Longrightarrow> 0 \<notin> set (replace_all old ns ys)"
proof (induction old ns ys rule: replace_all.induct)
  case (1 old ns ys)
  then show ?case
    by (subst replace_all.simps) (auto split: option.splits dest: in_set_takeD in_set_dropD)
qed

lemma replace_all_same_length:
  "length ns = length old \<Longrightarrow> length (replace_all old ns ys) = length ys"
proof (induction old ns ys rule: replace_all.induct)
  case (1 old ns ys)
  then show ?case
    by (subst replace_all.simps) (auto split: option.splits dest: match_split(2))
qed

lemma replace_all_shrinks:
  "length ns \<le> length old \<Longrightarrow> length (replace_all old ns ys) \<le> length ys"
proof (induction old ns ys rule: replace_all.induct)
  case (1 old ns ys)
  then show ?case
    by (subst replace_all.simps) (force split: option.splits dest: match_split(2))
qed

lemma ws_val_nonzero: "ws_val r ns \<Longrightarrow> 0 \<notin> set ns"
  by (auto simp: ws_val_def ws_rep_Some holds_str_def)

lemma String_replace_noop: "ws_rep s [] \<Longrightarrow> String_replace alloc old new s = Some s"
  by (simp add: String_replace_def ws_len_0_iff)

lemma String_replace_same:
  assumes "ws_rep s xs" "xs \<noteq> []" "ws_rep old os" "ws_val new ns" "os \<noteq> []" "length ns = length os"
  shows "\<exists>s'. String_replace alloc old new s = Some s' \<and> ws_rep s' (replace_all os ns xs)"
proof -
  obtain b rest where b: "ws_buffer s = Some b" "length b = Suc (unat (ws_capacity s))"
    "unat (ws_len s) = length xs" "0 \<notin> set xs" "b = [] @ xs @ 0 # rest"
    using assms(1) by (auto elim!: ws_repE simp: holds_str_def)
  obtain needle where n: "ws_buffer old = Some needle" "holds_str needle os" "ws_len old = of_nat (length os)"
    using assms(3) by (auto elim!: ws_repE)
  have nz: "ws_len s \<noteq> 0" "ws_len old \<noteq> 0" "ws_len new = ws_len old"
    using ws_len_0_iff [OF assms(1)] ws_len_0_iff [OF assms(3)] assms(2,5,6) n(3) ws_val_len [OF assms(4)] by auto
  have loop: "replace_same_loop needle new 0 b = Some (replace_all os ns xs @ 0 # rest)"
    using replace_same_loop_app [OF n(2) assms(5,4,6) b(4), of "[]" rest] b(5) by simp
  have "holds_str (replace_all os ns xs @ 0 # rest) (replace_all os ns xs)"
    using replace_all_nonzero [OF b(4) ws_val_nonzero [OF assms(4)]] by (rule holds_strI)
  then show ?thesis using b loop nz n(1) replace_all_same_length [OF assms(6), of xs]
    by (simp add: String_replace_def ws_rep_Some)
qed

lemma String_replace_shrink:
  assumes "ws_rep s xs" "xs \<noteq> []" "ws_rep old os" "ws_val new ns" "length ns < length os" "length os < 32768"
  shows "\<exists>s'. String_replace alloc old new s = Some s' \<and> ws_rep s' (replace_all os ns xs)"
proof -
  define diff where "diff = ws_len new - ws_len old"
  obtain b rest where b: "ws_buffer s = Some b" "length b = Suc (unat (ws_capacity s))"
    "ws_len s = of_nat (length xs)" "0 \<notin> set xs" "b = [] @ [] @ xs @ 0 # rest"
    using assms(1) by (auto elim!: ws_repE simp: holds_str_def)
  obtain needle where n: "ws_buffer old = Some needle" "holds_str needle os" "ws_len old = of_nat (length os)"
    "unat (ws_len old) = length os"
    using assms(3) by (auto elim!: ws_repE)
  have diff: "diff = of_nat (length ns) - of_nat (length os)"
    using ws_val_len [OF assms(4)] n(3) by (simp add: diff_def)
  then have s: "sint diff < 0" using assms(5,6) sint_diff16 [of "length ns" "length os"] by simp
  have nz: "ws_len s \<noteq> 0" "ws_len old \<noteq> 0" "diff \<noteq> 0"
    using ws_len_0_iff [OF assms(1)] ws_len_0_iff [OF assms(3)] assms(2,5) s by auto
  let ?ys = "replace_all os ns xs"
  obtain rest' where r: "length rest' + length ?ys = length xs + length rest"
    "replace_shrink_loop needle (length os) new diff 0 0 b (ws_len s) = Some (?ys @ 0 # rest', of_nat (length ?ys))"
    using replace_shrink_loop_app [OF n(2) assms(4,5) b(4) diff, of "[]" rest "[]" "ws_len s"] b(3,5) by auto
  have "holds_str (?ys @ 0 # rest') ?ys"
    using replace_all_nonzero [OF b(4) ws_val_nonzero [OF assms(4)]] by (rule holds_strI)
  moreover have "unat (of_nat (length ?ys) :: u16) = length ?ys"
    using replace_all_shrinks [of ns os xs] assms(5) ws_rep_len [OF assms(1)] by (intro unat_of_nat16) simp
  ultimately show ?thesis using b(1,2,5) r nz s n(1,4)
    by (simp add: String_replace_def Let_def diff_def [symmetric] ws_rep_Some)
qed

text \<open>
  C8: Replacing every occurrence of one string by another gives the text in which the occurrences
  are replaced from the left without overlap, when the replacement is not longer than what it
  replaces or a single character is replaced; if the block cannot grow the string is unchanged.
\<close>

theorem String_replace_correct:
  assumes "alloc_ok alloc" "ws_rep s xs" "ws_rep old os" "ws_val new ns" "os \<noteq> []"
    and "length ns \<le> length os \<or> length os = 1"
    and "unat (ws_capacity s) < 32768" "length (replace_all os ns xs) < 32768"
    and "length os < 32768" "length ns < 32768"
  shows "\<exists>s'. String_replace alloc old new s = Some s' \<and>
    (ws_rep s' (replace_all os ns xs) \<or> s' = s \<and> alloc (Suc (length (replace_all os ns xs))) = None)"
proof (cases "xs = []")
  case True
  then have "replace_all os ns xs = xs" using assms(5) by (simp add: replace_all_step)
  then show ?thesis using True assms(2) String_replace_noop by simp
next
  case False
  consider "length ns < length os" | "length ns = length os" | c where "os = [c]" "1 < length ns"
    using assms(6) by (cases "length ns" "length os" rule: linorder_cases) (auto simp: length_Suc_conv)
  then show ?thesis
  proof cases
    case 1
    then show ?thesis using String_replace_shrink [OF assms(2) False assms(3,4) _ assms(9)] by blast
  next
    case 2
    then show ?thesis using String_replace_same [OF assms(2) False assms(3,4,5)] by blast
  next
    case 3
    then show ?thesis using String_replace_grow [OF assms(1,2) False _ assms(4)] assms by auto
  qed
qed

definition bytes_of :: "string \<Rightarrow> u8 list" where
  "bytes_of cs = map (\<lambda>c. of_nat (of_char c)) cs"

definition ws_of :: "u8 list \<Rightarrow> WString" where
  "ws_of xs = \<lparr>ws_buffer = Some (xs @ [0]), ws_capacity = of_nat (length xs), ws_len = of_nat (length xs), ws_flags = 0\<rparr>"

definition malloc_ex :: alloc where
  "malloc_ex n = Some (replicate n 170)"

lemma malloc_ex_ok: "alloc_ok malloc_ex"
  by (simp add: alloc_ok_def malloc_ex_def)

lemma ws_of_rep: "0 \<notin> set xs \<Longrightarrow> length xs < 65535 \<Longrightarrow> ws_rep (ws_of xs) xs"
  by (simp add: ws_rep_def ws_of_def unat_of_nat16 holds_strI)

lemma ws_of_capacity: "length xs < 65535 \<Longrightarrow> unat (ws_capacity (ws_of xs)) = length xs"
  by (simp add: ws_of_def unat_of_nat16)

theorem String_replace_correct_witness:
  "\<exists>s'. String_replace malloc_ex (ws_of [97]) (ws_of [98, 99, 100]) (ws_of [97, 120, 97]) = Some s' \<and>
    (ws_rep s' (replace_all [97] [98, 99, 100] [97, 120, 97]) \<or>
     s' = ws_of [97, 120, 97] \<and> malloc_ex (Suc (length (replace_all [97] [98, 99, 100] [97, 120, 97]))) = None)"
  by (rule String_replace_correct)
    (simp_all add: malloc_ex_ok ws_of_rep ws_val_def ws_of_capacity replace_all_single)


section \<open>Numbers\<close>

lemma in_buf_fits: "length xs < n \<Longrightarrow> in_buf n xs = Some (xs @ [0])"
  by (simp add: in_buf_def)

lemma utoa_fits8: "length (utoa_c base (unat (v :: u8))) < 9"
  using utoa_length_pow2 [of "unat v" 7 base] unsigned_less [of v, where 'a = nat] by simp

lemma utoa_fits16: "length (utoa_c base (unat (v :: u16))) < 17"
  using utoa_length_pow2 [of "unat v" 15 base] unsigned_less [of v, where 'a = nat] by simp

lemma utoa_fits32: "length (utoa_c base (unat (v :: u32))) < 33"
  using utoa_length_pow2 [of "unat v" 31 base] unsigned_less [of v, where 'a = nat] by simp

lemma utoa10_fits8: "length (utoa_c 10 (unat (v :: u8))) < 4"
  using utoa_length [of 10 "unat v" 2] unsigned_less [of v, where 'a = nat] by simp

lemma utoa10_fits16: "length (utoa_c 10 (unat (v :: u16))) < 6"
  using utoa_length [of 10 "unat v" 4] unsigned_less [of v, where 'a = nat] by simp

lemma utoa10_fits32: "length (utoa_c 10 (unat (v :: u32))) < 11"
  using utoa_length [of 10 "unat v" 9] unsigned_less [of v, where 'a = nat] by simp

lemma sint_bounds16: "- 32768 \<le> sint v \<and> sint v < 32768" for v :: u16
  using sint_range_size [of v] by (simp add: word_size)

lemma sint_bounds32: "- 2147483648 \<le> sint v \<and> sint v < 2147483648" for v :: u32
  using sint_range_size [of v] by (simp add: word_size)

lemma itoa_fits16: "length (itoa_c 16 base (sint (v :: u16))) < 18"
proof -
  have "length (utoa_c base (nat (- sint v))) < 17" if "sint v < 0"
    using that sint_bounds16 [of v] utoa_length_pow2 [of "nat (- sint v)" 15 base] by (simp add: nat_less_iff)
  moreover have "length (utoa_c base (nat (sint v mod 2 ^ 16))) < 17"
    using utoa_length_pow2 [of "nat (sint v mod 2 ^ 16)" 15 base] by (simp add: nat_less_iff)
  ultimately show ?thesis by (auto simp: itoa_c_def)
qed

lemma itoa_fits32: "length (itoa_c 32 base (sint (v :: u32))) < 34"
proof -
  have "length (utoa_c base (nat (- sint v))) < 33" if "sint v < 0"
    using that sint_bounds32 [of v] utoa_length_pow2 [of "nat (- sint v)" 31 base] by (simp add: nat_less_iff)
  moreover have "length (utoa_c base (nat (sint v mod 2 ^ 32))) < 33"
    using utoa_length_pow2 [of "nat (sint v mod 2 ^ 32)" 31 base] by (simp add: nat_less_iff)
  ultimately show ?thesis by (auto simp: itoa_c_def)
qed

lemma itoa10_fits16: "length (itoa_c 16 10 (sint (v :: u16))) < 7"
proof -
  have "sint v mod 65536 < 65536" by (rule pos_mod_bound) simp
  then have lt: "sint v mod 65536 < 100000" by linarith
  have "length (utoa_c 10 (nat (- sint v))) < 6" if "sint v < 0"
    using that sint_bounds16 [of v] utoa_length [of 10 "nat (- sint v)" 4] by (simp add: nat_less_iff)
  moreover have "length (utoa_c 10 (nat (sint v mod 2 ^ 16))) < 6"
    using utoa_length [of 10 "nat (sint v mod 2 ^ 16)" 4] lt by (simp add: nat_less_iff)
  ultimately show ?thesis by (auto simp: itoa_c_def)
qed

lemma itoa10_fits32: "length (itoa_c 32 10 (sint (v :: u32))) < 12"
proof -
  have "sint v mod 4294967296 < 4294967296" by (rule pos_mod_bound) simp
  then have lt: "sint v mod 4294967296 < 10000000000" by linarith
  have "length (utoa_c 10 (nat (- sint v))) < 11" if "sint v < 0"
    using that sint_bounds32 [of v] utoa_length [of 10 "nat (- sint v)" 9] by (simp add: nat_less_iff)
  moreover have "length (utoa_c 10 (nat (sint v mod 2 ^ 32))) < 11"
    using utoa_length [of 10 "nat (sint v mod 2 ^ 32)" 9] lt by (simp add: nat_less_iff)
  ultimately show ?thesis by (auto simp: itoa_c_def)
qed

lemma itoa10_uchar: "itoa_c 16 10 (uint (v :: u8)) = utoa_c 10 (unat v)"
  using unsigned_less [of v, where 'a = int] by (simp add: itoa_c_def uint_nat [symmetric] nat_uint_eq)

lemmas number_fits = utoa_fits8 utoa_fits16 utoa_fits32 utoa10_fits8 utoa10_fits16 utoa10_fits32
  itoa_fits16 itoa_fits32 itoa10_fits16 itoa10_fits32

lemma String_number_init:
  assumes "alloc_ok alloc" "length xs < n" "n < 65535" "0 \<notin> set xs"
  shows "\<exists>s. do { buf \<leftarrow> in_buf n xs; String_assign_cstr alloc (Some buf) String_init } = Some s \<and>
    (ws_rep s xs \<or> ws_null s \<and> alloc (Suc (length xs)) = None)"
  using String_assign_cstr_val [OF assms(1), of String_init "[]" "xs @ [0]" xs] assms
  by (simp add: in_buf_fits ws_val_def holds_strI [of xs "[]"])

lemma String_concat_cstr_val:
  assumes "alloc_ok alloc" "ws_val s xs" "holds_str m ys" "length xs + length ys < 65535"
  shows "(\<exists>s'. String_concat_cstr alloc (Some m) s = Some (True, s') \<and> ws_val s' (xs @ ys)) \<or>
    String_concat_cstr alloc (Some m) s = Some (False, s) \<and> alloc (Suc (length xs + length ys)) = None"
  using String_concat_n_val [OF assms] assms(3) by (simp add: String_concat_cstr_def cstr_len16_def strlen_holds)

lemma String_concat_number:
  assumes "alloc_ok alloc" "ws_val s xs" "length ys < n" "0 \<notin> set ys" "length xs + length ys < 65535"
    and "r = do { buf \<leftarrow> in_buf n ys; k \<leftarrow> cstr_len16 buf; String_concat_n alloc (Some buf) k s }"
  shows "(\<exists>s'. r = Some (True, s') \<and> ws_val s' (xs @ ys)) \<or>
    r = Some (False, s) \<and> alloc (Suc (length xs + length ys)) = None"
  using String_concat_cstr_val [OF assms(1,2) holds_strI [OF assms(4)] assms(5)] assms(3,6)
  by (simp add: in_buf_fits String_concat_cstr_def)

text \<open>
  A number constructor of any base prints inside its array, and the string holds the printed
  text (or is invalid when the allocation fails).
\<close>

theorem String_number_constructors:
  assumes "alloc_ok alloc"
  shows "\<exists>a b c d e.
    String_uchar alloc vb base = Some a \<and> String_int alloc vw base = Some b \<and>
    String_uint alloc vw base = Some c \<and> String_long alloc vl base = Some d \<and>
    String_ulong alloc vl base = Some e \<and>
    ((\<forall>n. alloc n \<noteq> None) \<longrightarrow>
       ws_rep a (utoa_c (unat base) (unat vb)) \<and> ws_rep b (itoa_c 16 (unat base) (sint vw)) \<and>
       ws_rep c (utoa_c (unat base) (unat vw)) \<and> ws_rep d (itoa_c 32 (unat base) (sint vl)) \<and>
       ws_rep e (utoa_c (unat base) (unat vl)))"
proof -
  note init = String_number_init [OF assms, OF _ _ utoa_nonzero] String_number_init [OF assms, OF _ _ itoa_nonzero]
  obtain a where "String_uchar alloc vb base = Some a" "(\<forall>n. alloc n \<noteq> None) \<longrightarrow> ws_rep a (utoa_c (unat base) (unat vb))"
    using init(1) [OF utoa_fits8] unfolding String_uchar_def by fastforce
  moreover obtain b where "String_int alloc vw base = Some b" "(\<forall>n. alloc n \<noteq> None) \<longrightarrow> ws_rep b (itoa_c 16 (unat base) (sint vw))"
    using init(2) [OF itoa_fits16] unfolding String_int_def by fastforce
  moreover obtain c where "String_uint alloc vw base = Some c" "(\<forall>n. alloc n \<noteq> None) \<longrightarrow> ws_rep c (utoa_c (unat base) (unat vw))"
    using init(1) [OF utoa_fits16] unfolding String_uint_def by fastforce
  moreover obtain d where "String_long alloc vl base = Some d" "(\<forall>n. alloc n \<noteq> None) \<longrightarrow> ws_rep d (itoa_c 32 (unat base) (sint vl))"
    using init(2) [OF itoa_fits32] unfolding String_long_def by fastforce
  moreover obtain e where "String_ulong alloc vl base = Some e" "(\<forall>n. alloc n \<noteq> None) \<longrightarrow> ws_rep e (utoa_c (unat base) (unat vl))"
    using init(1) [OF utoa_fits32] unfolding String_ulong_def by fastforce
  ultimately show ?thesis by blast
qed

theorem String_number_constructors_witness:
  "\<exists>a b c d e.
    String_uchar malloc_ex 255 10 = Some a \<and> String_int malloc_ex 0x8000 10 = Some b \<and>
    String_uint malloc_ex 0x8000 10 = Some c \<and> String_long malloc_ex 0x80000000 10 = Some d \<and>
    String_ulong malloc_ex 0x80000000 10 = Some e \<and> ws_rep d (itoa_c 32 10 (sint (0x80000000 :: u32)))"
  using String_number_constructors [OF malloc_ex_ok, where vb = 255 and base = 10 and vw = "0x8000" and vl = "0x80000000"]
  by (auto simp: malloc_ex_def)



section \<open>Sequences of operations\<close>

datatype str_op =
  SConcat "u8 list" | SChar u8 | SUchar u8 | SInt u16 | SUint u16 | SLong u32 | SUlong u32
| SSet u16 u8 | SReplaceChar u8 u8 | SLower | SUpper | STrim

text \<open>The operation a client calls, and its return value where it has one.\<close>

fun str_exec :: "alloc \<Rightarrow> str_op \<Rightarrow> WString \<Rightarrow> (bool \<times> WString) option" where
  "str_exec alloc (SConcat xs) s = String_concat_cstr alloc (Some (xs @ [0])) s"
| "str_exec alloc (SChar c) s = String_concat_char alloc c s"
| "str_exec alloc (SUchar v) s = String_concat_uchar alloc v s"
| "str_exec alloc (SInt v) s = String_concat_int alloc v s"
| "str_exec alloc (SUint v) s = String_concat_uint alloc v s"
| "str_exec alloc (SLong v) s = String_concat_long alloc v s"
| "str_exec alloc (SUlong v) s = String_concat_ulong alloc v s"
| "str_exec alloc (SSet loc c) s = map_option (Pair True) (String_setCharAt loc c s)"
| "str_exec alloc (SReplaceChar a b) s = map_option (Pair True) (String_replace_char a b s)"
| "str_exec alloc SLower s = map_option (Pair True) (String_toLowerCase s)"
| "str_exec alloc SUpper s = map_option (Pair True) (String_toUpperCase s)"
| "str_exec alloc STrim s = map_option (Pair True) (String_trim s)"

text \<open>The text an operation appends, and what it does to the text otherwise.\<close>

fun op_appends :: "str_op \<Rightarrow> u8 list" where
  "op_appends (SConcat xs) = xs"
| "op_appends (SChar c) = [c]"
| "op_appends (SUchar v) = utoa_c 10 (unat v)"
| "op_appends (SInt v) = itoa_c 16 10 (sint v)"
| "op_appends (SUint v) = utoa_c 10 (unat v)"
| "op_appends (SLong v) = itoa_c 32 10 (sint v)"
| "op_appends (SUlong v) = utoa_c 10 (unat v)"
| "op_appends _ = []"

fun str_ref :: "str_op \<Rightarrow> u8 list \<Rightarrow> u8 list" where
  "str_ref (SSet loc c) xs = xs[unat loc := c]"
| "str_ref (SReplaceChar a b) xs = map (\<lambda>c. if c = a then b else c) xs"
| "str_ref SLower xs = map tolower_c xs"
| "str_ref SUpper xs = map toupper_c xs"
| "str_ref STrim xs = trim_list xs"
| "str_ref op xs = xs @ op_appends op"

fun op_ok :: "str_op \<Rightarrow> bool" where
  "op_ok (SConcat xs) = (0 \<notin> set xs)"
| "op_ok (SChar c) = (c \<noteq> 0)"
| "op_ok (SSet loc c) = (c \<noteq> 0)"
| "op_ok (SReplaceChar a b) = (b \<noteq> 0)"
| "op_ok _ = True"

fun str_run :: "alloc \<Rightarrow> str_op list \<Rightarrow> WString \<Rightarrow> (bool list \<times> WString) option" where
  "str_run alloc [] s = Some ([], s)"
| "str_run alloc (op # ops) s =
     do { (ok, s1) \<leftarrow> str_exec alloc op s; (oks, s2) \<leftarrow> str_run alloc ops s1; Some (ok # oks, s2) }"

text \<open>Operations that report failure leave the text as it was.\<close>

fun ref_run :: "(str_op \<times> bool) list \<Rightarrow> u8 list \<Rightarrow> u8 list" where
  "ref_run [] xs = xs"
| "ref_run ((op, ok) # ops) xs = ref_run ops (if ok then str_ref op xs else xs)"

lemma length_trim_list: "length (trim_list xs) \<le> length xs"
  unfolding trim_list_def by (metis length_dropWhile_le length_rev order_trans)

lemma length_str_ref: "length (str_ref op xs) \<le> length xs + length (op_appends op)"
  by (cases op) (simp_all add: length_trim_list)

lemma str_exec_val:
  assumes "alloc_ok alloc" "ws_val s xs" "op_ok op" "length xs + length (op_appends op) < 65535"
  shows "(\<exists>s'. str_exec alloc op s = Some (True, s') \<and> ws_val s' (str_ref op xs)) \<or>
    str_exec alloc op s = Some (False, s) \<and> (\<exists>n. alloc n = None)"
proof (cases op)
  case (SConcat ys)
  then show ?thesis
    using String_concat_cstr_val [OF assms(1,2) holds_strI, of ys] assms(3,4) by auto
next
  case (SChar c)
  then show ?thesis
    using String_concat_n_val [OF assms(1,2), of "[c, 0]" "[c]"] assms(3,4) by (auto simp: String_concat_char_def)
next
  case (SUchar v)
  then show ?thesis
    using String_concat_number [OF assms(1,2) utoa10_fits8 utoa_nonzero _ String_concat_uchar_def [unfolded itoa10_uchar]]
      assms(4) by auto
next
  case (SInt v)
  then show ?thesis
    using String_concat_number [OF assms(1,2) itoa10_fits16 itoa_nonzero _ String_concat_int_def] assms(4) by auto
next
  case (SUint v)
  then show ?thesis
    using String_concat_number [OF assms(1,2) utoa10_fits16 utoa_nonzero _ String_concat_uint_def] assms(4) by auto
next
  case (SLong v)
  then show ?thesis
    using String_concat_number [OF assms(1,2) itoa10_fits32 itoa_nonzero _ String_concat_long_def] assms(4) by auto
next
  case (SUlong v)
  then show ?thesis
    using String_concat_number [OF assms(1,2) utoa10_fits32 utoa_nonzero _ String_concat_ulong_def] assms(4) by auto
next
  case (SSet loc c)
  then show ?thesis using String_setCharAt_val [OF assms(2), of c loc] assms(3) by auto
next
  case (SReplaceChar a b)
  then show ?thesis
    using String_map_val [OF assms(2), of "\<lambda>c. if c = a then b else c"] assms(3)
    by (auto simp: String_replace_char_def)
next
  case SLower
  then show ?thesis
    using String_map_val [OF assms(2) tolower_nonzero] by (auto simp: String_toLowerCase_def)
next
  case SUpper
  then show ?thesis
    using String_map_val [OF assms(2) toupper_nonzero] by (auto simp: String_toUpperCase_def)
next
  case STrim
  then show ?thesis using String_trim_val [OF assms(2)] by auto
qed

text \<open>
  C7: Any sequence of appending and rewriting operations keeps the string well formed (terminated,
  inside its block, \<open>len\<close> the length of the text), performs no access outside the block, and yields the
  text the list functions give; an operation fails only when the allocator does, and then leaves
  the text unchanged.
\<close>

theorem String_run_refines:
  assumes "alloc_ok alloc" "ws_val s xs" "\<forall>op\<in>set ops. op_ok op"
    and "length xs + length (concat (map op_appends ops)) < 65535"
  shows "\<exists>oks s'. str_run alloc ops s = Some (oks, s') \<and> length oks = length ops \<and>
    ws_val s' (ref_run (zip ops oks) xs) \<and> ((\<forall>n. alloc n \<noteq> None) \<longrightarrow> False \<notin> set oks)"
  using assms(2-4)
proof (induction ops arbitrary: s xs)
  case Nil
  then show ?case by simp
next
  case (Cons op ops)
  have "length xs + length (op_appends op) < 65535" using Cons.prems(3) by simp
  then consider s1 where "str_exec alloc op s = Some (True, s1)" "ws_val s1 (str_ref op xs)"
    | "str_exec alloc op s = Some (False, s)" "\<exists>n. alloc n = None"
    using str_exec_val [OF assms(1) Cons.prems(1), of op] Cons.prems(2) by auto
  then show ?case
  proof cases
    case 1
    have "length (str_ref op xs) + length (concat (map op_appends ops)) < 65535"
      using Cons.prems(3) length_str_ref [of op xs] by simp
    then show ?thesis using Cons.IH [OF 1(2)] Cons.prems(2) 1(1) by force
  next
    case 2
    then show ?thesis using Cons.IH [OF Cons.prems(1)] Cons.prems(2,3) by force
  qed
qed

theorem String_run_refines_witness:
  "\<exists>oks s'. str_run malloc_ex [SConcat [32, 72], SLong (- 5), STrim, SLower] String_init = Some (oks, s') \<and>
    length oks = Suc (Suc (Suc (Suc 0))) \<and> ws_val s' (ref_run (zip [SConcat [32, 72], SLong (- 5), STrim, SLower] oks) []) \<and>
    False \<notin> set oks"
proof -
  have "length (itoa_c 32 10 (sint (- 5 :: u32))) < 65533" using itoa10_fits32 [of "- 5"] by simp
  then show ?thesis
    using String_run_refines [OF malloc_ex_ok, of String_init "[]" "[SConcat [32, 72], SLong (- 5), STrim, SLower]"]
    by (simp add: ws_val_def malloc_ex_def)
qed

text \<open>
  \<open>startsWith\<close> with an offset compares \<open>len - s2.len\<close> in unsigned arithmetic: for a prefix longer
  than the string the bound wraps around, and the comparison reads past the end of the block.
\<close>

theorem String_startsWith_wraps:
  "ws_rep (ws_of (bytes_of ''ab'')) (bytes_of ''ab'') \<and> ws_rep (ws_of (bytes_of ''abc'')) (bytes_of ''abc'') \<and>
   String_startsWith_at (ws_of (bytes_of ''abc'')) 7 (ws_of (bytes_of ''ab'')) = None"
proof (intro conjI)
  show "String_startsWith_at (ws_of (bytes_of ''abc'')) 7 (ws_of (bytes_of ''ab'')) = None"
    by code_simp
qed (simp_all add: ws_of_rep bytes_of_def)

section \<open>Parts of a string\<close>

text \<open>
  \<open>substring\<close> returns the characters between its two bounds, in either order and clipped to the
  text; the result is the invalid string only when the allocation fails or the range lies outside.
\<close>

theorem String_substring_correct:
  fixes left right :: u16
  assumes "alloc_ok alloc" "ws_rep s xs" "length xs < 65535"
  defines "l \<equiv> min (unat left) (unat right)" and "r \<equiv> max (unat left) (unat right)"
  shows "\<exists>t. String_substring alloc left right s = Some t \<and>
    (ws_val t (take (r - l) (drop l xs)) \<or> ws_null t \<and> alloc (Suc (length (take (r - l) (drop l xs)))) = None)"
proof -
  obtain b rest where b: "ws_buffer s = Some b" "unat (ws_len s) = length xs" "b = xs @ 0 # rest" "0 \<notin> set xs"
    using assms(2) by (auto simp: ws_rep_Some holds_str_def)
  let ?l = "if left > right then right else left" and ?r = "if left > right then left else right"
  have lr: "unat ?l = l" "unat ?r = r" by (auto simp: l_def r_def word_less_nat_alt)
  show ?thesis
  proof (cases "?l > ws_len s")
    case True
    then have "length xs < l" using b(2) lr(1) by (simp add: word_less_nat_alt)
    then show ?thesis using True by (simp add: String_substring_def ws_val_def)
  next
    case False
    then have l: "l \<le> length xs" using b(2) lr(1) by (simp add: word_less_nat_alt not_less)
    let ?r2 = "if ?r > ws_len s then ws_len s else ?r"
    have r2: "unat ?r2 = min r (length xs)" using b(2) lr(2) by (auto simp: word_less_nat_alt)
    let ?part = "take (r - l) (drop l xs)"
    have "drop l (b[unat ?r2 := 0]) = ?part @ 0 # drop (Suc (unat ?r2)) b"
    proof (cases "r < length xs")
      case True
      then have "b[r := 0] = take r xs @ 0 # drop (Suc r) b"
        using b(3) by (simp add: upd_conv_take_nth_drop)
      moreover have "l \<le> r" by (simp add: l_def r_def)
      ultimately show ?thesis using True r2 by (simp add: drop_take)
    next
      case False
      then show ?thesis using b(3) l r2 by (simp add: list_update_append)
    qed
    moreover have "0 \<notin> set ?part" using b(4) by (meson in_set_dropD in_set_takeD)
    ultimately have "holds_str (drop l (b[unat ?r2 := 0])) ?part" by (simp add: holds_strI)
    moreover have "ws_val String_init []" "length ?part < 65535" using assms(3) by (simp_all add: ws_val_def)
    ultimately obtain t where "String_assign_cstr alloc (Some (drop l (b[unat ?r2 := 0]))) String_init = Some t"
      "ws_rep t ?part \<or> ws_null t \<and> alloc (Suc (length ?part)) = None"
      using String_assign_cstr_val [OF assms(1)] by blast
    moreover have "arr_set b (unat ?r2) 0 = Some (b[unat ?r2 := 0])" using r2 b(3) by (simp add: arr_set_def)
    ultimately show ?thesis using False b(1) lr(1)
      by (auto simp: String_substring_def Let_def ws_val_def simp del: length_take length_drop)
  qed
qed

theorem String_substring_correct_witness:
  "\<exists>t. String_substring malloc_ex 4 1 (ws_of [97, 98, 99, 100, 101]) = Some t \<and>
    (ws_val t [98, 99, 100] \<or> ws_null t \<and> malloc_ex (Suc (length (take 3 (drop 1 [97, 98, 99, 100, 101 :: u8])))) = None)"
  using String_substring_correct [OF malloc_ex_ok ws_of_rep, of "[97, 98, 99, 100, 101]" 4 1]
  by (simp add: min_def max_def)

text \<open>
  C10: \<open>indexOf\<close> returns the first position from \<open>fromIndex\<close> on at which the searched string occurs,
  \<open>lastIndexOf\<close> the last position up to \<open>fromIndex\<close>; both return -1 when there is none.
\<close>

theorem String_search_correct:
  assumes "ws_rep s xs" "ws_rep s2 ys" "ys \<noteq> []" "unat fromIndex < length xs" "length xs < 32768"
  shows "String_indexOf_from s2 fromIndex s =
      Some (case first_occ ys (drop (unat fromIndex) xs) of None \<Rightarrow> -1 | Some i \<Rightarrow> int (unat fromIndex + i)) \<and>
    String_lastIndexOf_from s2 fromIndex s =
      Some (case last_occ ys xs (unat fromIndex) of None \<Rightarrow> -1 | Some i \<Rightarrow> int i)"
proof
  obtain b b2 where b: "ws_buffer s = Some b" "holds_str b xs" "unat (ws_len s) = length xs"
    and b2: "ws_buffer s2 = Some b2" "holds_str b2 ys"
    using assms(1,2) by (auto simp: ws_rep_Some)
  have "strstr_c (drop (unat fromIndex) b) b2 = Some (first_occ ys (drop (unat fromIndex) xs))"
    using assms(4) b(2) b2(2) by (intro strstr_holds holds_str_drop) auto
  moreover have "int16 (int (unat fromIndex + i)) = int (unat fromIndex + i)"
    if "first_occ ys (drop (unat fromIndex) xs) = Some i" for i
    using that assms(4,5) occurs_at_length [of ys "drop (unat fromIndex) xs" i]
    by (intro int16_small) (auto simp: first_occ_Some simp flip: of_nat_add)
  ultimately show "String_indexOf_from s2 fromIndex s =
      Some (case first_occ ys (drop (unat fromIndex) xs) of None \<Rightarrow> -1 | Some i \<Rightarrow> int (unat fromIndex + i))"
    using b b2 assms(4) unfolding String_indexOf_from_def
    by (auto simp: word_le_nat_alt found_int_def split: option.splits)
  show "String_lastIndexOf_from s2 fromIndex s =
      Some (case last_occ ys xs (unat fromIndex) of None \<Rightarrow> -1 | Some i \<Rightarrow> int i)"
    by (rule String_lastIndexOf_from_rep [OF assms])
qed

theorem String_search_correct_witness:
  "String_indexOf_from (ws_of [97, 98]) 1 (ws_of [97, 98, 97, 98, 97]) = Some 2 \<and>
   String_lastIndexOf_from (ws_of [97, 98]) 1 (ws_of [97, 98, 97, 98, 97]) = Some 0"
  using String_search_correct [OF ws_of_rep ws_of_rep, of "[97, 98, 97, 98, 97]" "[97, 98]" 1] by simp

end
