(* ===== verification/Boot_CDC.thy ===== *)
theory Boot_CDC
  imports AVR_Prelude
begin

text \<open>
  The CDC class bootloader of the AT90USB1287 (\<open>bootloaders/AT90usb128X/CDC/BootloaderCDC.c\<close>, the
  64X variant has the same code) and the flash programming interface it exports
  (\<open>BootloaderAPI.c\<close>).

  The self-programming hardware is modelled as the data sheet describes it: page erase sets the 256
  bytes of a page to \<open>0xFF\<close>, page write clears the bits that are zero in the words of the temporary
  buffer and empties the buffer, and the flash address is the low 17 bits of the 32-bit argument.
  What the data sheet leaves open is a field of \<open>boot_hw\<close>: the result of filling a buffer word
  twice, and of reading the application section before it is re-enabled.

  The USB host is a list of OUT packets, after which it detaches, and a schedule of the outcomes of
  the waits for the IN endpoint (\<open>True\<close>: the host took the packet, \<open>False\<close>: it detached).
\<close>

section \<open>State\<close>

record boot_hw =
  hw_refill :: "u16 \<Rightarrow> u16 \<Rightarrow> u16"
  hw_blocked :: "nat \<Rightarrow> u8"
  hw_fuse :: "nat \<Rightarrow> u8"

record boot =
  bl_flash :: "nat \<Rightarrow> u8"
  bl_page :: "nat \<Rightarrow> u16 option"
  bl_rww :: bool
  bl_eeprom :: "nat \<Rightarrow> u8"
  bl_lock :: u8
  CurrAddress :: u32
  finished :: u16
  bl_rx :: "u8 list option"
  bl_rxq :: "u8 list list"
  bl_tx :: "u8 list"
  bl_sent :: "u8 list list"
  bl_in_ready :: "bool list"

definition CDC_TXRX_EPSIZE :: nat where "CDC_TXRX_EPSIZE = 16"

definition SPM_PAGESIZE :: nat where "SPM_PAGESIZE = 256"

definition BOOT_START_ADDR :: nat where "BOOT_START_ADDR = 0x1F000"

text \<open>The first address of the section that can be read while it is not being programmed.\<close>

definition NRWW_START :: nat where "NRWW_START = 0x1E000"

section \<open>Self-programming\<close>

definition flash_addr :: "u32 \<Rightarrow> nat" where
  "flash_addr a = unat (a AND 0x1FFFF)"

definition page_of :: "nat \<Rightarrow> nat" where
  "page_of n = n div SPM_PAGESIZE"

definition boot_page_erase :: "u32 \<Rightarrow> boot \<Rightarrow> boot" where
  "boot_page_erase a s =
     s\<lparr>bl_flash := \<lambda>n. if page_of n = page_of (flash_addr a) then 0xFF else bl_flash s n,
       bl_rww := (bl_rww s \<and> NRWW_START \<le> flash_addr a)\<rparr>"

text \<open>The byte of the temporary buffer that goes to a flash address.\<close>

definition page_byte :: "(nat \<Rightarrow> u16 option) \<Rightarrow> nat \<Rightarrow> u8" where
  "page_byte p n =
     (case p (n mod SPM_PAGESIZE div 2) of
        None \<Rightarrow> 0xFF
      | Some w \<Rightarrow> if even n then ucast w else ucast (drop_bit 8 w))"

definition boot_page_write :: "u32 \<Rightarrow> boot \<Rightarrow> boot" where
  "boot_page_write a s =
     s\<lparr>bl_flash := \<lambda>n. if page_of n = page_of (flash_addr a)
                       then bl_flash s n AND page_byte (bl_page s) n else bl_flash s n,
       bl_page := (\<lambda>_. None),
       bl_rww := (bl_rww s \<and> NRWW_START \<le> flash_addr a)\<rparr>"

definition boot_page_fill :: "boot_hw \<Rightarrow> u32 \<Rightarrow> u16 \<Rightarrow> boot \<Rightarrow> boot" where
  "boot_page_fill hw a w s =
     (let i = flash_addr a mod SPM_PAGESIZE div 2 in
      s\<lparr>bl_page := (bl_page s)(i := Some (case bl_page s i of None \<Rightarrow> w | Some old \<Rightarrow> hw_refill hw old w))\<rparr>)"

definition boot_rww_enable :: "boot \<Rightarrow> boot" where
  "boot_rww_enable s = s\<lparr>bl_rww := True, bl_page := (\<lambda>_. None)\<rparr>"

definition pgm_read_byte_far :: "boot_hw \<Rightarrow> u32 \<Rightarrow> boot \<Rightarrow> u8" where
  "pgm_read_byte_far hw a s =
     (if bl_rww s \<or> NRWW_START \<le> flash_addr a then bl_flash s (flash_addr a) else hw_blocked hw (flash_addr a))"

definition pgm_read_word_far :: "boot_hw \<Rightarrow> u32 \<Rightarrow> boot \<Rightarrow> u16" where
  "pgm_read_word_far hw a s =
     ucast (pgm_read_byte_far hw a s) OR push_bit 8 (ucast (pgm_read_byte_far hw (a + 1) s))"

definition boot_lock_bits_set :: "u8 \<Rightarrow> boot \<Rightarrow> boot" where
  "boot_lock_bits_set b s = s\<lparr>bl_lock := bl_lock s AND NOT b\<rparr>"

text \<open>The EEPROM has 4096 bytes; a pointer has 16 bits.\<close>

definition eeprom_addr :: "u32 \<Rightarrow> nat" where
  "eeprom_addr a = unat (a AND 0xFFF)"

definition eeprom_read_byte :: "u32 \<Rightarrow> boot \<Rightarrow> u8" where
  "eeprom_read_byte a s = bl_eeprom s (eeprom_addr a)"

definition eeprom_write_byte :: "u32 \<Rightarrow> u8 \<Rightarrow> boot \<Rightarrow> boot" where
  "eeprom_write_byte a b s = s\<lparr>bl_eeprom := (bl_eeprom s)(eeprom_addr a := b)\<rparr>"

section \<open>The data endpoints\<close>

text \<open>The next packet of the host arrives when the bank is free.\<close>

definition host_poll :: "boot \<Rightarrow> boot" where
  "host_poll s =
     (case (bl_rx s, bl_rxq s) of
        (None, p # q) \<Rightarrow> s\<lparr>bl_rx := Some p, bl_rxq := q\<rparr>
      | _ \<Rightarrow> s)"

text \<open>
  Waiting for data on the OUT endpoint: packets without data are acknowledged and dropped; the
  result is \<open>None\<close> when the host detaches first.
\<close>

fun fetch_wait :: "u8 list option \<Rightarrow> u8 list list \<Rightarrow> (u8 \<times> u8 list) option \<times> u8 list list" where
  "fetch_wait (Some (c # cs)) q = (Some (c, cs), q)"
| "fetch_wait rx (p # q) = fetch_wait (Some p) q"
| "fetch_wait rx [] = (None, [])"

definition FetchNextCommandByte :: "boot \<Rightarrow> u8 \<times> boot" where
  "FetchNextCommandByte s =
     (case fetch_wait (bl_rx s) (bl_rxq s) of
        (Some (c, cs), q) \<Rightarrow> (c, s\<lparr>bl_rx := Some cs, bl_rxq := q\<rparr>)
      | (None, q) \<Rightarrow> (0, s\<lparr>bl_rx := None, bl_rxq := q\<rparr>))"

definition Endpoint_ClearIN :: "boot \<Rightarrow> boot" where
  "Endpoint_ClearIN s = s\<lparr>bl_sent := bl_sent s @ [bl_tx s], bl_tx := []\<rparr>"

definition wait_INReady :: "boot \<Rightarrow> bool \<times> boot" where
  "wait_INReady s =
     (case bl_in_ready s of [] \<Rightarrow> (True, s) | b # bs \<Rightarrow> (b, s\<lparr>bl_in_ready := bs\<rparr>))"

definition IN_full :: "boot \<Rightarrow> bool" where
  "IN_full s \<longleftrightarrow> length (bl_tx s) \<ge> CDC_TXRX_EPSIZE"

definition WriteNextResponseByte :: "u8 \<Rightarrow> boot \<Rightarrow> boot" where
  "WriteNextResponseByte Response s =
     (let (ok, s1) = (if IN_full s then wait_INReady (Endpoint_ClearIN s) else (True, s)) in
      if ok then s1\<lparr>bl_tx := bl_tx s1 @ [Response]\<rparr> else s1)"

fun WriteResponse :: "u8 list \<Rightarrow> boot \<Rightarrow> boot" where
  "WriteResponse [] s = s"
| "WriteResponse (c # cs) s = WriteResponse cs (WriteNextResponseByte c s)"

section \<open>Block commands\<close>

text \<open>The loop of the block read; \<open>HighByte\<close> selects the byte of the current word.\<close>

fun block_read_loop :: "boot_hw \<Rightarrow> u8 \<Rightarrow> nat \<Rightarrow> bool \<Rightarrow> boot \<Rightarrow> boot" where
  "block_read_loop hw MemoryType 0 HighByte s = s"
| "block_read_loop hw MemoryType (Suc BlockSize) HighByte s =
     (if MemoryType = 0x46
      then (let s1 = WriteNextResponseByte (pgm_read_byte_far hw (CurrAddress s OR of_bool HighByte) s) s;
                s2 = (if HighByte then s1\<lparr>CurrAddress := CurrAddress s1 + 2\<rparr> else s1)
            in block_read_loop hw MemoryType BlockSize (\<not> HighByte) s2)
      else (let s1 = WriteNextResponseByte (eeprom_read_byte (drop_bit 1 (CurrAddress s)) s) s;
                s2 = s1\<lparr>CurrAddress := CurrAddress s1 + 2\<rparr>
            in block_read_loop hw MemoryType BlockSize HighByte s2))"

fun block_write_loop :: "boot_hw \<Rightarrow> u8 \<Rightarrow> nat \<Rightarrow> bool \<Rightarrow> u8 \<Rightarrow> boot \<Rightarrow> boot" where
  "block_write_loop hw MemoryType 0 HighByte LowByte s = s"
| "block_write_loop hw MemoryType (Suc BlockSize) HighByte LowByte s =
     (let (c, s1) = FetchNextCommandByte s in
      if MemoryType = 0x46
      then (if HighByte
            then (let s2 = boot_page_fill hw (CurrAddress s1) (push_bit 8 (ucast c) OR ucast LowByte) s1;
                      s3 = s2\<lparr>CurrAddress := CurrAddress s2 + 2\<rparr>
                  in block_write_loop hw MemoryType BlockSize (\<not> HighByte) LowByte s3)
            else block_write_loop hw MemoryType BlockSize (\<not> HighByte) c s1)
      else (let s2 = eeprom_write_byte (drop_bit 1 (CurrAddress s1)) c s1;
                s3 = s2\<lparr>CurrAddress := CurrAddress s2 + 2\<rparr>
            in block_write_loop hw MemoryType BlockSize HighByte LowByte s3))"

definition ReadWriteMemoryBlock :: "boot_hw \<Rightarrow> u8 \<Rightarrow> boot \<Rightarrow> boot" where
  "ReadWriteMemoryBlock hw Command s =
     (let (hi, s1) = FetchNextCommandByte s;
          (lo, s2) = FetchNextCommandByte s1;
          BlockSize = (push_bit 8 (ucast hi) OR ucast lo :: u16);
          (MemoryType, s3) = FetchNextCommandByte s2
      in if MemoryType \<noteq> 0x45 \<and> MemoryType \<noteq> 0x46 then WriteNextResponseByte 0x3F s3
         else if Command = 0x67
         then block_read_loop hw MemoryType (unat BlockSize) False (boot_rww_enable s3)
         else (let PageStartAddress = CurrAddress s3;
                   s4 = (if MemoryType = 0x46 then boot_page_erase PageStartAddress s3 else s3);
                   s5 = block_write_loop hw MemoryType (unat BlockSize) False 0 s4;
                   s6 = (if MemoryType = 0x46 then boot_page_write PageStartAddress s5 else s5)
               in WriteNextResponseByte 0x0D s6))"

section \<open>Command dispatch\<close>

definition cmd_set_address :: "boot \<Rightarrow> boot" where
  "cmd_set_address s =
     (let (hi, s1) = FetchNextCommandByte s;
          s2 = s1\<lparr>CurrAddress := scast (push_bit 9 (ucast hi) :: u16)\<rparr>;
          (lo, s3) = FetchNextCommandByte s2;
          s4 = s3\<lparr>CurrAddress := CurrAddress s3 OR scast (push_bit 1 (ucast lo) :: u16)\<rparr>
      in WriteNextResponseByte 0x0D s4)"

function erase_loop :: "u32 \<Rightarrow> boot \<Rightarrow> boot" where
  "erase_loop CurrFlashAddress s =
     (if unat CurrFlashAddress < BOOT_START_ADDR
      then erase_loop (CurrFlashAddress + of_nat SPM_PAGESIZE)
             (boot_page_write CurrFlashAddress (boot_page_erase CurrFlashAddress s))
      else s)"
  by pat_completeness auto
termination
  by (relation "measure (\<lambda>(a, _). BOOT_START_ADDR - unat a)")
    (auto simp: BOOT_START_ADDR_def SPM_PAGESIZE_def unat_word_ariths)

declare erase_loop.simps [simp del]

definition SOFTWARE_IDENTIFIER :: "u8 list" where
  "SOFTWARE_IDENTIFIER = [0x4C, 0x55, 0x46, 0x41, 0x43, 0x44, 0x43]"

text \<open>The signature bytes 3, 2 and 1 of the part.\<close>

definition AVR_SIGNATURE_321 :: "u8 list" where
  "AVR_SIGNATURE_321 = [0x82, 0x97, 0x1E]"

text \<open>Commands that set or report state without programming a memory.\<close>

definition cmd_info :: "boot_hw \<Rightarrow> u8 \<Rightarrow> boot \<Rightarrow> boot option" where
  "cmd_info hw Command s =
     (if Command = 0x45 then Some ((WriteNextResponseByte 0x0D s)\<lparr>finished := 1\<rparr>)
      else if Command = 0x54 then (let (_, s1) = FetchNextCommandByte s in Some (WriteNextResponseByte 0x0D s1))
      else if Command = 0x4C \<or> Command = 0x50 then Some (WriteNextResponseByte 0x0D s)
      else if Command = 0x74 then Some (WriteResponse [0x44, 0x00] s)
      else if Command = 0x61 then Some (WriteNextResponseByte 0x59 s)
      else if Command = 0x41 then Some (cmd_set_address s)
      else if Command = 0x70 then Some (WriteNextResponseByte 0x53 s)
      else if Command = 0x53 then Some (WriteResponse SOFTWARE_IDENTIFIER s)
      else if Command = 0x56 then Some (WriteResponse [0x30 + 1, 0x30 + 0] s)
      else if Command = 0x73 then Some (WriteResponse AVR_SIGNATURE_321 s)
      else None)"

definition cmd_fuses :: "boot_hw \<Rightarrow> u8 \<Rightarrow> boot \<Rightarrow> boot option" where
  "cmd_fuses hw Command s =
     (if Command = 0x6C
      then (let (b, s1) = FetchNextCommandByte s in Some (WriteNextResponseByte 0x0D (boot_lock_bits_set b s1)))
      else if Command = 0x72 then Some (WriteNextResponseByte (bl_lock s) s)
      else if Command = 0x46 then Some (WriteNextResponseByte (hw_fuse hw 0) s)
      else if Command = 0x4E then Some (WriteNextResponseByte (hw_fuse hw 3) s)
      else if Command = 0x51 then Some (WriteNextResponseByte (hw_fuse hw 2) s)
      else None)"

definition cmd_flash :: "boot_hw \<Rightarrow> u8 \<Rightarrow> boot \<Rightarrow> boot option" where
  "cmd_flash hw Command s =
     (if Command = 0x65 then Some (WriteNextResponseByte 0x0D (erase_loop 0 s))
      else if Command = 0x62
      then Some (WriteResponse [0x59, of_nat (SPM_PAGESIZE div 256), of_nat (SPM_PAGESIZE mod 256)] s)
      else if Command = 0x42 \<or> Command = 0x67 then Some (ReadWriteMemoryBlock hw Command s)
      else if Command = 0x43
      then (let (b, s1) = FetchNextCommandByte s;
                s2 = boot_page_fill hw (CurrAddress s1) (ucast b) s1
            in Some (WriteNextResponseByte 0x0D s2))
      else if Command = 0x63
      then (let (b, s1) = FetchNextCommandByte s;
                s2 = boot_page_fill hw (CurrAddress s1 OR 1) (ucast b) s1;
                s3 = s2\<lparr>CurrAddress := CurrAddress s2 + 2\<rparr>
            in Some (WriteNextResponseByte 0x0D s3))
      else if Command = 0x6D then Some (WriteNextResponseByte 0x0D (boot_page_write (CurrAddress s) s))
      else if Command = 0x52
      then (let w = pgm_read_word_far hw (CurrAddress s) s
            in Some (WriteResponse [ucast (drop_bit 8 w), ucast (w AND 0xFF)] s))
      else None)"

definition cmd_eeprom :: "u8 \<Rightarrow> boot \<Rightarrow> boot option" where
  "cmd_eeprom Command s =
     (if Command = 0x44
      then (let (b, s1) = FetchNextCommandByte s;
                s2 = eeprom_write_byte (drop_bit 1 (CurrAddress s1)) b s1;
                s3 = s2\<lparr>CurrAddress := CurrAddress s2 + 2\<rparr>
            in Some (WriteNextResponseByte 0x0D s3))
      else if Command = 0x64
      then (let s1 = WriteNextResponseByte (eeprom_read_byte (drop_bit 1 (CurrAddress s)) s) s
            in Some (s1\<lparr>CurrAddress := CurrAddress s1 + 2\<rparr>))
      else None)"

definition cmd_unknown :: "u8 \<Rightarrow> boot \<Rightarrow> boot" where
  "cmd_unknown Command s = (if Command \<noteq> 27 then WriteNextResponseByte 0x3F s else s)"

definition boot_command :: "boot_hw \<Rightarrow> u8 \<Rightarrow> boot \<Rightarrow> boot" where
  "boot_command hw Command s =
     (case cmd_info hw Command s of Some s' \<Rightarrow> s' | None \<Rightarrow>
      (case cmd_fuses hw Command s of Some s' \<Rightarrow> s' | None \<Rightarrow>
      (case cmd_flash hw Command s of Some s' \<Rightarrow> s' | None \<Rightarrow>
      (case cmd_eeprom Command s of Some s' \<Rightarrow> s' | None \<Rightarrow> cmd_unknown Command s))))"

text \<open>Sending the response: an empty packet follows a full one.\<close>

definition send_response :: "boot \<Rightarrow> boot" where
  "send_response s =
     (let IsEndpointFull = IN_full s;
          s1 = Endpoint_ClearIN s;
          (ok1, s2) = (if IsEndpointFull
                       then (let (ok, t) = wait_INReady s1 in (ok, if ok then Endpoint_ClearIN t else t))
                       else (True, s1))
      in if \<not> ok1 then s2
         else (let (ok2, s3) = wait_INReady s2 in if ok2 then s3\<lparr>bl_rx := None\<rparr> else s3))"

definition CDC_Task :: "boot_hw \<Rightarrow> boot \<Rightarrow> boot" where
  "CDC_Task hw s =
     (if bl_rx s = None then s
      else (let (Command, s1) = FetchNextCommandByte s in send_response (boot_command hw Command s1)))"

section \<open>Control requests\<close>

record boot_ctl =
  LineEncoding :: "u8 list"
  bl_endpoints :: "(u8 \<times> u8 \<times> nat \<times> nat) list"

definition LineEncoding_init :: "u8 list" where
  "LineEncoding_init = [0, 0, 0, 0, 0, 0, 8]"

text \<open>Endpoint address, type (2 bulk, 3 interrupt), size and banks.\<close>

definition EVENT_USB_Device_ConfigurationChanged :: "boot_ctl \<Rightarrow> boot_ctl" where
  "EVENT_USB_Device_ConfigurationChanged c =
     c\<lparr>bl_endpoints := bl_endpoints c @ [(0x82, 3, 8, 1), (0x83, 2, CDC_TXRX_EPSIZE, 1), (0x04, 2, CDC_TXRX_EPSIZE, 1)]\<rparr>"

text \<open>
  A request with the data stage the host sends; the result is the data the device sends, \<open>None\<close> when
  the request is left to the library.  A transfer that ends early leaves the rest unchanged.
\<close>

definition EVENT_USB_Device_ControlRequest :: "u8 \<Rightarrow> u8 \<Rightarrow> u8 list \<Rightarrow> boot_ctl \<Rightarrow> u8 list option \<times> boot_ctl" where
  "EVENT_USB_Device_ControlRequest bmRequestType bRequest dat c =
     (if bmRequestType AND (0x60 OR 0x1F) \<noteq> (0x20 OR 0x01) then (None, c)
      else if bRequest = 0x21
      then (if bmRequestType = (0x80 OR 0x20 OR 0x01) then (Some (LineEncoding c), c) else (None, c))
      else if bRequest = 0x20
      then (if bmRequestType = (0x00 OR 0x20 OR 0x01)
            then (Some [], c\<lparr>LineEncoding := take 7 dat @ drop (length dat) (LineEncoding c)\<rparr>)
            else (None, c))
      else (None, c))"

section \<open>Main program\<close>

record boot_pulse =
  Pulse :: u16
  LED_PORT :: bool

definition BL_Pulse :: "boot_pulse \<Rightarrow> boot_pulse" where
  "BL_Pulse p =
     (let p1 = p\<lparr>Pulse := Pulse p + 1\<rparr> in
      if Pulse p1 = 0 then p1\<lparr>LED_PORT := \<not> LED_PORT p1\<rparr> else p1)"

text \<open>
  One round of the loop of \<open>main\<close>; a packet of the host may arrive before it.  The call of the USB task
  serves the control endpoint and does not touch this state.
\<close>

definition main_round :: "boot_hw \<Rightarrow> boot \<times> boot_pulse \<Rightarrow> boot \<times> boot_pulse" where
  "main_round hw sp = (CDC_Task hw (host_poll (fst sp)), BL_Pulse (snd sp))"

partial_function (option) main_loop :: "boot_hw \<Rightarrow> boot \<times> boot_pulse \<Rightarrow> (boot \<times> boot_pulse) option" where
  "main_loop hw sp = (if finished (fst sp) = 0 then main_loop hw (main_round hw sp) else Some sp)"

datatype boot_exit = Run_application | Watchdog_reset "boot \<times> boot_pulse"

definition boot_main :: "boot_hw \<Rightarrow> bool \<Rightarrow> boot \<times> boot_pulse \<Rightarrow> boot_exit option" where
  "boot_main hw button_pressed sp =
     (if button_pressed then map_option Watchdog_reset (main_loop hw sp) else Some Run_application)"

section \<open>Programming interface for applications\<close>

definition BootloaderAPI_ErasePage :: "u32 \<Rightarrow> boot \<Rightarrow> boot" where
  "BootloaderAPI_ErasePage a s = boot_rww_enable (boot_page_erase a s)"

definition BootloaderAPI_WritePage :: "u32 \<Rightarrow> boot \<Rightarrow> boot" where
  "BootloaderAPI_WritePage a s = boot_rww_enable (boot_page_write a s)"

definition BootloaderAPI_FillWord :: "boot_hw \<Rightarrow> u32 \<Rightarrow> u16 \<Rightarrow> boot \<Rightarrow> boot" where
  "BootloaderAPI_FillWord hw a w s = boot_page_fill hw a w s"

definition BootloaderAPI_ReadFuse :: "boot_hw \<Rightarrow> u16 \<Rightarrow> boot \<Rightarrow> u8" where
  "BootloaderAPI_ReadFuse hw a s = (if a = 1 then bl_lock s else hw_fuse hw (unat a))"

definition BootloaderAPI_ReadLock :: "boot \<Rightarrow> u8" where
  "BootloaderAPI_ReadLock s = bl_lock s"

definition BootloaderAPI_WriteLock :: "u8 \<Rightarrow> boot \<Rightarrow> boot" where
  "BootloaderAPI_WriteLock b s = boot_lock_bits_set b s"

section \<open>Byte streams over the packets\<close>

text \<open>The bytes still to be read, and the bytes sent so far, without the packet boundaries.\<close>

definition rx_stream :: "boot \<Rightarrow> u8 list" where
  "rx_stream s = (case bl_rx s of None \<Rightarrow> [] | Some p \<Rightarrow> p) @ concat (bl_rxq s)"

definition tx_stream :: "boot \<Rightarrow> u8 list" where
  "tx_stream s = concat (bl_sent s) @ bl_tx s"

lemma fetch_wait_stream:
  "(case rx of None \<Rightarrow> [] | Some p \<Rightarrow> p) @ concat q = c # cs \<Longrightarrow>
    \<exists>p q'. fetch_wait rx q = (Some (c, p), q') \<and> p @ concat q' = cs"
  by (induction rx q rule: fetch_wait.induct) auto

lemma Fetch_stream:
  assumes "rx_stream s = c # cs"
  shows "\<exists>p q. FetchNextCommandByte s = (c, s\<lparr>bl_rx := Some p, bl_rxq := q\<rparr>) \<and> p @ concat q = cs"
proof -
  obtain p q where "fetch_wait (bl_rx s) (bl_rxq s) = (Some (c, p), q)" "p @ concat q = cs"
    using fetch_wait_stream [of "bl_rx s" "bl_rxq s" c cs] assms by (auto simp: rx_stream_def)
  then show ?thesis by (intro exI [of _ p] exI [of _ q]) (simp add: FetchNextCommandByte_def)
qed

named_theorems boot_frame \<open>what reading and writing the endpoints leaves unchanged\<close>

lemma Fetch_frame [boot_frame]:
  "bl_flash (snd (FetchNextCommandByte s)) = bl_flash s" "bl_page (snd (FetchNextCommandByte s)) = bl_page s"
  "bl_rww (snd (FetchNextCommandByte s)) = bl_rww s" "bl_eeprom (snd (FetchNextCommandByte s)) = bl_eeprom s"
  "bl_lock (snd (FetchNextCommandByte s)) = bl_lock s" "CurrAddress (snd (FetchNextCommandByte s)) = CurrAddress s"
  "finished (snd (FetchNextCommandByte s)) = finished s" "tx_stream (snd (FetchNextCommandByte s)) = tx_stream s"
  "bl_in_ready (snd (FetchNextCommandByte s)) = bl_in_ready s"
  by (simp_all add: FetchNextCommandByte_def tx_stream_def split: prod.splits option.splits)

lemma Write_frame [boot_frame]:
  "bl_flash (WriteNextResponseByte c s) = bl_flash s" "bl_page (WriteNextResponseByte c s) = bl_page s"
  "bl_rww (WriteNextResponseByte c s) = bl_rww s" "bl_eeprom (WriteNextResponseByte c s) = bl_eeprom s"
  "bl_lock (WriteNextResponseByte c s) = bl_lock s" "CurrAddress (WriteNextResponseByte c s) = CurrAddress s"
  "finished (WriteNextResponseByte c s) = finished s" "rx_stream (WriteNextResponseByte c s) = rx_stream s"
  "bl_rx (WriteNextResponseByte c s) = bl_rx s" "bl_rxq (WriteNextResponseByte c s) = bl_rxq s"
  by (simp_all add: WriteNextResponseByte_def wait_INReady_def Endpoint_ClearIN_def rx_stream_def Let_def
      split: list.splits)

lemma Write_stream [boot_frame]:
  "bl_in_ready s = [] \<Longrightarrow> tx_stream (WriteNextResponseByte c s) = tx_stream s @ [c]"
  "bl_in_ready s = [] \<Longrightarrow> bl_in_ready (WriteNextResponseByte c s) = []"
  by (simp_all add: WriteNextResponseByte_def wait_INReady_def Endpoint_ClearIN_def tx_stream_def Let_def)

lemma stream_update [simp]:
  "tx_stream (s\<lparr>CurrAddress := a\<rparr>) = tx_stream s" "rx_stream (s\<lparr>CurrAddress := a\<rparr>) = rx_stream s"
  "tx_stream (s\<lparr>bl_page := p\<rparr>) = tx_stream s" "rx_stream (s\<lparr>bl_page := p\<rparr>) = rx_stream s"
  "tx_stream (s\<lparr>bl_eeprom := e\<rparr>) = tx_stream s" "rx_stream (s\<lparr>bl_eeprom := e\<rparr>) = rx_stream s"
  "tx_stream (s\<lparr>bl_rx := r, bl_rxq := q\<rparr>) = tx_stream s"
  "rx_stream (s\<lparr>bl_rx := Some p', bl_rxq := q\<rparr>) = p' @ concat q"
  by (simp_all add: tx_stream_def rx_stream_def)

lemma stream_flash [simp]:
  "tx_stream (boot_page_erase a s) = tx_stream s" "rx_stream (boot_page_erase a s) = rx_stream s"
  "tx_stream (boot_page_write a s) = tx_stream s" "rx_stream (boot_page_write a s) = rx_stream s"
  "tx_stream (boot_rww_enable s) = tx_stream s" "rx_stream (boot_rww_enable s) = rx_stream s"
  by (simp_all add: tx_stream_def rx_stream_def boot_page_erase_def boot_page_write_def boot_rww_enable_def)

section \<open>Addresses and words\<close>

lemma flash_addr_mod: "flash_addr a = unat a mod 131072"
proof -
  have "a AND 0x1FFFF = take_bit 17 a"
    by (simp add: take_bit_eq_mask mask_eq_exp_minus_1)
  then show ?thesis by (simp add: flash_addr_def take_bit_eq_mod unat_mod)
qed

lemma flash_addr_add: "flash_addr (a + of_nat k) = (unat a + k) mod 131072"
proof -
  have "(unat a + k mod 2 ^ 32) mod 2 ^ 32 mod 131072 = (unat a + k mod 2 ^ 32) mod 131072"
    by (rule mod_mod_cancel) simp
  also have "\<dots> = (unat a + k mod 2 ^ 32 mod 131072) mod 131072" by (rule mod_add_right_eq [symmetric])
  also have "k mod 2 ^ 32 mod 131072 = k mod 131072" by (rule mod_mod_cancel) simp
  also have "(unat a + k mod 131072) mod 131072 = (unat a + k) mod 131072" by (rule mod_add_right_eq)
  finally show ?thesis
    by (simp add: flash_addr_mod unat_word_ariths unat_of_nat)
qed

lemma page_word_index:
  assumes "unat b mod 256 = 0" "m < 128"
  shows "flash_addr (b + of_nat (2 * m)) mod SPM_PAGESIZE div 2 = m"
proof -
  have "(unat b + 2 * m) mod 131072 mod 256 = (unat b + 2 * m) mod 256" by (rule mod_mod_cancel) simp
  also have "\<dots> = (unat b mod 256 + 2 * m) mod 256" by (simp add: mod_add_left_eq)
  also have "\<dots> = 2 * m" using assms by simp
  finally show ?thesis using flash_addr_add [of b "2 * m"] by (simp add: SPM_PAGESIZE_def del: of_nat_mult)
qed

lemma word_low: "(ucast (push_bit 8 (ucast hi) OR ucast lo :: u16) :: u8) = lo" for lo hi :: u8
  by (rule bit_word_eqI) (auto simp: bit_simps)

lemma word_high: "(ucast (drop_bit 8 (push_bit 8 (ucast hi) OR ucast lo :: u16)) :: u8) = hi" for lo hi :: u8
  by (rule bit_word_eqI) (auto simp: bit_simps dest: bit_imp_le_length)

lemma word_pair: "unat (push_bit 8 (ucast hi) OR ucast lo :: u16) = 256 * unat hi + unat lo" for lo hi :: u8
proof -
  have "(push_bit 8 (ucast hi) OR ucast lo :: u16) = push_bit 8 (ucast hi) + ucast lo"
    by (rule disjunctive_add [symmetric]) (auto simp: bit_simps dest: bit_imp_le_length)
  also have "\<dots> = of_nat (256 * unat hi + unat lo)"
    by (simp add: push_bit_eq_mult)
  finally show ?thesis
    using unsigned_less [of hi, where 'a = nat] unsigned_less [of lo, where 'a = nat]
    by (simp add: unat_of_nat del: of_nat_add of_nat_mult)
qed

section \<open>Block write and block read\<close>

lemma block_write_loop_flash:
  assumes "unat b mod 256 = 0"
  shows "rx_stream s = ds @ rest \<Longrightarrow> length ds = 2 * k \<Longrightarrow> CurrAddress s = b + of_nat (2 * m) \<Longrightarrow>
    m + k \<le> 128 \<Longrightarrow> (\<forall>j. m \<le> j \<longrightarrow> bl_page s j = None) \<Longrightarrow>
    \<exists>p q. block_write_loop hw 0x46 (2 * k) False lo s =
      s\<lparr>CurrAddress := b + of_nat (2 * (m + k)),
        bl_page := \<lambda>j. if m \<le> j \<and> j < m + k
                       then Some (push_bit 8 (ucast (ds ! (2 * (j - m) + 1))) OR ucast (ds ! (2 * (j - m))))
                       else bl_page s j,
        bl_rx := p, bl_rxq := q\<rparr> \<and>
      (case p of None \<Rightarrow> [] | Some p \<Rightarrow> p) @ concat q = rest"
proof (induction k arbitrary: s ds m lo)
  case 0
  then have "block_write_loop hw 0x46 (2 * 0) False lo s =
      s\<lparr>CurrAddress := b + of_nat (2 * (m + 0)),
        bl_page := \<lambda>j. if m \<le> j \<and> j < m + 0
                       then Some (push_bit 8 (ucast (ds ! (2 * (j - m) + 1))) OR ucast (ds ! (2 * (j - m))))
                       else bl_page s j,
        bl_rx := bl_rx s, bl_rxq := bl_rxq s\<rparr>" by (intro boot.equality) auto
  moreover have "(case bl_rx s of None \<Rightarrow> [] | Some p \<Rightarrow> p) @ concat (bl_rxq s) = rest"
    using 0 by (simp add: rx_stream_def)
  ultimately show ?case by blast
next
  case (Suc k)
  obtain d0 d1 ds' where ds: "ds = d0 # d1 # ds'" "length ds' = 2 * k"
    using Suc.prems(2) by (cases ds; cases "tl ds") auto
  obtain p1 q1 where f1: "FetchNextCommandByte s = (d0, s\<lparr>bl_rx := Some p1, bl_rxq := q1\<rparr>)"
    "p1 @ concat q1 = d1 # ds' @ rest"
    using Fetch_stream [of s d0 "d1 # ds' @ rest"] Suc.prems(1) ds(1) by auto
  let ?s1 = "s\<lparr>bl_rx := Some p1, bl_rxq := q1\<rparr>"
  obtain p2 q2 where f2: "FetchNextCommandByte ?s1 = (d1, ?s1\<lparr>bl_rx := Some p2, bl_rxq := q2\<rparr>)"
    "p2 @ concat q2 = ds' @ rest"
    using Fetch_stream [of ?s1 d1 "ds' @ rest"] f1(2) by auto
  let ?w = "push_bit 8 (ucast d1) OR ucast d0 :: u16"
  let ?s2 = "s\<lparr>bl_rx := Some p2, bl_rxq := q2, bl_page := (bl_page s)(m := Some ?w),
               CurrAddress := b + of_nat (2 * Suc m)\<rparr>"
  have idx: "flash_addr (CurrAddress s) mod SPM_PAGESIZE div 2 = m"
    using page_word_index [OF assms, of m] Suc.prems(3,4) by simp
  have step: "block_write_loop hw 0x46 (2 * Suc k) False lo s = block_write_loop hw 0x46 (2 * k) False d0 ?s2"
    using f1(1) f2(1) idx Suc.prems(3,5) by (simp add: boot_page_fill_def Let_def ac_simps)
  have IHp: "rx_stream ?s2 = ds' @ rest" "CurrAddress ?s2 = b + of_nat (2 * Suc m)" "Suc m + k \<le> 128"
    "\<forall>j. Suc m \<le> j \<longrightarrow> bl_page ?s2 j = None"
    using f2(2) Suc.prems(4,5) by (auto simp: rx_stream_def)
  obtain p q where IH: "block_write_loop hw 0x46 (2 * k) False d0 ?s2 =
      ?s2\<lparr>CurrAddress := b + of_nat (2 * (Suc m + k)),
        bl_page := \<lambda>j. if Suc m \<le> j \<and> j < Suc m + k
                       then Some (push_bit 8 (ucast (ds' ! (2 * (j - Suc m) + 1))) OR ucast (ds' ! (2 * (j - Suc m))))
                       else bl_page ?s2 j,
        bl_rx := p, bl_rxq := q\<rparr>"
    "(case p of None \<Rightarrow> [] | Some p \<Rightarrow> p) @ concat q = rest"
    using Suc.IH [OF IHp(1) ds(2) IHp(2-4), of d0] by blast
  have "(\<lambda>j. if Suc m \<le> j \<and> j < Suc m + k
             then Some (push_bit 8 (ucast (ds' ! (2 * (j - Suc m) + 1))) OR ucast (ds' ! (2 * (j - Suc m))))
             else bl_page ?s2 j) =
        (\<lambda>j. if m \<le> j \<and> j < m + Suc k
             then Some (push_bit 8 (ucast (ds ! (2 * (j - m) + 1))) OR ucast (ds ! (2 * (j - m))) :: u16)
             else bl_page s j)" (is "?L = ?R")
  proof
    fix j
    consider "j < m" | "j = m" | i where "j = Suc (m + i)" by (metis less_iff_Suc_add linorder_neqE_nat)
    then show "?L j = ?R j" by cases (auto simp: ds(1))
  qed
  then show ?case using step IH by (intro exI [of _ p] exI [of _ q]) simp
qed

lemma even_unat_iff: "even (unat w) \<longleftrightarrow> even w" for w :: u32
  using bit_unsigned_iff [of w 0, where 'a = nat] by (simp add: bit_0)

lemma block_read_loop_flash:
  assumes "even (unat b)"
  shows "bl_in_ready s = [] \<Longrightarrow> bl_rww s \<Longrightarrow> CurrAddress s = b + of_nat (2 * (i div 2)) \<Longrightarrow>
    tx_stream (block_read_loop hw 0x46 n (odd i) s) =
      tx_stream s @ map (\<lambda>j. bl_flash s (flash_addr (b + of_nat (i + j)))) [0..<n] \<and>
    rx_stream (block_read_loop hw 0x46 n (odd i) s) = rx_stream s \<and>
    bl_flash (block_read_loop hw 0x46 n (odd i) s) = bl_flash s"
proof (induction n arbitrary: s i)
  case 0
  then show ?case by simp
next
  case (Suc n)
  have addr: "CurrAddress s OR of_bool (odd i) = b + of_nat i"
  proof (cases "odd i")
    case True
    have "even (b + of_nat (2 * (i div 2)))" using assms by (simp add: even_unat_iff)
    then have "(b + of_nat (2 * (i div 2))) OR 1 = b + of_nat (2 * (i div 2)) + 1"
      by (simp add: or_one_eq)
    also have "\<dots> = b + of_nat (2 * (i div 2) + 1)" by simp
    also have "2 * (i div 2) + 1 = i" using True by simp
    finally show ?thesis using True Suc.prems(3) by simp
  next
    case False
    then show ?thesis using Suc.prems(3) by simp
  qed
  let ?s = "WriteNextResponseByte (bl_flash s (flash_addr (b + of_nat i))) s"
  let ?s2 = "if odd i then ?s\<lparr>CurrAddress := CurrAddress ?s + 2\<rparr> else ?s"
  have step: "block_read_loop hw 0x46 (Suc n) (odd i) s = block_read_loop hw 0x46 n (odd (Suc i)) ?s2"
    using addr Suc.prems(2) by (simp add: pgm_read_byte_far_def Let_def)
  have "CurrAddress ?s2 = b + of_nat (2 * (Suc i div 2))"
    using Suc.prems(3) by (auto simp: boot_frame elim!: oddE evenE)
  moreover have "bl_in_ready ?s2 = []" "bl_rww ?s2" using Suc.prems(1,2) by (simp_all add: boot_frame)
  ultimately have "tx_stream (block_read_loop hw 0x46 n (odd (Suc i)) ?s2) =
      tx_stream ?s2 @ map (\<lambda>j. bl_flash ?s2 (flash_addr (b + of_nat (Suc i + j)))) [0..<n] \<and>
    rx_stream (block_read_loop hw 0x46 n (odd (Suc i)) ?s2) = rx_stream ?s2 \<and>
    bl_flash (block_read_loop hw 0x46 n (odd (Suc i)) ?s2) = bl_flash ?s2"
    by (intro Suc.IH)
  moreover have "tx_stream ?s2 = tx_stream s @ [bl_flash s (flash_addr (b + of_nat i))]"
    "rx_stream ?s2 = rx_stream s" "bl_flash ?s2 = bl_flash s"
    using Suc.prems(1) by (simp_all add: boot_frame)
  moreover have "map (\<lambda>j. bl_flash s (flash_addr (b + of_nat (i + j)))) [0..<Suc n] =
      bl_flash s (flash_addr (b + of_nat i)) # map (\<lambda>j. bl_flash s (flash_addr (b + of_nat (Suc i + j)))) [0..<n]"
    by (subst upt_conv_Cons) (simp_all add: map_Suc_upt [symmetric] ac_simps del: upt_Suc)
  ultimately show ?case unfolding step by simp
qed

lemma ff_and: "0xFF AND x = x" for x :: u8
proof -
  have "(0xFF :: u8) = - 1" by simp
  then show ?thesis by (simp only: and.left_neutral)
qed

lemma page_byte_word:
  assumes "p (n mod SPM_PAGESIZE div 2) = Some (push_bit 8 (ucast (ds ! (2 * (n mod SPM_PAGESIZE div 2) + 1))) OR
    ucast (ds ! (2 * (n mod SPM_PAGESIZE div 2))))"
  shows "page_byte p n = ds ! (n mod SPM_PAGESIZE)"
proof -
  have "even (n mod SPM_PAGESIZE) \<longleftrightarrow> even n" by (simp add: SPM_PAGESIZE_def dvd_mod_iff)
  then show ?thesis
    using assms by (cases "even n") (auto simp: page_byte_def word_low word_high odd_two_times_div_two_succ simp del: drop_bit_or)
qed

text \<open>The memory after a block write of \<open>ds\<close> to the page at \<open>a\<close>.\<close>

definition flash_after :: "(nat \<Rightarrow> u8) \<Rightarrow> u32 \<Rightarrow> u8 list \<Rightarrow> nat \<Rightarrow> u8" where
  "flash_after f a ds n =
     (if page_of n = page_of (flash_addr a)
      then (if n mod SPM_PAGESIZE < length ds then ds ! (n mod SPM_PAGESIZE) else 0xFF) else f n)"

lemma ReadWriteMemoryBlock_write:
  assumes "rx_stream s = hi # lo # 0x46 # ds @ rest" "length ds = 256 * unat hi + unat lo"
    "even (length ds)" "length ds \<le> 256" "unat (CurrAddress s) mod 256 = 0"
    "bl_page s = (\<lambda>_. None)" "bl_in_ready s = []"
  shows "bl_flash (ReadWriteMemoryBlock hw 0x42 s) = flash_after (bl_flash s) (CurrAddress s) ds \<and>
    rx_stream (ReadWriteMemoryBlock hw 0x42 s) = rest \<and>
    tx_stream (ReadWriteMemoryBlock hw 0x42 s) = tx_stream s @ [0x0D] \<and>
    bl_in_ready (ReadWriteMemoryBlock hw 0x42 s) = [] \<and>
    bl_page (ReadWriteMemoryBlock hw 0x42 s) = (\<lambda>_. None)"
proof -
  obtain k where k: "length ds = 2 * k" using assms(3) by (auto elim: evenE)
  obtain p1 q1 where f1: "FetchNextCommandByte s = (hi, s\<lparr>bl_rx := Some p1, bl_rxq := q1\<rparr>)"
    "p1 @ concat q1 = lo # 0x46 # ds @ rest"
    using Fetch_stream [OF assms(1)] by auto
  obtain p2 q2 where f2: "FetchNextCommandByte (s\<lparr>bl_rx := Some p1, bl_rxq := q1\<rparr>) = (lo, s\<lparr>bl_rx := Some p2, bl_rxq := q2\<rparr>)"
    "p2 @ concat q2 = 0x46 # ds @ rest"
    using Fetch_stream [of "s\<lparr>bl_rx := Some p1, bl_rxq := q1\<rparr>" lo "0x46 # ds @ rest"] f1(2) by auto
  obtain p3 q3 where f3: "FetchNextCommandByte (s\<lparr>bl_rx := Some p2, bl_rxq := q2\<rparr>) = (0x46, s\<lparr>bl_rx := Some p3, bl_rxq := q3\<rparr>)"
    "p3 @ concat q3 = ds @ rest"
    using Fetch_stream [of "s\<lparr>bl_rx := Some p2, bl_rxq := q2\<rparr>" "0x46" "ds @ rest"] f2(2) by auto
  define s4 where "s4 = boot_page_erase (CurrAddress s) (s\<lparr>bl_rx := Some p3, bl_rxq := q3\<rparr>)"
  have s4: "rx_stream s4 = ds @ rest" "CurrAddress s4 = CurrAddress s + of_nat (2 * 0)" "\<forall>j. 0 \<le> j \<longrightarrow> bl_page s4 j = None"
    "tx_stream s4 = tx_stream s" "bl_in_ready s4 = []"
    "bl_flash s4 = (\<lambda>n. if page_of n = page_of (flash_addr (CurrAddress s)) then 0xFF else bl_flash s n)"
    using f3(2) assms(6,7) by (simp_all add: s4_def) (simp_all add: boot_page_erase_def fun_eq_iff)
  obtain p q where w: "block_write_loop hw 0x46 (2 * k) False 0 s4 =
      s4\<lparr>CurrAddress := CurrAddress s + of_nat (2 * (0 + k)),
        bl_page := \<lambda>j. if 0 \<le> j \<and> j < 0 + k
                       then Some (push_bit 8 (ucast (ds ! (2 * (j - 0) + 1))) OR ucast (ds ! (2 * (j - 0))))
                       else bl_page s4 j,
        bl_rx := p, bl_rxq := q\<rparr>" "(case p of None \<Rightarrow> [] | Some p \<Rightarrow> p) @ concat q = rest"
    using block_write_loop_flash [OF assms(5) s4(1) k s4(2) _ s4(3), of hw 0] k assms(4) by auto
  define s5 where "s5 = block_write_loop hw 0x46 (2 * k) False 0 s4"
  have run: "ReadWriteMemoryBlock hw 0x42 s = WriteNextResponseByte 0x0D (boot_page_write (CurrAddress s) s5)"
    using f1(1) f2(1) f3(1) assms(2) k
    by (simp add: ReadWriteMemoryBlock_def word_pair s5_def s4_def Let_def)
  have byte: "page_byte (bl_page s5) n = (if n mod SPM_PAGESIZE < length ds then ds ! (n mod SPM_PAGESIZE) else 0xFF)" for n
  proof (cases "n mod SPM_PAGESIZE < length ds")
    case True
    then have "n mod SPM_PAGESIZE div 2 < k" using k by simp
    then show ?thesis using True w(1) by (simp add: s5_def page_byte_word)
  next
    case False
    then have "\<not> n mod SPM_PAGESIZE div 2 < k" using k by auto
    then show ?thesis using False w(1) s4(3) by (simp add: s5_def page_byte_def)
  qed
  have "bl_flash (boot_page_write (CurrAddress s) s5) = flash_after (bl_flash s) (CurrAddress s) ds"
    using byte w(1) s4(6) by (auto simp: boot_page_write_def flash_after_def s5_def fun_eq_iff ff_and)
  moreover have "rx_stream s5 = rest" "tx_stream s5 = tx_stream s" "bl_in_ready s5 = []"
    using w s4(4,5) by (simp_all add: s5_def rx_stream_def tx_stream_def)
  moreover have "bl_in_ready (boot_page_write (CurrAddress s) s5) = bl_in_ready s5"
    "bl_page (boot_page_write (CurrAddress s) s5) = (\<lambda>_. None)"
    by (simp_all add: boot_page_write_def)
  ultimately show ?thesis unfolding run by (simp add: boot_frame)
qed

lemma ReadWriteMemoryBlock_read:
  assumes "rx_stream s = hi # lo # 0x46 # rest" "unat (CurrAddress s) mod 256 = 0" "bl_in_ready s = []"
  shows "tx_stream (ReadWriteMemoryBlock hw 0x67 s) =
    tx_stream s @ map (\<lambda>j. bl_flash s (flash_addr (CurrAddress s + of_nat j))) [0..<256 * unat hi + unat lo] \<and>
    rx_stream (ReadWriteMemoryBlock hw 0x67 s) = rest \<and> bl_flash (ReadWriteMemoryBlock hw 0x67 s) = bl_flash s"
proof -
  obtain p1 q1 where f1: "FetchNextCommandByte s = (hi, s\<lparr>bl_rx := Some p1, bl_rxq := q1\<rparr>)"
    "p1 @ concat q1 = lo # 0x46 # rest"
    using Fetch_stream [OF assms(1)] by auto
  obtain p2 q2 where f2: "FetchNextCommandByte (s\<lparr>bl_rx := Some p1, bl_rxq := q1\<rparr>) = (lo, s\<lparr>bl_rx := Some p2, bl_rxq := q2\<rparr>)"
    "p2 @ concat q2 = 0x46 # rest"
    using Fetch_stream [of "s\<lparr>bl_rx := Some p1, bl_rxq := q1\<rparr>" lo "0x46 # rest"] f1(2) by auto
  obtain p3 q3 where f3: "FetchNextCommandByte (s\<lparr>bl_rx := Some p2, bl_rxq := q2\<rparr>) = (0x46, s\<lparr>bl_rx := Some p3, bl_rxq := q3\<rparr>)"
    "p3 @ concat q3 = rest"
    using Fetch_stream [of "s\<lparr>bl_rx := Some p2, bl_rxq := q2\<rparr>" "0x46" rest] f2(2) by auto
  define s4 where "s4 = boot_rww_enable (s\<lparr>bl_rx := Some p3, bl_rxq := q3\<rparr>)"
  have run: "ReadWriteMemoryBlock hw 0x67 s = block_read_loop hw 0x46 (256 * unat hi + unat lo) False s4"
    using f1(1) f2(1) f3(1) by (simp add: ReadWriteMemoryBlock_def word_pair s4_def Let_def)
  have s4: "bl_in_ready s4 = []" "bl_rww s4" "CurrAddress s4 = CurrAddress s + of_nat (2 * (0 div 2))"
    "tx_stream s4 = tx_stream s" "rx_stream s4 = rest" "bl_flash s4 = bl_flash s"
    using assms(3) f3(2) by (simp_all add: s4_def) (simp_all add: boot_rww_enable_def)
  have "even (unat (CurrAddress s))" using assms(2) by (metis dvd_mod_imp_dvd even_numeral mod_0 dvd_0_right)
  from block_read_loop_flash [OF this s4(1-3), of hw "256 * unat hi + unat lo"] s4(4-6)
  show ?thesis unfolding run by simp
qed

section \<open>The address command\<close>

definition addr_of :: "u8 \<Rightarrow> u8 \<Rightarrow> u32" where
  "addr_of hi lo = scast (push_bit 9 (ucast hi) :: u16) OR scast (push_bit 1 (ucast lo) :: u16)"

lemma uint8_bounds: "0 \<le> uint (w :: u8) \<and> uint w < 256"
  using unsigned_less [of w, where 'a = int] by simp

lemma uint_less_64: "uint (w :: u8) < 64 \<longleftrightarrow> unat w < 64"
  using nat_less_iff [of "uint w" 64] by simp

lemma sint_push_1: "sint (push_bit 1 (ucast lo) :: u16) = 2 * uint (lo :: u8)"
proof -
  have w: "(push_bit 1 (ucast lo) :: u16) = word_of_int (2 * uint lo)" by (simp add: push_bit_eq_mult)
  show ?thesis unfolding w int_word_sint using uint8_bounds [of lo] by simp
qed

lemma sint_push_9: "sint (push_bit 9 (ucast hi) :: u16) = (512 * uint (hi :: u8) + 32768) mod 65536 - 32768"
proof -
  have w: "(push_bit 9 (ucast hi) :: u16) = word_of_int (512 * uint hi)" by (simp add: push_bit_eq_mult)
  show ?thesis unfolding w int_word_sint by simp
qed

lemma address_or:
  fixes hi lo :: u8
  assumes "k = 1"
  shows "(scast (push_bit 9 (ucast hi) :: u16) OR scast (push_bit k (ucast lo) :: u16) :: u32) =
    scast (push_bit 9 (ucast hi) :: u16) + scast (push_bit k (ucast lo) :: u16)"
proof (rule disjunctive_add [symmetric])
  fix n
  show "\<not> bit (scast (push_bit 9 (ucast hi) :: u16) :: u32) n \<or> \<not> bit (scast (push_bit k (ucast lo) :: u16) :: u32) n"
  proof (rule ccontr)
    assume "\<not> ?thesis"
    then have "9 \<le> n" "bit lo (min 15 n - k)" by (auto simp: bit_simps)
    then show False using assms bit_imp_le_length [of lo "min 15 n - k"] by auto
  qed
qed

lemma addr_of_int:
  "addr_of hi lo = word_of_int ((512 * uint hi + 32768) mod 65536 - 32768 + 2 * uint lo)"
proof -
  have "addr_of hi lo = word_of_int (sint (push_bit 9 (ucast hi) :: u16)) + word_of_int (sint (push_bit 1 (ucast lo) :: u16))"
    unfolding addr_of_def by (subst address_or [OF refl]) (simp only: scast_eq)
  then show ?thesis unfolding sint_push_1 sint_push_9 by (simp only: of_int_add)
qed

lemma cmd_set_address_effect:
  assumes "rx_stream s = hi # lo # rest"
  shows "CurrAddress (cmd_set_address s) = addr_of hi lo \<and>
    rx_stream (cmd_set_address s) = rest \<and> bl_flash (cmd_set_address s) = bl_flash s \<and>
    bl_page (cmd_set_address s) = bl_page s \<and>
    (bl_in_ready s = [] \<longrightarrow> bl_in_ready (cmd_set_address s) = [] \<and> tx_stream (cmd_set_address s) = tx_stream s @ [0x0D])"
proof -
  obtain p1 q1 where f1: "FetchNextCommandByte s = (hi, s\<lparr>bl_rx := Some p1, bl_rxq := q1\<rparr>)"
    "p1 @ concat q1 = lo # rest"
    using Fetch_stream [OF assms] by auto
  define a9 a1 where "a9 = (scast (push_bit 9 (ucast hi) :: u16) :: u32)" and "a1 = (scast (push_bit 1 (ucast lo) :: u16) :: u32)"
  let ?s1 = "s\<lparr>bl_rx := Some p1, bl_rxq := q1, CurrAddress := a9\<rparr>"
  obtain p2 q2 where f2: "FetchNextCommandByte ?s1 = (lo, ?s1\<lparr>bl_rx := Some p2, bl_rxq := q2\<rparr>)" "p2 @ concat q2 = rest"
    using Fetch_stream [of ?s1 lo rest] f1(2) by (auto simp: rx_stream_def)
  have "cmd_set_address s = WriteNextResponseByte 0x0D (?s1\<lparr>bl_rx := Some p2, bl_rxq := q2, CurrAddress := a9 OR a1\<rparr>)"
    by (simp add: cmd_set_address_def Let_def f1(1) f2(1) a1_def flip: a9_def)
  moreover have "a9 OR a1 = addr_of hi lo" by (simp only: a9_def a1_def addr_of_def)
  ultimately show ?thesis using f2(2) by (simp add: boot_frame)
qed

lemma addr_of_small:
  assumes "unat hi < 64"
  shows "addr_of hi lo = of_nat (512 * unat hi + 2 * unat lo)"
proof -
  have "uint hi < 64" using assms by (simp add: uint_less_64)
  then have "(512 * uint hi + 32768) mod 65536 = 512 * uint hi + 32768" using uint8_bounds [of hi] by simp
  then show ?thesis by (simp add: addr_of_int)
qed

lemma mod_unique: "0 \<le> r \<Longrightarrow> r < m \<Longrightarrow> a = r + m * q \<Longrightarrow> a mod m = r" for a r m q :: int
  by simp

lemma address_arith:
  fixes h l :: int
  assumes "0 \<le> h" "h < 256" "0 \<le> l" "l < 256"
  shows "((512 * h + 32768) mod 65536 - 32768 + 2 * l) mod 4294967296 = 512 * h + 2 * l \<longleftrightarrow> h < 64"
proof -
  consider "h < 64" | "64 \<le> h" "h < 128" | "128 \<le> h" "h < 192" | "192 \<le> h" by linarith
  then show ?thesis
  proof cases
    case 1
    then show ?thesis using assms by simp
  next
    case 2
    have "(512 * h + 32768) mod 65536 = 512 * h - 32768"
      using 2 by (intro mod_unique [of _ _ _ 1]) auto
    moreover have "(512 * h - 65536 + 2 * l) mod 4294967296 = 512 * h - 65536 + 2 * l + 4294967296"
      using 2 assms by (intro mod_unique [of _ _ _ "- 1"]) auto
    ultimately show ?thesis using 2 by simp
  next
    case 3
    have "(512 * h + 32768) mod 65536 = 512 * h - 32768"
      using 3 by (intro mod_unique [of _ _ _ 1]) auto
    moreover have "(512 * h - 65536 + 2 * l) mod 4294967296 = 512 * h - 65536 + 2 * l"
      using 3 assms by (intro mod_unique [of _ _ _ 0]) auto
    ultimately show ?thesis using 3 by simp
  next
    case 4
    have "(512 * h + 32768) mod 65536 = 512 * h - 98304"
      using 4 assms by (intro mod_unique [of _ _ _ 2]) auto
    moreover have "(512 * h - 131072 + 2 * l) mod 4294967296 = 512 * h - 131072 + 2 * l + 4294967296"
      using 4 assms by (intro mod_unique [of _ _ _ "- 1"]) auto
    ultimately show ?thesis using 4 by simp
  qed
qed

text \<open>
  C13: The word address \<open>256 * hi + lo\<close> sent with command \<open>A\<close> becomes the byte address of that word
  exactly when it is below \<open>0x4000\<close>; above, the 16-bit shift overflows and its sign is extended.
\<close>

theorem boot_address_exact:
  assumes "rx_stream s = hi # lo # rest"
  shows "CurrAddress (cmd_set_address s) = of_nat (2 * (256 * unat hi + unat lo)) \<longleftrightarrow> unat hi < 64"
proof -
  let ?v = "(512 * uint hi + 32768) mod 65536 - 32768 + 2 * uint lo" and ?w = "512 * uint hi + 2 * uint lo"
  have w: "of_nat (2 * (256 * unat hi + unat lo)) = (word_of_int ?w :: u32)" by (simp add: distrib_left)
  have "?w mod 2 ^ 32 = ?w" using uint8_bounds [of hi] uint8_bounds [of lo] by simp
  then have "CurrAddress (cmd_set_address s) = of_nat (2 * (256 * unat hi + unat lo)) \<longleftrightarrow> ?v mod 2 ^ 32 = ?w"
    unfolding w cmd_set_address_effect [OF assms, THEN conjunct1] addr_of_int word_of_int_eq_iff take_bit_eq_mod
    by simp
  also have "\<dots> \<longleftrightarrow> uint hi < 64"
    using address_arith [of "uint hi" "uint lo"] uint8_bounds [of hi] uint8_bounds [of lo] by simp
  also have "\<dots> \<longleftrightarrow> unat hi < 64" by (rule uint_less_64)
  finally show ?thesis .
qed

text \<open>A state of the boot loader with packets of the host to come.\<close>

definition boot_ex :: "u8 list list \<Rightarrow> boot" where
  "boot_ex q = \<lparr>bl_flash = (\<lambda>_. 0), bl_page = (\<lambda>_. None), bl_rww = True, bl_eeprom = (\<lambda>_. 0), bl_lock = 0xFF,
     CurrAddress = 0, finished = 0, bl_rx = None, bl_rxq = q, bl_tx = [], bl_sent = [], bl_in_ready = []\<rparr>"

lemma boot_ex_simps [simp]:
  "rx_stream (boot_ex q) = concat q" "bl_page (boot_ex q) = (\<lambda>_. None)" "bl_in_ready (boot_ex q) = []"
  "bl_rx (boot_ex q) = None" "bl_rxq (boot_ex q) = q" "finished (boot_ex q) = 0" "tx_stream (boot_ex q) = []"
  "bl_flash (boot_ex q) = (\<lambda>_. 0)" "bl_tx (boot_ex q) = []" "bl_sent (boot_ex q) = []"
  by (simp_all add: boot_ex_def rx_stream_def tx_stream_def)

theorem boot_address_exact_witness:
  "CurrAddress (cmd_set_address (boot_ex [[0x40], [], [0]])) \<noteq> of_nat (2 * (256 * unat (0x40 :: u8) + unat (0 :: u8)))"
  by (subst boot_address_exact [of _ "0x40" 0 "[]"]) simp_all

section \<open>Commands\<close>

definition boot_hw_ex :: boot_hw where
  "boot_hw_ex = \<lparr>hw_refill = (\<lambda>old w. old), hw_blocked = (\<lambda>_. 0xFF), hw_fuse = (\<lambda>_. 0xFF)\<rparr>"

lemma boot_command_cases [simp]:
  "boot_command hw 0x41 s = cmd_set_address s"
  "boot_command hw 0x42 s = ReadWriteMemoryBlock hw 0x42 s"
  "boot_command hw 0x67 s = ReadWriteMemoryBlock hw 0x67 s"
  "boot_command hw 0x65 s = WriteNextResponseByte 0x0D (erase_loop 0 s)"
  by (simp_all add: boot_command_def cmd_info_def cmd_fuses_def cmd_flash_def)



lemma erase_loop_flash:
  "unat a mod 256 = 0 \<Longrightarrow> bl_page s = (\<lambda>_. None) \<Longrightarrow>
    bl_flash (erase_loop a s) n = (if unat a \<le> n \<and> n < BOOT_START_ADDR then 0xFF else bl_flash s n)"
proof (induction a s rule: erase_loop.induct)
  case (1 a s)
  show ?case
  proof (cases "unat a < BOOT_START_ADDR")
    case True
    let ?s = "boot_page_write a (boot_page_erase a s)"
    have nxt: "unat (a + of_nat SPM_PAGESIZE) = unat a + 256"
      using True by (simp add: SPM_PAGESIZE_def BOOT_START_ADDR_def unat_word_ariths)
    have fa: "flash_addr a = unat a" using True by (simp add: flash_addr_mod BOOT_START_ADDR_def)
    have fl: "bl_flash ?s n = (if n div 256 = unat a div 256 then 0xFF else bl_flash s n)"
      using 1(3) fa by (simp add: boot_page_write_def boot_page_erase_def page_byte_def page_of_def SPM_PAGESIZE_def)
    have IH: "bl_flash (erase_loop (a + of_nat SPM_PAGESIZE) ?s) n =
        (if unat a + 256 \<le> n \<and> n < BOOT_START_ADDR then 0xFF else bl_flash ?s n)"
      using 1(1) [OF True] 1(2) nxt by (simp add: boot_page_write_def mod_add_self2)
    obtain m where m: "unat a = 256 * m" using 1(2) by (auto simp: mod_eq_0_iff_dvd elim: dvdE)
    obtain b where b: "BOOT_START_ADDR = 256 * b" by (rule that [of "0x1F0"]) (simp add: BOOT_START_ADDR_def)
    have "n div 256 = unat a div 256 \<longleftrightarrow> unat a \<le> n \<and> n < unat a + 256"
      using m by (auto simp: div_nat_eqI) 
    moreover have "m < b" using True m b by simp
    then have "unat a + 256 \<le> BOOT_START_ADDR" using m b by linarith
    ultimately show ?thesis
      using True IH fl by (subst erase_loop.simps) auto
  next
    case False
    then show ?thesis by (subst erase_loop.simps) auto
  qed
qed

text \<open>
  The chip erase command leaves every byte of the application section erased and every byte of
  the boot loader section unchanged, when the temporary page buffer is empty.
\<close>

theorem boot_chip_erase:
  assumes "bl_page s = (\<lambda>_. None)"
  shows "bl_flash (boot_command hw 0x65 s) n = (if n < BOOT_START_ADDR then 0xFF else bl_flash s n)"
  using erase_loop_flash [of 0 s n] assms by (simp add: boot_frame)

theorem boot_chip_erase_witness:
  "bl_flash (boot_command boot_hw_ex 0x65 (boot_ex [])) 0x1EFFF = 0xFF \<and>
   bl_flash (boot_command boot_hw_ex 0x65 (boot_ex [])) 0x1F000 = 0"
  using boot_chip_erase [of "boot_ex []" boot_hw_ex "0x1EFFF"] boot_chip_erase [of "boot_ex []" boot_hw_ex "0x1F000"]
  by (simp add: BOOT_START_ADDR_def del: boot_command_cases)



lemma block_read_loop_frame [boot_frame]:
  "bl_flash (block_read_loop hw t n h s) = bl_flash s \<and> bl_eeprom (block_read_loop hw t n h s) = bl_eeprom s"
proof (induction n arbitrary: h s)
  case (Suc n)
  then show ?case by (cases "t = 0x46") (simp_all add: Let_def split_beta boot_frame)
qed simp

lemma block_write_loop_frame [boot_frame]: "bl_flash (block_write_loop hw t n h l s) = bl_flash s"
proof (induction n arbitrary: h l s)
  case (Suc n)
  then show ?case by (cases "t = 0x46") (simp_all add: Let_def split_beta boot_frame boot_page_fill_def eeprom_write_byte_def)
qed simp

lemma WriteResponse_frame [boot_frame]:
  "bl_flash (WriteResponse cs s) = bl_flash s" "bl_eeprom (WriteResponse cs s) = bl_eeprom s"
  by (induction cs arbitrary: s) (simp_all add: boot_frame)

lemma erase_loop_eeprom [boot_frame]: "bl_eeprom (erase_loop a s) = bl_eeprom s"
  by (induction a s rule: erase_loop.induct)
    (subst erase_loop.simps, simp add: boot_page_write_def boot_page_erase_def)

text \<open>
  Program memory changes only through the commands chip erase (e), block write (B) and page write
  (m), and the EEPROM only through byte write (D) and block write.
\<close>

theorem boot_memory_frame:
  shows "(c \<notin> {0x65, 0x42, 0x6D} \<longrightarrow> bl_flash (boot_command hw c s) = bl_flash s) \<and>
    (c \<notin> {0x44, 0x42} \<longrightarrow> bl_eeprom (boot_command hw c s) = bl_eeprom s)"
  by (simp add: boot_command_def cmd_info_def cmd_fuses_def cmd_flash_def cmd_eeprom_def cmd_unknown_def
      cmd_set_address_def ReadWriteMemoryBlock_def boot_frame split_beta Let_def boot_lock_bits_set_def
      boot_page_fill_def boot_rww_enable_def boot_page_write_def eeprom_write_byte_def)

theorem boot_memory_frame_witness:
  "bl_flash (boot_command boot_hw_ex 0x67 (boot_ex [[0, 2, 0x46]])) = (\<lambda>_. 0)"
  using boot_memory_frame [of "0x67" boot_hw_ex "boot_ex [[0, 2, 0x46]]"] by (simp del: boot_command_cases)

section \<open>Response packets\<close>

text \<open>Every packet fits the endpoint.\<close>

definition packets_ok :: "boot \<Rightarrow> bool" where
  "packets_ok s \<longleftrightarrow> length (bl_tx s) \<le> CDC_TXRX_EPSIZE \<and> (\<forall>p\<in>set (bl_sent s). length p \<le> CDC_TXRX_EPSIZE)"

named_theorems packets \<open>operations that keep the packets within the endpoint size\<close>

lemma packets_Write [packets]: "packets_ok s \<Longrightarrow> packets_ok (WriteNextResponseByte c s)"
  by (auto simp: packets_ok_def WriteNextResponseByte_def IN_full_def wait_INReady_def Endpoint_ClearIN_def
      CDC_TXRX_EPSIZE_def Let_def split: list.splits)

lemma packets_Fetch [packets]: "packets_ok s \<Longrightarrow> packets_ok (snd (FetchNextCommandByte s))"
  by (simp add: packets_ok_def FetchNextCommandByte_def split: prod.splits option.splits)

lemma packets_update [packets]:
  "packets_ok s \<Longrightarrow> packets_ok (s\<lparr>CurrAddress := a\<rparr>)" "packets_ok s \<Longrightarrow> packets_ok (s\<lparr>finished := f\<rparr>)"
  "packets_ok s \<Longrightarrow> packets_ok (boot_page_erase a s)" "packets_ok s \<Longrightarrow> packets_ok (boot_page_write a s)"
  "packets_ok s \<Longrightarrow> packets_ok (boot_page_fill hw a w s)" "packets_ok s \<Longrightarrow> packets_ok (boot_rww_enable s)"
  "packets_ok s \<Longrightarrow> packets_ok (boot_lock_bits_set b s)" "packets_ok s \<Longrightarrow> packets_ok (eeprom_write_byte a b s)"
  by (simp_all add: packets_ok_def boot_page_erase_def boot_page_write_def boot_page_fill_def boot_rww_enable_def
      boot_lock_bits_set_def eeprom_write_byte_def Let_def)

lemma packets_read_loop [packets]: "packets_ok s \<Longrightarrow> packets_ok (block_read_loop hw t n h s)"
proof (induction n arbitrary: h s)
  case (Suc n)
  then show ?case by (cases "t = 0x46") (simp_all add: Let_def split_beta packets)
qed simp

lemma packets_write_loop [packets]: "packets_ok s \<Longrightarrow> packets_ok (block_write_loop hw t n h l s)"
proof (induction n arbitrary: h l s)
  case (Suc n)
  then show ?case by (cases "t = 0x46") (simp_all add: Let_def split_beta packets)
qed simp

lemma packets_WriteResponse [packets]: "packets_ok s \<Longrightarrow> packets_ok (WriteResponse cs s)"
  by (induction cs arbitrary: s) (simp_all add: packets)

lemma packets_erase [packets]: "packets_ok s \<Longrightarrow> packets_ok (erase_loop a s)"
  by (induction a s rule: erase_loop.induct) (subst erase_loop.simps, simp add: packets)

lemma packets_command: "packets_ok s \<Longrightarrow> packets_ok (boot_command hw c s)"
  by (simp add: boot_command_def cmd_info_def cmd_fuses_def cmd_flash_def cmd_eeprom_def cmd_unknown_def
      cmd_set_address_def ReadWriteMemoryBlock_def packets split_beta Let_def)



text \<open>
  A packet with the exit command ends the main loop: the confirmation is sent and the boot loader
  leaves for the watchdog reset.
\<close>

theorem boot_exit_command:
  assumes "bl_rx s = None" "bl_rxq s = [0x45] # q" "finished s = 0" "bl_in_ready s = []" "bl_tx s = []"
  shows "\<exists>s' p'. boot_main hw True (s, p) = Some (Watchdog_reset (s', p')) \<and> finished s' = 1 \<and>
    bl_sent s' = bl_sent s @ [[0x0D]] \<and> bl_flash s' = bl_flash s"
proof -
  have h: "host_poll s = s\<lparr>bl_rx := Some [0x45], bl_rxq := q\<rparr>" using assms(1,2) by (simp add: host_poll_def)
  let ?s = "s\<lparr>bl_rx := None, bl_rxq := q, finished := 1, bl_sent := bl_sent s @ [[0x0D]]\<rparr>"
  have "CDC_Task hw (host_poll s) = ?s"
    using assms(4,5) unfolding h
    by (simp add: CDC_Task_def FetchNextCommandByte_def boot_command_def cmd_info_def WriteNextResponseByte_def
        IN_full_def CDC_TXRX_EPSIZE_def send_response_def Endpoint_ClearIN_def wait_INReady_def)
  then have "main_loop hw (s, p) = Some (?s, BL_Pulse p)"
    using assms(3) by (subst main_loop.simps, subst main_loop.simps) (simp add: main_round_def)
  then show ?thesis by (simp add: boot_main_def)
qed

theorem boot_exit_command_witness:
  "\<exists>s' p'. boot_main boot_hw_ex True (boot_ex [[0x45]], \<lparr>Pulse = 0, LED_PORT = False\<rparr>) = Some (Watchdog_reset (s', p')) \<and>
    finished s' = 1"
  using boot_exit_command [of "boot_ex [[0x45]]" "[]" boot_hw_ex "\<lparr>Pulse = 0, LED_PORT = False\<rparr>"] by auto

end
