(* ===== verification/LUFA_Descriptors.thy ===== *)
theory LUFA_Descriptors
  imports AVR_Prelude
begin

text \<open>
  The configuration descriptor parser of LUFA (\<open>USB/Core/ConfigDescriptors.c\<close> and the inline functions
  of its header) on the memory of the buffer, and the descriptors the two CDC devices of the
  repository present: the serial port of the core (\<open>USBSerialDescriptors.c\<close>) and the boot loader
  (\<open>bootloaders/AT90usb128X/CDC/Descriptors.c\<close>).

  A position is the number of bytes that remain and the offset of the current descriptor.  A read
  outside the buffer is \<open>None\<close>; so is a search that never ends.
\<close>

section \<open>The parser\<close>

type_synonym desc_pos = "u16 \<times> nat"

definition DESCRIPTOR_TYPE :: "u8 list \<Rightarrow> nat \<Rightarrow> u8 option" where
  "DESCRIPTOR_TYPE mem loc = arr_get mem (loc + 1)"

definition USB_GetNextDescriptor :: "u8 list \<Rightarrow> desc_pos \<Rightarrow> desc_pos option" where
  "USB_GetNextDescriptor mem pos =
     do { sz \<leftarrow> arr_get mem (snd pos);
          let CurrDescriptorSize = (if fst pos < ucast sz then fst pos else ucast sz);
          Some (fst pos - CurrDescriptorSize, snd pos + unat CurrDescriptorSize) }"

partial_function (option) USB_GetNextDescriptorOfType :: "u8 list \<Rightarrow> u8 \<Rightarrow> desc_pos \<Rightarrow> desc_pos option" where
  "USB_GetNextDescriptorOfType mem Type pos =
     (if fst pos \<noteq> 0
      then do { pos' \<leftarrow> USB_GetNextDescriptor mem pos;
                t \<leftarrow> DESCRIPTOR_TYPE mem (snd pos');
                if t = Type then Some pos' else USB_GetNextDescriptorOfType mem Type pos' }
      else Some pos)"

partial_function (option) USB_GetNextDescriptorOfTypeBefore ::
    "u8 list \<Rightarrow> u8 \<Rightarrow> u8 \<Rightarrow> desc_pos \<Rightarrow> desc_pos option" where
  "USB_GetNextDescriptorOfTypeBefore mem Type BeforeType pos =
     (if fst pos \<noteq> 0
      then do { pos' \<leftarrow> USB_GetNextDescriptor mem pos;
                t \<leftarrow> DESCRIPTOR_TYPE mem (snd pos');
                if t = Type then Some pos'
                else if t = BeforeType then Some (0, snd pos')
                else USB_GetNextDescriptorOfTypeBefore mem Type BeforeType pos' }
      else Some pos)"

definition USB_GetNextDescriptorOfTypeAfter :: "u8 list \<Rightarrow> u8 \<Rightarrow> u8 \<Rightarrow> desc_pos \<Rightarrow> desc_pos option" where
  "USB_GetNextDescriptorOfTypeAfter mem Type AfterType pos =
     do { pos' \<leftarrow> USB_GetNextDescriptorOfType mem AfterType pos;
          if fst pos' \<noteq> 0 then USB_GetNextDescriptorOfType mem Type pos' else Some pos' }"

text \<open>Results of a comparator: 0 found, 1 fail, 2 not found; of the search also 2, end of descriptor.\<close>

partial_function (option) USB_GetNextDescriptorComp ::
    "u8 list \<Rightarrow> (u8 list \<Rightarrow> u8) \<Rightarrow> desc_pos \<Rightarrow> (u8 \<times> desc_pos) option" where
  "USB_GetNextDescriptorComp mem ComparatorRoutine pos =
     (if fst pos \<noteq> 0
      then do { pos' \<leftarrow> USB_GetNextDescriptor mem pos;
                let ErrorCode = ComparatorRoutine (drop (snd pos') mem);
                if ErrorCode \<noteq> 2
                then Some (ErrorCode, if ErrorCode = 1 then pos else pos')
                else USB_GetNextDescriptorComp mem ComparatorRoutine pos' }
      else Some (2, pos))"

declare USB_GetNextDescriptorOfType.simps [code] USB_GetNextDescriptorOfTypeBefore.simps [code]
  USB_GetNextDescriptorComp.simps [code]

text \<open>
  Fetching the configuration descriptor of a device; \<open>send\<close> performs the control request for the given
  number of bytes and returns the error code and the bytes received.
\<close>

definition USB_Host_GetDeviceConfigDescriptor ::
    "(u16 \<Rightarrow> u16 \<Rightarrow> u8 \<times> u8 list) \<Rightarrow> u8 \<Rightarrow> u16 \<Rightarrow> u8 list \<Rightarrow> (u8 \<times> u16 \<times> u8 list) option" where
  "USB_Host_GetDeviceConfigDescriptor send ConfigNumber BufferSize buf =
     (let wValue = push_bit 8 2 OR (ucast ConfigNumber - 1);
          (e1, hdr) = send wValue 9
      in if e1 \<noteq> 0 then Some (e1, 0, buf)
         else do { lo \<leftarrow> arr_get hdr 2; hi \<leftarrow> arr_get hdr 3;
                   let ConfigSize = (push_bit 8 (ucast hi) OR ucast lo :: u16);
                   if ConfigSize > BufferSize then Some (5, ConfigSize, buf)
                   else do { let (e2, bytes) = send wValue ConfigSize;
                             let buf' = take (unat ConfigSize) bytes @ drop (length (take (unat ConfigSize) bytes)) buf;
                             if e2 \<noteq> 0 then Some (e2, ConfigSize, buf')
                             else do { t \<leftarrow> DESCRIPTOR_TYPE buf' 0;
                                       Some (if t \<noteq> 2 then 6 else 0, ConfigSize, buf') } } })"

section \<open>The descriptors of the CDC devices\<close>

definition desc_interface :: "u8 \<Rightarrow> u8 \<Rightarrow> u8 \<Rightarrow> u8 \<Rightarrow> u8 \<Rightarrow> u8 list" where
  "desc_interface num eps cls sub prot = [9, 4, num, 0, eps, cls, sub, prot, 0]"

definition desc_endpoint :: "u8 \<Rightarrow> u8 \<Rightarrow> u16 \<Rightarrow> u8 \<Rightarrow> u8 list" where
  "desc_endpoint addr attr sz ival = [7, 5, addr, attr, ucast sz, ucast (drop_bit 8 sz), ival]"

definition desc_config_header :: "u16 \<Rightarrow> u8 \<Rightarrow> u8 list" where
  "desc_config_header tot attrs = [9, 2, ucast tot, ucast (drop_bit 8 tot), 2, 1, 0, attrs, 50]"

text \<open>The parts after the header, the same for both devices.\<close>

definition cdc_parts :: "u8 list list" where
  "cdc_parts =
     [desc_interface 0 1 2 2 1,
      [5, 0x24, 0x00, 0x10, 0x01],
      [4, 0x24, 0x02, 0x06],
      [5, 0x24, 0x06, 0, 1],
      desc_endpoint 0x82 3 8 0xFF,
      desc_interface 1 2 0x0A 0 0,
      desc_endpoint 0x04 2 16 5,
      desc_endpoint 0x83 2 16 5]"

definition cdc_total :: nat where
  "cdc_total = 9 + length (concat cdc_parts)"

definition USBSerial_ConfigurationDescriptor :: "u8 list list" where
  "USBSerial_ConfigurationDescriptor = desc_config_header (of_nat cdc_total) (0x80 OR 0x40) # cdc_parts"

definition Boot_ConfigurationDescriptor :: "u8 list list" where
  "Boot_ConfigurationDescriptor = desc_config_header (of_nat cdc_total) 0x80 # cdc_parts"

definition USBSerial_DeviceDescriptor :: "u8 list" where
  "USBSerial_DeviceDescriptor = [18, 1, 0x10, 0x01, 2, 0, 0, 8, 0xEB, 0x03, 0x44, 0x20, 0x01, 0x00, 1, 2, 3, 1]"

definition Boot_DeviceDescriptor :: "u8 \<Rightarrow> u8 list" where
  "Boot_DeviceDescriptor ep0size = [18, 1, 0x10, 0x01, 2, 0, 0, ep0size, 0xEB, 0x03, 0x4A, 0x20, 0x00, 0x01, 1, 2, 0, 1]"

text \<open>String descriptors: two bytes of header, then 16-bit characters.\<close>

definition desc_string :: "u16 list \<Rightarrow> u8 list" where
  "desc_string cs = [of_nat (2 + 2 * length cs), 3] @ concat (map (\<lambda>c. [ucast c, ucast (drop_bit 8 c)]) cs)"

definition wide :: "string \<Rightarrow> u16 list" where
  "wide cs = map (\<lambda>c. of_nat (of_char c)) cs"

definition USBSerial_GetDescriptor :: "u16 \<Rightarrow> u8 list option" where
  "USBSerial_GetDescriptor wValue =
     (let DescriptorType = drop_bit 8 wValue; DescriptorNumber = wValue AND 0xFF in
      if DescriptorType = 1 then Some USBSerial_DeviceDescriptor
      else if DescriptorType = 2 then Some (concat USBSerial_ConfigurationDescriptor)
      else if DescriptorType = 3
      then (if DescriptorNumber = 0 then Some (desc_string [0x0409])
            else if DescriptorNumber = 1 then Some (desc_string (wide ''Dynamic Perception LLC''))
            else if DescriptorNumber = 2 then Some (desc_string (wide ''Dynamic Perception CDC Serial''))
            else if DescriptorNumber = 3 then Some (desc_string (wide ''004573''))
            else None)
      else None)"

text \<open>The block returned is the contents of the object whose address the callback returns, whichever memory it is in.\<close>

definition Boot_GetDescriptor :: "u8 \<Rightarrow> u16 \<Rightarrow> u8 list option" where
  "Boot_GetDescriptor ep0size wValue =
     (let DescriptorType = drop_bit 8 wValue; DescriptorNumber = wValue AND 0xFF in
      if DescriptorType = 1 then Some (Boot_DeviceDescriptor ep0size)
      else if DescriptorType = 2 then Some (concat Boot_ConfigurationDescriptor)
      else if DescriptorType = 3
      then (if DescriptorNumber = 0 then Some (desc_string [0x0409])
            else if DescriptorNumber = 1 then Some (desc_string (wide ''Dean Camera''))
            else if DescriptorNumber = 2 then Some (desc_string (wide ''LUFA CDC Bootloader''))
            else None)
      else None)"

section \<open>Well-formed descriptor blocks\<close>

text \<open>A sub-descriptor starts with its own size and has a type.\<close>

definition desc_ok :: "u8 list \<Rightarrow> bool" where
  "desc_ok d \<longleftrightarrow> 2 \<le> length d \<and> length d < 256 \<and> unat (d ! 0) = length d"

lemma desc_ok_hd: "desc_ok d \<Longrightarrow> \<exists>x y zs. d = x # y # zs \<and> unat x = length d"
  by (cases d; cases "tl d") (auto simp: desc_ok_def)

lemma arr_get_mid: "arr_get (p @ x # q) (length p) = Some x"
  by (simp add: arr_get_def)

lemma GetNext_block:
  assumes "desc_ok d" "length (d @ concat ds) < 65536" "mem = p @ d @ concat ds @ tail"
  shows "USB_GetNextDescriptor mem (of_nat (length (d @ concat ds)), length p) =
    Some (of_nat (length (concat ds)), length p + length d)"
proof -
  obtain x y zs where d: "d = x # y # zs" "unat x = length d" using desc_ok_hd [OF assms(1)] by blast
  have x: "unat (ucast x :: u16) = length d"
    using d(2) assms(1) by (simp add: desc_ok_def unsigned_ucast_eq take_bit_eq_mod)
  have "ucast x \<le> (of_nat (length (d @ concat ds)) :: u16)"
    using x assms(2) by (simp add: word_le_nat_alt unat_of_nat del: of_nat_add)
  moreover have "(ucast x :: u16) = of_nat (length d)"
    using x assms(1) by (simp add: word_unat_eq_iff unat_of_nat desc_ok_def)
  then have "(of_nat (length (d @ concat ds)) :: u16) - ucast x = of_nat (length (concat ds))" by simp
  moreover have "arr_get mem (length p) = Some x"
    using assms(3) d(1) arr_get_mid [of p x] by simp
  ultimately show ?thesis using x
    by (simp add: USB_GetNextDescriptor_def Let_def linorder_not_less [symmetric])
qed

lemma block_type:
  assumes "desc_ok e" "mem = p @ e @ rest"
  shows "DESCRIPTOR_TYPE mem (length p) = Some (e ! 1)"
proof -
  obtain x y zs where "e = x # y # zs" using desc_ok_hd [OF assms(1)] by blast
  then show ?thesis using assms(2) arr_get_mid [of "p @ [x]" y] by (simp add: DESCRIPTOR_TYPE_def)
qed

lemma OfType_block:
  fixes Type :: u8
  assumes "desc_ok d" "\<forall>e\<in>set ds. desc_ok e" "length (d @ concat ds) < 65536"
    "mem = p @ d @ concat ds @ tail" "2 \<le> length tail"
  defines "rest \<equiv> dropWhile (\<lambda>e. e ! 1 \<noteq> Type) ds"
  shows "USB_GetNextDescriptorOfType mem Type (of_nat (length (d @ concat ds)), length p) =
    Some (of_nat (length (concat rest)), length p + length (d @ concat ds) - length (concat rest))"
  using assms(1-4) unfolding rest_def
proof (induction ds arbitrary: d p)
  case Nil
  have "length d \<noteq> 0" using Nil(1) by (auto simp: desc_ok_def)
  moreover have "unat (of_nat (length d) :: u16) = length d" using Nil(3) by (simp add: unat_of_nat)
  ultimately have nz: "(of_nat (length d) :: u16) \<noteq> 0" by (metis unat_0)
  obtain t where "DESCRIPTOR_TYPE mem (length p + length d) = Some t"
    using Nil(4) assms(5) by (auto simp: DESCRIPTOR_TYPE_def arr_get_def)
  then show ?case
    using nz GetNext_block [OF Nil(1), of "[]" mem p tail] Nil(3,4)
    by (subst USB_GetNextDescriptorOfType.simps, subst USB_GetNextDescriptorOfType.simps) simp
next
  case (Cons e ds)
  have e: "desc_ok e" using Cons.prems(2) by simp
  have "length d \<noteq> 0" using Cons.prems(1) by (auto simp: desc_ok_def)
  moreover have "unat (of_nat (length (d @ concat (e # ds))) :: u16) = length (d @ concat (e # ds))"
    using Cons.prems(3) by (simp add: unat_of_nat del: of_nat_add)
  ultimately have nz: "(of_nat (length (d @ concat (e # ds))) :: u16) \<noteq> 0" by (metis unat_0 length_append add_is_0)
  have mem: "mem = (p @ d) @ e @ concat ds @ tail" using Cons.prems(4) by simp
  note step = GetNext_block [OF Cons.prems(1,3,4)] and t = block_type [OF e mem]
  show ?case
  proof (cases "e ! 1 = Type")
    case True
    then show ?thesis using nz step t
      by (subst USB_GetNextDescriptorOfType.simps) (simp del: of_nat_add)
  next
    case False
    have "length (e @ concat ds) < 65536" using Cons.prems(3) by simp
    then have "USB_GetNextDescriptorOfType mem Type (of_nat (length (e @ concat ds)), length (p @ d)) =
      Some (of_nat (length (concat (dropWhile (\<lambda>e. e ! 1 \<noteq> Type) ds))),
        length (p @ d) + length (e @ concat ds) - length (concat (dropWhile (\<lambda>e. e ! 1 \<noteq> Type) ds)))"
      using Cons.IH [OF e _ _ mem] Cons.prems(2) by simp
    then show ?thesis using False nz step t
      by (subst USB_GetNextDescriptorOfType.simps) (simp add: add.assoc del: of_nat_add)
  qed
qed

text \<open>
  C16: On a block of well-formed sub-descriptors the search stops at the next one of the wanted type,
  with the number of bytes from there to the end, and with no bytes remaining when there is none.
\<close>

theorem descriptor_search_correct:
  assumes "desc_ok d" "\<forall>e\<in>set ds. desc_ok e" "length (d @ concat ds) < 65536" "2 \<le> length tail"
  shows "USB_GetNextDescriptorOfType (p @ d @ concat ds @ tail) Type (of_nat (length (d @ concat ds)), length p) =
    Some (of_nat (length (concat (dropWhile (\<lambda>e. e ! 1 \<noteq> Type) ds))),
      length p + length (d @ concat ds) - length (concat (dropWhile (\<lambda>e. e ! 1 \<noteq> Type) ds)))"
  using OfType_block [OF assms(1-3) refl assms(4)] .

theorem descriptor_search_correct_witness:
  "USB_GetNextDescriptorOfType (desc_config_header 16 0x80 @ desc_endpoint 0x82 3 8 0xFF @ [0, 0]) 5 (16, 0) = Some (7, 9)"
  using descriptor_search_correct [of "desc_config_header 16 0x80" "[desc_endpoint 0x82 3 8 0xFF]" "[0, 0]" "[]" 5]
  by (simp add: desc_ok_def desc_config_header_def desc_endpoint_def)

text \<open>
  A sub-descriptor of size zero, which an attached device may send, makes the search run forever.
\<close>

theorem descriptor_search_hangs:
  assumes "arr_get mem loc = Some 0" "DESCRIPTOR_TYPE mem loc = Some t" "t \<noteq> Type" "rem \<noteq> 0"
  shows "USB_GetNextDescriptorOfType mem Type (rem, loc) = None"
proof -
  have next_same: "USB_GetNextDescriptor mem (rem, loc) = Some (rem, loc)"
    using assms(1) by (simp add: USB_GetNextDescriptor_def)
  let ?P = "\<lambda>m ty pos r. \<not> (m = mem \<and> ty = Type \<and> pos = (rem, loc))"
  have "?P m ty pos r" if eq: "USB_GetNextDescriptorOfType m ty pos = Some r" for m ty pos r
  proof (rule USB_GetNextDescriptorOfType.raw_induct [where P = ?P, OF _ eq])
    fix f m ty pos r
    assume IH: "\<And>m ty pos r. f m ty pos = Some r \<Longrightarrow> ?P m ty pos r"
      and body: "(if fst pos \<noteq> 0
        then do { pos' \<leftarrow> USB_GetNextDescriptor m pos; t \<leftarrow> DESCRIPTOR_TYPE m (snd pos');
                  if t = ty then Some pos' else f m ty pos' }
        else Some pos) = Some r"
    show "?P m ty pos r"
    proof
      assume "m = mem \<and> ty = Type \<and> pos = (rem, loc)"
      with body next_same assms(2-4) have "f mem Type (rem, loc) = Some r" by simp
      from IH [OF this] show False by simp
    qed
  qed
  then show ?thesis by (metis not_Some_eq)
qed

theorem descriptor_search_hangs_witness:
  "USB_GetNextDescriptorOfType [0, 0x24, 0, 0] 5 (4, 0) = None"
  using descriptor_search_hangs [of "[0, 0x24, 0, 0]" 0 "0x24" 5 4] by (simp add: DESCRIPTOR_TYPE_def)

text \<open>
  When no sub-descriptor of the wanted type follows, the search reads the type of a descriptor that
  would start at the end of the configuration, one byte past a buffer of exactly that size.
\<close>

theorem descriptor_search_reads_past_end:
  assumes "desc_ok d" "\<forall>e\<in>set ds. desc_ok e \<and> e ! 1 \<noteq> Type" "length (d @ concat ds) < 65536"
  shows "USB_GetNextDescriptorOfType (p @ d @ concat ds) Type (of_nat (length (d @ concat ds)), length p) = None"
  using assms
proof (induction ds arbitrary: d p)
  case Nil
  have "length d \<noteq> 0" using Nil(1) by (auto simp: desc_ok_def)
  moreover have "unat (of_nat (length d) :: u16) = length d" using Nil(3) by (simp add: unat_of_nat)
  ultimately have "(of_nat (length d) :: u16) \<noteq> 0" by (metis unat_0)
  then show ?case
    using GetNext_block [OF Nil(1), of "[]" "p @ d" p "[]"] Nil(3)
    by (subst USB_GetNextDescriptorOfType.simps) (simp add: DESCRIPTOR_TYPE_def arr_get_def)
next
  case (Cons e ds)
  have e: "desc_ok e" "e ! 1 \<noteq> Type" using Cons.prems(2) by auto
  have "length d \<noteq> 0" using Cons.prems(1) by (auto simp: desc_ok_def)
  moreover have "unat (of_nat (length (d @ concat (e # ds))) :: u16) = length (d @ concat (e # ds))"
    using Cons.prems(3) by (simp add: unat_of_nat del: of_nat_add)
  ultimately have nz: "(of_nat (length (d @ concat (e # ds))) :: u16) \<noteq> 0" by (metis unat_0 length_append add_is_0)
  have mem: "p @ d @ concat (e # ds) = (p @ d) @ e @ concat ds" by simp
  have "USB_GetNextDescriptorOfType ((p @ d) @ e @ concat ds) Type (of_nat (length (e @ concat ds)), length (p @ d)) = None"
    using Cons.prems(2,3) e(1) by (intro Cons.IH) auto
  then show ?case
    using e(2) nz GetNext_block [OF Cons.prems(1,3), of _ p "[]"] block_type [OF e(1) mem]
    by (subst USB_GetNextDescriptorOfType.simps) (simp del: of_nat_add)
qed

theorem descriptor_search_reads_past_end_witness:
  "USB_GetNextDescriptorOfType (desc_config_header 16 0x80 @ desc_endpoint 0x82 3 8 0xFF) 0x21 (16, 0) = None"
  using descriptor_search_reads_past_end [of "desc_config_header 16 0x80" "[desc_endpoint 0x82 3 8 0xFF]" "0x21" "[]"]
  by (simp add: desc_ok_def desc_config_header_def desc_endpoint_def)

text \<open>
  Fetching a configuration descriptor never changes memory outside the given buffer, whatever size
  the device claims.
\<close>

theorem host_get_config_bounded:
  assumes "USB_Host_GetDeviceConfigDescriptor send n BufferSize buf = Some (e, sz, buf')"
    and "unat BufferSize \<le> length buf"
  shows "length buf' = length buf"
  using assms
  by (auto simp: USB_Host_GetDeviceConfigDescriptor_def Let_def bind_eq_Some_conv word_less_nat_alt not_less
      split: prod.splits if_splits)

definition send_ex :: "u16 \<Rightarrow> u16 \<Rightarrow> u8 \<times> u8 list" where
  "send_ex wValue n = (0, take (unat n) (concat USBSerial_ConfigurationDescriptor))"

theorem host_get_config_bounded_witness:
  "\<exists>e sz buf'. USB_Host_GetDeviceConfigDescriptor send_ex 1 64 (replicate 64 0) = Some (e, sz, buf') \<and> length buf' = 64"
proof -
  have "USB_Host_GetDeviceConfigDescriptor send_ex 1 64 (replicate 64 0) \<noteq> None" by code_simp
  then show ?thesis using host_get_config_bounded [of send_ex 1 64 "replicate 64 0"] by auto
qed

definition config_ok :: "u8 list list \<Rightarrow> bool" where
  "config_ok c \<longleftrightarrow> list_all desc_ok c \<and>
     unat (hd c ! 2) + 256 * unat (hd c ! 3) = length (concat c) \<and>
     unat (hd c ! 4) = length (filter (\<lambda>d. d ! 1 = 4) c) \<and>
     sum_list (map (\<lambda>d. unat (d ! 4)) (filter (\<lambda>d. d ! 1 = 4) c)) = length (filter (\<lambda>d. d ! 1 = 5) c)"


end
