(* ===== verification/LUFA_Device.thy ===== *)
theory LUFA_Device
  imports LUFA_Descriptors
begin

text \<open>
  Device mode of the LUFA stack: the control endpoint streams (\<open>Template_Endpoint_Control_W.c\<close>,
  \<open>Template_Endpoint_Control_R.c\<close>), the end of the status stage (\<open>Endpoint_AVR8.c\<close>), the standard
  requests (\<open>DeviceStandardReq.c\<close>) and the device task (\<open>USBTask.c\<close>), for the default options.

  The bus is the history of what the successive passes of the wait loops see; an operation whose
  history ends while it still waits has no result (\<open>None\<close>).
\<close>

section \<open>Control endpoint streams\<close>

datatype ep_event = Ev_Unattached | Ev_Suspended | Ev_Setup | Ev_Out "u8 list" | Ev_InReady | Ev_Idle

datatype stream_result = RWC_NoError | RWC_HostAborted | RWC_DeviceDisconnected | RWC_BusSuspended

text \<open>
  The data stage of a control read.  The loop result is \<open>None\<close> when it is left normally; an OUT packet
  that ends it stays pending for the status stage.
\<close>

fun control_W_loop ::
    "nat \<Rightarrow> ep_event list \<Rightarrow> u8 list \<Rightarrow> bool \<Rightarrow> u8 list list \<Rightarrow> (stream_result option \<times> u8 list list \<times> ep_event list) option" where
  "control_W_loop epsize evs dat LastPacketFull sent =
     (if dat = [] \<and> \<not> LastPacketFull then Some (None, sent, evs)
      else (case evs of
              [] \<Rightarrow> None
            | Ev_Unattached # evs' \<Rightarrow> Some (Some RWC_DeviceDisconnected, sent, evs')
            | Ev_Suspended # evs' \<Rightarrow> Some (Some RWC_BusSuspended, sent, evs')
            | Ev_Setup # evs' \<Rightarrow> Some (Some RWC_HostAborted, sent, evs')
            | Ev_Out p # evs' \<Rightarrow> Some (None, sent, evs)
            | Ev_InReady # evs' \<Rightarrow>
                control_W_loop epsize evs' (drop epsize dat) (length (take epsize dat) = epsize) (sent @ [take epsize dat])
            | Ev_Idle # evs' \<Rightarrow> control_W_loop epsize evs' dat LastPacketFull sent))"

declare control_W_loop.simps [simp del]

fun wait_OUT :: "ep_event list \<Rightarrow> (stream_result \<times> ep_event list) option" where
  "wait_OUT [] = None"
| "wait_OUT (Ev_Out p # evs) = Some (RWC_NoError, evs)"
| "wait_OUT (Ev_Unattached # evs) = Some (RWC_DeviceDisconnected, evs)"
| "wait_OUT (Ev_Suspended # evs) = Some (RWC_BusSuspended, evs)"
| "wait_OUT (_ # evs) = wait_OUT evs"

definition Endpoint_Write_Control_Stream_LE ::
    "nat \<Rightarrow> nat \<Rightarrow> u8 list \<Rightarrow> ep_event list \<Rightarrow> (stream_result \<times> u8 list list \<times> ep_event list) option" where
  "Endpoint_Write_Control_Stream_LE epsize wLength Buffer evs =
     (let dat = (if length Buffer > wLength then take wLength Buffer else Buffer);
          sent = (if \<not> length Buffer > wLength \<and> Buffer = [] then [[]] else [])
      in do { (r, sent', evs') \<leftarrow> control_W_loop epsize evs dat False sent;
              case r of
                Some e \<Rightarrow> Some (e, sent', evs')
              | None \<Rightarrow> do { (e, evs2) \<leftarrow> wait_OUT evs'; Some (e, sent', evs2) } })"

fun control_R_loop ::
    "ep_event list \<Rightarrow> nat \<Rightarrow> u8 list \<Rightarrow> (stream_result option \<times> u8 list \<times> ep_event list) option" where
  "control_R_loop evs 0 got = Some (None, got, evs)"
| "control_R_loop [] (Suc n) got = None"
| "control_R_loop (e # evs) (Suc n) got =
     (case e of
        Ev_Unattached \<Rightarrow> Some (Some RWC_DeviceDisconnected, got, evs)
      | Ev_Suspended \<Rightarrow> Some (Some RWC_BusSuspended, got, evs)
      | Ev_Setup \<Rightarrow> Some (Some RWC_HostAborted, got, evs)
      | Ev_Out p \<Rightarrow> control_R_loop evs (Suc n - length p) (got @ take (Suc n) p)
      | _ \<Rightarrow> control_R_loop evs (Suc n) got)"

fun wait_IN :: "ep_event list \<Rightarrow> (stream_result \<times> ep_event list) option" where
  "wait_IN [] = None"
| "wait_IN (Ev_InReady # evs) = Some (RWC_NoError, evs)"
| "wait_IN (Ev_Unattached # evs) = Some (RWC_DeviceDisconnected, evs)"
| "wait_IN (Ev_Suspended # evs) = Some (RWC_BusSuspended, evs)"
| "wait_IN (_ # evs) = wait_IN evs"

definition Endpoint_Read_Control_Stream_LE ::
    "nat \<Rightarrow> ep_event list \<Rightarrow> (stream_result \<times> u8 list \<times> ep_event list) option" where
  "Endpoint_Read_Control_Stream_LE n evs =
     do { (r, got, evs') \<leftarrow> control_R_loop evs n [];
          case r of
            Some e \<Rightarrow> Some (e, got, evs')
          | None \<Rightarrow> do { (e, evs2) \<leftarrow> wait_IN evs'; Some (e, got, evs2) } }"

section \<open>Device state\<close>

datatype dev_state =
  DS_Unattached | DS_Powered | DS_Default | DS_Addressed | DS_Configured | DS_Suspended

record usb_dev =
  ud_bmRequestType :: u8
  ud_bRequest :: u8
  ud_wValue :: u16
  ud_wIndex :: u16
  ud_wLength :: u16
  ud_setup :: bool
  ud_state :: dev_state
  ud_config :: u8
  ud_self_powered :: bool
  ud_remote_wakeup :: bool
  ud_addr :: u8
  ud_ep_enabled :: "nat \<Rightarrow> bool"
  ud_ep_stalled :: "nat \<Rightarrow> bool"
  ud_ep_resets :: "nat list"
  ud_sent :: "u8 list list"
  ud_config_events :: nat
  ud_evs :: "ep_event list"

text \<open>What the application and the part provide: descriptors, control request hook, signature row.\<close>

record usb_app =
  app_GetDescriptor :: "u16 \<Rightarrow> u8 \<Rightarrow> u8 list option"
  app_ControlRequest :: "usb_dev \<Rightarrow> usb_dev"
  app_signature :: "nat \<Rightarrow> u8"
  app_ep0size :: nat

definition Endpoint_ClearSETUP :: "usb_dev \<Rightarrow> usb_dev" where
  "Endpoint_ClearSETUP d = d\<lparr>ud_setup := False\<rparr>"

definition send_packet :: "u8 list \<Rightarrow> usb_dev \<Rightarrow> usb_dev" where
  "send_packet p d = d\<lparr>ud_sent := ud_sent d @ [p]\<rparr>"

text \<open>
  The end of the status stage waits for the packet of the host, or until it detaches; the status of a
  request to the device is an empty IN packet.
\<close>

fun status_wait :: "bool \<Rightarrow> ep_event list \<Rightarrow> (bool \<times> ep_event list) option" where
  "status_wait to_host [] = None"
| "status_wait to_host (Ev_Unattached # evs) = Some (False, evs)"
| "status_wait to_host (Ev_Out p # evs) = (if to_host then Some (True, evs) else status_wait to_host evs)"
| "status_wait to_host (Ev_InReady # evs) = (if to_host then status_wait to_host evs else Some (True, evs))"
| "status_wait to_host (_ # evs) = status_wait to_host evs"

definition Endpoint_ClearStatusStage :: "usb_dev \<Rightarrow> usb_dev option" where
  "Endpoint_ClearStatusStage d =
     (let to_host = (ud_bmRequestType d AND 0x80 \<noteq> 0) in
      do { (ok, evs) \<leftarrow> status_wait to_host (ud_evs d);
           let d1 = d\<lparr>ud_evs := evs\<rparr>;
           Some (if ok \<and> \<not> to_host then send_packet [] d1 else d1) })"

section \<open>Standard requests\<close>

text \<open>The wait after the status stage of \<open>SET_ADDRESS\<close> tests only the IN endpoint.\<close>

fun wait_INReady_forever :: "ep_event list \<Rightarrow> ep_event list option" where
  "wait_INReady_forever [] = None"
| "wait_INReady_forever (e # evs) = (if e = Ev_InReady then Some evs else wait_INReady_forever evs)"

definition USB_Device_SetAddress :: "usb_dev \<Rightarrow> usb_dev option" where
  "USB_Device_SetAddress d =
     (let DeviceAddress = (ucast (ud_wValue d) AND 0x7F :: u8);
          d1 = Endpoint_ClearSETUP (d\<lparr>ud_addr := (ud_addr d AND 0x80) OR (DeviceAddress AND 0x7F)\<rparr>)
      in do { d2 \<leftarrow> Endpoint_ClearStatusStage d1;
              evs \<leftarrow> wait_INReady_forever (ud_evs d2);
              Some (d2\<lparr>ud_evs := evs, ud_addr := ud_addr d2 OR 0x80,
                       ud_state := if DeviceAddress \<noteq> 0 then DS_Addressed else DS_Default\<rparr>) })"

definition USB_Device_SetConfiguration :: "usb_app \<Rightarrow> usb_dev \<Rightarrow> usb_dev option" where
  "USB_Device_SetConfiguration app d =
     (case app_GetDescriptor app (push_bit 8 1) 0 of
        None \<Rightarrow> Some d
      | Some desc \<Rightarrow>
          do { n \<leftarrow> arr_get desc 17;
               if (ucast (ud_wValue d) :: u8) > n then Some d
               else do { let d1 = (Endpoint_ClearSETUP d)\<lparr>ud_config := ucast (ud_wValue d)\<rparr>;
                         d2 \<leftarrow> Endpoint_ClearStatusStage d1;
                         let st = (if ud_config d2 \<noteq> 0 then DS_Configured
                                   else if ud_addr d2 AND 0x80 \<noteq> 0 then DS_Configured else DS_Powered);
                         Some (d2\<lparr>ud_state := st, ud_config_events := ud_config_events d2 + 1\<rparr>) } })"

definition USB_Device_GetConfiguration :: "usb_dev \<Rightarrow> usb_dev option" where
  "USB_Device_GetConfiguration d =
     Endpoint_ClearStatusStage (send_packet [ud_config d] (Endpoint_ClearSETUP d))"

text \<open>The serial number of the part: twenty hexadecimal digits of the signature row from \<open>0x0E\<close>.\<close>

definition serial_char :: "(nat \<Rightarrow> u8) \<Rightarrow> nat \<Rightarrow> u16" where
  "serial_char sig n =
     (let b = sig (0x0E + n div 2); nib = (if odd n then drop_bit 4 b else b) AND 0x0F
      in if nib \<ge> 10 then 0x41 - 10 + ucast nib else 0x30 + ucast nib)"

definition USB_Device_GetSerialString :: "(nat \<Rightarrow> u8) \<Rightarrow> u16 list" where
  "USB_Device_GetSerialString sig = map (serial_char sig) [0..<20]"

definition send_control :: "usb_app \<Rightarrow> u8 list \<Rightarrow> usb_dev \<Rightarrow> usb_dev option" where
  "send_control app bytes d =
     do { (e, sent, evs) \<leftarrow> Endpoint_Write_Control_Stream_LE (app_ep0size app) (unat (ud_wLength d)) bytes (ud_evs d);
          Some (d\<lparr>ud_sent := ud_sent d @ sent, ud_evs := evs\<rparr>) }"

definition USB_Device_GetInternalSerialDescriptor :: "usb_app \<Rightarrow> usb_dev \<Rightarrow> usb_dev option" where
  "USB_Device_GetInternalSerialDescriptor app d =
     send_control app (desc_string (USB_Device_GetSerialString (app_signature app))) (Endpoint_ClearSETUP d)"

definition USB_Device_GetDescriptor :: "usb_app \<Rightarrow> usb_dev \<Rightarrow> usb_dev option" where
  "USB_Device_GetDescriptor app d =
     (if ud_wValue d = (push_bit 8 3 OR 0xDC) then USB_Device_GetInternalSerialDescriptor app d
      else (case app_GetDescriptor app (ud_wValue d) (ucast (ud_wIndex d)) of
              None \<Rightarrow> Some d
            | Some desc \<Rightarrow> send_control app desc (Endpoint_ClearSETUP d)))"

definition ep_index :: "usb_dev \<Rightarrow> nat" where
  "ep_index d = unat ((ucast (ud_wIndex d) :: u8) AND 0x0F)"

definition USB_Device_GetStatus :: "usb_dev \<Rightarrow> usb_dev option" where
  "USB_Device_GetStatus d =
     (let status = (if ud_bmRequestType d = 0x80
                    then Some ((if ud_self_powered d then 1 else 0) OR (if ud_remote_wakeup d then 2 else 0) :: u8)
                    else if ud_bmRequestType d = 0x82 then Some (if ud_ep_stalled d (ep_index d) then 1 else 0)
                    else None)
      in case status of
           None \<Rightarrow> Some d
         | Some CurrentStatus \<Rightarrow>
             Endpoint_ClearStatusStage (send_packet [CurrentStatus, 0] (Endpoint_ClearSETUP d)))"

definition USB_Device_ClearSetFeature :: "usb_dev \<Rightarrow> usb_dev option" where
  "USB_Device_ClearSetFeature d =
     (let recipient = ud_bmRequestType d AND 0x1F; feature = (ucast (ud_wValue d) :: u8); done = (\<lambda>d. Endpoint_ClearStatusStage (Endpoint_ClearSETUP d))
      in if recipient = 0
         then (if feature = 1 then done (d\<lparr>ud_remote_wakeup := (ud_bRequest d = 3)\<rparr>) else Some d)
         else if recipient = 2
         then (if feature = 0
               then (let i = ep_index d in
                     if i = 0 then Some d
                     else if ud_ep_enabled d i
                     then (if ud_bRequest d = 3 then done (d\<lparr>ud_ep_stalled := (ud_ep_stalled d)(i := True)\<rparr>)
                           else done (d\<lparr>ud_ep_stalled := (ud_ep_stalled d)(i := False), ud_ep_resets := ud_ep_resets d @ [i]\<rparr>))
                     else done d)
               else done d)
         else Some d)"

definition standard_request :: "usb_app \<Rightarrow> usb_dev \<Rightarrow> usb_dev option" where
  "standard_request app d =
     (let t = ud_bmRequestType d; r = ud_bRequest d in
      if r = 0 then (if t = 0x80 \<or> t = 0x82 then USB_Device_GetStatus d else Some d)
      else if r = 1 \<or> r = 3 then (if t = 0x00 \<or> t = 0x02 then USB_Device_ClearSetFeature d else Some d)
      else if r = 5 then (if t = 0x00 then USB_Device_SetAddress d else Some d)
      else if r = 6 then (if t = 0x80 \<or> t = 0x81 then USB_Device_GetDescriptor app d else Some d)
      else if r = 8 then (if t = 0x80 then USB_Device_GetConfiguration d else Some d)
      else if r = 9 then (if t = 0x00 then USB_Device_SetConfiguration app d else Some d)
      else Some d)"

text \<open>The eight bytes of the SETUP packet.\<close>

fun read_header :: "u8 list \<Rightarrow> usb_dev \<Rightarrow> usb_dev option" where
  "read_header [t, r, v0, v1, i0, i1, l0, l1] d =
     Some (d\<lparr>ud_bmRequestType := t, ud_bRequest := r,
             ud_wValue := ucast v0 OR push_bit 8 (ucast v1), ud_wIndex := ucast i0 OR push_bit 8 (ucast i1),
             ud_wLength := ucast l0 OR push_bit 8 (ucast l1)\<rparr>)"
| "read_header _ d = None"

text \<open>The last component is whether the control endpoint was stalled.\<close>

definition USB_Device_ProcessControlRequest :: "usb_app \<Rightarrow> u8 list \<Rightarrow> usb_dev \<Rightarrow> (usb_dev \<times> bool) option" where
  "USB_Device_ProcessControlRequest app hdr d =
     do { d0 \<leftarrow> read_header hdr d;
          let d1 = app_ControlRequest app d0;
          d2 \<leftarrow> (if ud_setup d1 then standard_request app d1 else Some d1);
          Some (if ud_setup d2 then (Endpoint_ClearSETUP d2, True) else (d2, False)) }"

definition USB_DeviceTask :: "usb_app \<Rightarrow> u8 list \<Rightarrow> usb_dev \<Rightarrow> (usb_dev \<times> bool) option" where
  "USB_DeviceTask app hdr d =
     (if ud_state d = DS_Unattached then Some (d, False)
      else if ud_setup d then USB_Device_ProcessControlRequest app hdr d else Some (d, False))"

section \<open>Packets of a control read\<close>

text \<open>The packets that carry a block: full ones, then one that is short.\<close>

function chunks :: "nat \<Rightarrow> u8 list \<Rightarrow> u8 list list" where
  "chunks e xs = (if e = 0 \<or> length xs < e then [xs] else take e xs # chunks e (drop e xs))"
  by pat_completeness auto
termination
  by (relation "measure (\<lambda>(_, xs). length xs)") auto

declare chunks.simps [simp del]

lemma chunks_short [simp]: "length xs < e \<Longrightarrow> chunks e xs = [xs]"
  by (subst chunks.simps) simp

lemma chunks_full: "0 < e \<Longrightarrow> e \<le> length xs \<Longrightarrow> chunks e xs = take e xs # chunks e (drop e xs)"
  by (subst chunks.simps) simp

lemma chunks_nonempty [simp]: "chunks e xs \<noteq> []"
  by (subst chunks.simps) simp

lemma concat_chunks: "concat (chunks e xs) = xs"
proof (induction e xs rule: chunks.induct)
  case (1 e xs)
  then show ?case by (subst chunks.simps) simp
qed

lemma chunks_lengths:
  assumes "0 < e"
  shows "list_all (\<lambda>p. length p = e) (butlast (chunks e xs)) \<and> length (last (chunks e xs)) < e"
proof (induction "length xs" arbitrary: xs rule: less_induct)
  case less
  show ?case
  proof (cases "length xs < e")
    case False
    then have "length (drop e xs) < length xs" using assms by simp
    from less [OF this] show ?thesis using False assms by (simp add: chunks_full)
  qed simp
qed

lemma length_chunks:
  assumes "0 < e"
  shows "length (chunks e xs) = length xs div e + 1"
proof (induction "length xs" arbitrary: xs rule: less_induct)
  case less
  show ?case
  proof (cases "length xs < e")
    case False
    then have "length (drop e xs) < length xs" using assms by simp
    from less [OF this] show ?thesis using False assms by (simp add: chunks_full le_div_geq)
  qed simp
qed

lemma W_step:
  assumes "dat \<noteq> [] \<or> full"
  shows "control_W_loop e [] dat full sent = None"
    "control_W_loop e (Ev_Unattached # evs) dat full sent = Some (Some RWC_DeviceDisconnected, sent, evs)"
    "control_W_loop e (Ev_Suspended # evs) dat full sent = Some (Some RWC_BusSuspended, sent, evs)"
    "control_W_loop e (Ev_Setup # evs) dat full sent = Some (Some RWC_HostAborted, sent, evs)"
    "control_W_loop e (Ev_Out p # evs) dat full sent = Some (None, sent, Ev_Out p # evs)"
    "control_W_loop e (Ev_InReady # evs) dat full sent =
      control_W_loop e evs (drop e dat) (e \<le> length dat) (sent @ [take e dat])"
    "control_W_loop e (Ev_Idle # evs) dat full sent = control_W_loop e evs dat full sent"
  using assms by (auto simp: control_W_loop.simps [of e _ dat full] min_def eq_commute [of e "length dat"])

lemma W_done: "control_W_loop e evs [] False sent = Some (None, sent, evs)"
  by (simp add: control_W_loop.simps)

lemma control_W_loop_prefix:
  assumes "0 < e"
  shows "control_W_loop e evs dat full sent = Some (r, sent', evs') \<Longrightarrow> dat \<noteq> [] \<or> full \<Longrightarrow>
    \<exists>n. sent' = sent @ take n (chunks e dat)"
proof (induction evs arbitrary: dat full sent)
  case Nil
  then show ?case by (simp add: W_step)
next
  case (Cons ev evs)
  note W = W_step [OF Cons.prems(2)]
  have zero: "sent' = sent \<Longrightarrow> \<exists>n. sent' = sent @ take n (chunks e dat)" by (intro exI [of _ 0]) simp
  show ?case
  proof (cases ev)
    case Ev_InReady
    show ?thesis
    proof (cases "e \<le> length dat")
      case True
      then obtain n where "sent' = (sent @ [take e dat]) @ take n (chunks e (drop e dat))"
        using Cons.IH [of "drop e dat" True "sent @ [take e dat]"] Cons.prems(1) Ev_InReady by (auto simp: W)
      then show ?thesis using True assms by (intro exI [of _ "Suc n"]) (simp add: chunks_full)
    next
      case False
      then have "sent' = sent @ [dat]" using Cons.prems(1) Ev_InReady by (simp add: W W_done)
      then show ?thesis using False by (intro exI [of _ 1]) simp
    qed
  qed (use Cons zero in \<open>auto simp: W\<close>)
qed

lemma control_W_loop_complete:
  assumes "0 < e"
  shows "dat \<noteq> [] \<or> full \<Longrightarrow> length (chunks e dat) \<le> k \<Longrightarrow>
    control_W_loop e (replicate k Ev_InReady @ rest) dat full sent =
    Some (None, sent @ chunks e dat, replicate (k - length (chunks e dat)) Ev_InReady @ rest)"
proof (induction k arbitrary: dat full sent)
  case 0
  then show ?case by simp
next
  case (Suc k)
  show ?case
  proof (cases "length dat < e")
    case True
    then show ?thesis using Suc.prems by (simp add: W_step W_done)
  next
    case False
    then have "chunks e dat = take e dat # chunks e (drop e dat)" using assms by (simp add: chunks_full)
    then show ?thesis using Suc.prems Suc.IH [of "drop e dat" True "sent @ [take e dat]"] False
      by (simp add: W_step)
  qed
qed

lemma wait_OUT_skip: "wait_OUT (replicate k Ev_InReady @ evs) = wait_OUT evs"
  by (induction k) auto

lemma control_W_complete:
  assumes "0 < e" "Buffer \<noteq> []" "0 < wLength"
  defines "ps \<equiv> chunks e (take wLength Buffer)"
  shows "Endpoint_Write_Control_Stream_LE e wLength Buffer (replicate (length ps + j) Ev_InReady @ Ev_Out p # rest) =
    Some (RWC_NoError, ps, rest)"
proof -
  have dat: "(if length Buffer > wLength then take wLength Buffer else Buffer) = take wLength Buffer" by simp
  have ne: "take wLength Buffer \<noteq> []" using assms(2,3) by (cases Buffer; cases wLength) auto
  show ?thesis
    using control_W_loop_complete [OF assms(1), of "take wLength Buffer" False "length ps + j" "Ev_Out p # rest" "[]"] ne assms(2)
    unfolding Endpoint_Write_Control_Stream_LE_def dat by (simp add: ps_def wait_OUT_skip)
qed

text \<open>
  C18: A control read sends at most the requested number of bytes, in full packets: at every moment and
  for every behaviour of the host the packets are a prefix of the complete sequence, and a host that
  takes all packets receives all the bytes, ended by a short packet.
\<close>

theorem control_write_packets:
  assumes "0 < e" "Buffer \<noteq> []" "0 < wLength"
  defines "ps \<equiv> chunks e (take wLength Buffer)"
  shows "(Endpoint_Write_Control_Stream_LE e wLength Buffer evs = Some (r, sent, evs') \<longrightarrow> (\<exists>n. sent = take n ps)) \<and>
    Endpoint_Write_Control_Stream_LE e wLength Buffer (replicate (length ps + j) Ev_InReady @ Ev_Out p # rest) =
      Some (RWC_NoError, ps, rest) \<and>
    concat ps = take wLength Buffer \<and> list_all (\<lambda>q. length q = e) (butlast ps) \<and> length (last ps) < e"
proof -
  have dat: "(if length Buffer > wLength then take wLength Buffer else Buffer) = take wLength Buffer" by simp
  have ne: "take wLength Buffer \<noteq> []" using assms(2,3) by (cases Buffer; cases wLength) auto
  have "\<exists>n. sent = take n ps" if "Endpoint_Write_Control_Stream_LE e wLength Buffer evs = Some (r, sent, evs')"
  proof -
    from that obtain r1 evs1 where "control_W_loop e evs (take wLength Buffer) False [] = Some (r1, sent, evs1)"
      unfolding Endpoint_Write_Control_Stream_LE_def dat using assms(2)
      by (auto simp: Let_def bind_eq_Some_conv split: option.splits)
    then show ?thesis using control_W_loop_prefix [OF assms(1)] ne by (fastforce simp: ps_def)
  qed
  moreover have "Endpoint_Write_Control_Stream_LE e wLength Buffer (replicate (length ps + j) Ev_InReady @ Ev_Out p # rest) =
      Some (RWC_NoError, ps, rest)"
    unfolding ps_def by (rule control_W_complete [OF assms(1-3)])
  moreover have "concat ps = take wLength Buffer" by (simp add: ps_def concat_chunks)
  ultimately show ?thesis using chunks_lengths [OF assms(1)] by (simp add: ps_def)
qed

theorem control_write_packets_witness:
  "Endpoint_Write_Control_Stream_LE 8 20 [1,2,3,4,5,6,7,8,9] [Ev_InReady, Ev_InReady, Ev_Out []] =
     Some (RWC_NoError, [[1,2,3,4,5,6,7,8], [9]], [])"
proof -
  have "chunks 8 [1,2,3,4,5,6,7,8,9 :: u8] = [[1,2,3,4,5,6,7,8], [9]]" by (simp add: chunks_full)
  then show ?thesis
    using control_write_packets [of 8 "[1,2,3,4,5,6,7,8,9]" 20 "[]" RWC_NoError "[]" "[]" 0 "[]" "[]"] by simp
qed

section \<open>Standard requests\<close>

lemmas dev_defs = Endpoint_ClearSETUP_def send_packet_def

lemma ClearStatusStage_setup:
  assumes "Endpoint_ClearStatusStage d = Some d'"
  shows "ud_setup d' = ud_setup d"
  using assms by (auto simp: Endpoint_ClearStatusStage_def dev_defs Let_def bind_eq_Some_conv split: if_splits)

lemma send_control_setup: "send_control app bs d = Some d' \<Longrightarrow> ud_setup d' = ud_setup d"
  by (auto simp: send_control_def bind_eq_Some_conv)

lemma finish_setup: "Endpoint_ClearStatusStage (Endpoint_ClearSETUP d) = Some d' \<Longrightarrow> \<not> ud_setup d'"
  by (auto dest!: ClearStatusStage_setup simp: dev_defs)

lemma reply_setup: "Endpoint_ClearStatusStage (send_packet p (Endpoint_ClearSETUP d)) = Some d' \<Longrightarrow> \<not> ud_setup d'"
  by (auto dest!: ClearStatusStage_setup simp: dev_defs)

lemma send_control_ClearSETUP: "send_control app bs (Endpoint_ClearSETUP d) = Some d' \<Longrightarrow> \<not> ud_setup d'"
  by (auto dest!: send_control_setup simp: dev_defs)

lemmas handled = finish_setup reply_setup send_control_ClearSETUP

text \<open>A handler either leaves the device alone or acknowledges the SETUP packet.\<close>

lemma SetAddress_handled: "USB_Device_SetAddress d = Some d' \<Longrightarrow> \<not> ud_setup d'"
  by (auto simp: USB_Device_SetAddress_def Let_def bind_eq_Some_conv dest: handled)

lemma SetConfiguration_handled:
  assumes "USB_Device_SetConfiguration app d = Some d'"
  shows "d' = d \<or> \<not> ud_setup d'"
proof -
  have "\<not> ud_setup d2" if "Endpoint_ClearStatusStage (Endpoint_ClearSETUP d\<lparr>ud_config := c\<rparr>) = Some d2" for d2 c
    using ClearStatusStage_setup [OF that] by (simp add: dev_defs)
  then show ?thesis using assms
    by (auto simp: USB_Device_SetConfiguration_def Let_def bind_eq_Some_conv split: option.splits if_splits)
qed

lemma ClearSetFeature_handled: "USB_Device_ClearSetFeature d = Some d' \<Longrightarrow> d' = d \<or> \<not> ud_setup d'"
  by (auto simp: USB_Device_ClearSetFeature_def Let_def dest: handled split: if_splits)

lemma GetStatus_handled: "USB_Device_GetStatus d = Some d' \<Longrightarrow> d' = d \<or> \<not> ud_setup d'"
  by (auto simp: USB_Device_GetStatus_def Let_def dest: handled split: if_splits)

lemma GetDescriptor_handled: "USB_Device_GetDescriptor app d = Some d' \<Longrightarrow> d' = d \<or> \<not> ud_setup d'"
  by (auto simp: USB_Device_GetDescriptor_def USB_Device_GetInternalSerialDescriptor_def dest: handled
      split: if_splits option.splits)

lemma GetConfiguration_handled: "USB_Device_GetConfiguration d = Some d' \<Longrightarrow> \<not> ud_setup d'"
  by (auto simp: USB_Device_GetConfiguration_def dest: handled)

lemma standard_request_handled: "standard_request app d = Some d' \<Longrightarrow> d' = d \<or> \<not> ud_setup d'"
  by (auto simp: standard_request_def Let_def split: if_splits
      dest: SetAddress_handled SetConfiguration_handled ClearSetFeature_handled GetStatus_handled
        GetDescriptor_handled GetConfiguration_handled)


lemmas status_defs = Endpoint_ClearStatusStage_def dev_defs Let_def

text \<open>An application that leaves the standard requests to the stack.\<close>

definition plain_app :: "(u16 \<Rightarrow> u8 \<Rightarrow> u8 list option) \<Rightarrow> usb_app" where
  "plain_app desc = \<lparr>app_GetDescriptor = desc, app_ControlRequest = id, app_signature = (\<lambda>_. 0), app_ep0size = 8\<rparr>"

definition dev0 :: usb_dev where
  "dev0 = \<lparr>ud_bmRequestType = 0, ud_bRequest = 0, ud_wValue = 0, ud_wIndex = 0, ud_wLength = 0, ud_setup = True,
     ud_state = DS_Default, ud_config = 0, ud_self_powered = False, ud_remote_wakeup = False, ud_addr = 0,
     ud_ep_enabled = (\<lambda>n. n < 4), ud_ep_stalled = (\<lambda>_. False), ud_ep_resets = [], ud_sent = [],
     ud_config_events = 0, ud_evs = []\<rparr>"


section \<open>Enumeration\<close>

lemma ucast_u16_u8 [simp]: "(ucast (ucast b :: u16) :: u8) = b"
  by (rule bit_word_eqI) (simp add: bit_simps)

lemma header_word:
  fixes lo hi :: u8
  shows "(ucast (ucast lo OR push_bit 8 (ucast hi) :: u16) :: u8) = lo"
    "(ucast (drop_bit 8 (ucast lo OR push_bit 8 (ucast hi) :: u16)) :: u8) = hi"
proof -
  have "\<not> bit lo (8 + n)" for n using bit_imp_le_length [of lo "8 + n"] by auto
  then show "(ucast (ucast lo OR push_bit 8 (ucast hi) :: u16) :: u8) = lo"
    "(ucast (drop_bit 8 (ucast lo OR push_bit 8 (ucast hi) :: u16)) :: u8) = hi"
    by (auto intro!: bit_word_eqI simp: bit_simps)
qed

text \<open>The requests of a host, each a SETUP packet with what the bus does while it is processed.\<close>

fun run_requests :: "usb_app \<Rightarrow> (u8 list \<times> ep_event list) list \<Rightarrow> usb_dev \<Rightarrow> (usb_dev \<times> bool list) option" where
  "run_requests app [] d = Some (d, [])"
| "run_requests app ((hdr, evs) # rs) d =
     do { (d1, stalled) \<leftarrow> USB_DeviceTask app hdr (d\<lparr>ud_setup := True, ud_evs := evs\<rparr>);
          (d2, ss) \<leftarrow> run_requests app rs d1;
          Some (d2, stalled # ss) }"

lemmas task_defs = USB_DeviceTask_def USB_Device_ProcessControlRequest_def standard_request_def status_defs

lemma task_SetAddress:
  assumes "ud_state d \<noteq> DS_Unattached" "ud_setup d" "app_ControlRequest app = id"
    "ud_evs d = Ev_InReady # Ev_InReady # rest" "a < 0x80"
  shows "\<exists>d'. USB_DeviceTask app [0, 5, a, 0, 0, 0, 0, 0] d = Some (d', False) \<and>
    ud_addr d' = a OR 0x80 \<and> ud_state d' = (if a = 0 then DS_Default else DS_Addressed) \<and>
    ud_sent d' = ud_sent d @ [[]] \<and> ud_config d' = ud_config d \<and> ud_config_events d' = ud_config_events d"
proof -
  have a: "a AND 0x7F = a"
  proof -
    have "unat (take_bit 7 a) = unat a" using assms(5)
      by (simp add: unsigned_take_bit_eq take_bit_nat_eq_self word_less_nat_alt)
    then have "take_bit 7 a = a" by (rule word_unat_eq_iff [THEN iffD2])
    then show ?thesis by (simp add: take_bit_eq_mask mask_numeral)
  qed
  have set: "((x AND 0x80) OR a) OR 0x80 = a OR 0x80" for x :: u8
    by (rule bit_word_eqI) (auto simp: bit_simps)
  show ?thesis using assms by (simp add: task_defs USB_Device_SetAddress_def a set)
qed

lemma task_GetDescriptor:
  assumes "ud_state d \<noteq> DS_Unattached" "ud_setup d" "app_ControlRequest app = id"
    "app_GetDescriptor app (ucast v0 OR push_bit 8 (ucast v1)) 0 = Some desc" "(v0, v1) \<noteq> (0xDC, 3)"
    "0 < app_ep0size app" "desc \<noteq> []" "0 < n"
  defines "ps \<equiv> chunks (app_ep0size app) (take (unat n) desc)"
  assumes "ud_evs d = replicate (length ps) Ev_InReady @ Ev_Out p # rest"
  shows "\<exists>d'. USB_DeviceTask app [0x80, 6, v0, v1, 0, 0, n, 0] d = Some (d', False) \<and>
    ud_addr d' = ud_addr d \<and> ud_state d' = ud_state d \<and>
    ud_sent d' = ud_sent d @ ps \<and> ud_config d' = ud_config d \<and> ud_config_events d' = ud_config_events d"
proof -
  have v: "(ucast v0 OR push_bit 8 (ucast v1) :: u16) \<noteq> 0x3DC"
  proof
    assume "(ucast v0 OR push_bit 8 (ucast v1) :: u16) = 0x3DC"
    then have "(ucast (ucast v0 OR push_bit 8 (ucast v1) :: u16) :: u8) = 0xDC"
      "(ucast (drop_bit 8 (ucast v0 OR push_bit 8 (ucast v1) :: u16)) :: u8) = 3" by simp_all
    then have "v0 = 0xDC" "v1 = 3" by (simp_all only: header_word)
    then show False using assms(5) by simp
  qed
  have ne: "take (unat n) desc \<noteq> []" using assms(7,8) by (simp add: unat_eq_0)
  have W: "Endpoint_Write_Control_Stream_LE (app_ep0size app) (unat n) desc (ud_evs d) = Some (RWC_NoError, ps, rest)"
    using control_W_complete [OF assms(6,7), of "unat n" 0 p rest] assms(8,10) by (simp add: ps_def unat_gt_0)
  have n16: "unat (ucast n :: u16) = unat n"
    using unsigned_less [of n, where 'a = nat] by (simp add: unsigned_ucast_eq take_bit_eq_mod)
  show ?thesis using assms(1-4) v by (simp add: task_defs USB_Device_GetDescriptor_def send_control_def n16 W)
qed

lemma task_SetConfiguration:
  assumes "ud_state d \<noteq> DS_Unattached" "ud_setup d" "app_ControlRequest app = id"
    "app_GetDescriptor app 0x100 0 = Some desc" "17 < length desc" "c \<le> desc ! 17" "c \<noteq> 0"
    "ud_evs d = Ev_InReady # rest"
  shows "\<exists>d'. USB_DeviceTask app [0, 9, c, 0, 0, 0, 0, 0] d = Some (d', False) \<and>
    ud_addr d' = ud_addr d \<and> ud_state d' = DS_Configured \<and>
    ud_sent d' = ud_sent d @ [[]] \<and> ud_config d' = c \<and> ud_config_events d' = ud_config_events d + 1"
  using assms by (simp add: task_defs USB_Device_SetConfiguration_def arr_get_def)

text \<open>
  C17: A host that assigns an address, reads the device descriptor and selects a configuration succeeds
  with each request: the device ends configured at that address, the descriptor reaches the host whole,
  and the application learns once of the new configuration.
\<close>

theorem device_enumeration:
  assumes "ud_state d = DS_Default" "app_ControlRequest app = id" "0 < app_ep0size app"
    "app_GetDescriptor app 0x100 0 = Some desc" "length desc = 18" "a \<noteq> 0" "a < 0x80" "c \<noteq> 0" "c \<le> desc ! 17"
  shows "\<exists>d' ps. run_requests app
      [([0x00, 5, a, 0, 0, 0, 0, 0], [Ev_InReady, Ev_InReady]),
       ([0x80, 6, 0, 1, 0, 0, 18, 0], replicate (18 div app_ep0size app + 1) Ev_InReady @ [Ev_Out []]),
       ([0x00, 9, c, 0, 0, 0, 0, 0], [Ev_InReady])] d = Some (d', [False, False, False]) \<and>
    ud_state d' = DS_Configured \<and> ud_addr d' = a OR 0x80 \<and> ud_config d' = c \<and>
    ud_config_events d' = ud_config_events d + 1 \<and>
    ud_sent d' = ud_sent d @ [[]] @ ps @ [[]] \<and> concat ps = desc"
proof -
  have ne: "desc \<noteq> []" using assms(5) by auto
  have len: "length (chunks (app_ep0size app) desc) = 18 div app_ep0size app + 1"
    using length_chunks [OF assms(3), of desc] assms(5) by simp
  obtain d1 where d1: "USB_DeviceTask app [0, 5, a, 0, 0, 0, 0, 0] (d\<lparr>ud_setup := True, ud_evs := [Ev_InReady, Ev_InReady]\<rparr>) = Some (d1, False)"
      "ud_addr d1 = a OR 0x80" "ud_state d1 = DS_Addressed" "ud_sent d1 = ud_sent d @ [[]]"
      "ud_config_events d1 = ud_config_events d"
    using task_SetAddress [of "d\<lparr>ud_setup := True, ud_evs := [Ev_InReady, Ev_InReady]\<rparr>" app "[]" a] assms by auto
  let ?e1 = "d1\<lparr>ud_setup := True, ud_evs := replicate (18 div app_ep0size app + 1) Ev_InReady @ [Ev_Out []]\<rparr>"
  obtain d2 where d2: "USB_DeviceTask app [0x80, 6, 0, 1, 0, 0, 18, 0] ?e1 = Some (d2, False)"
      "ud_addr d2 = ud_addr d1" "ud_state d2 = DS_Addressed" "ud_sent d2 = ud_sent d1 @ chunks (app_ep0size app) desc"
      "ud_config_events d2 = ud_config_events d1"
    using task_GetDescriptor [of ?e1 app 0 1 desc 18 "[]" "[]"] assms d1(3) len ne by auto
  obtain d3 where d3: "USB_DeviceTask app [0, 9, c, 0, 0, 0, 0, 0] (d2\<lparr>ud_setup := True, ud_evs := [Ev_InReady]\<rparr>) = Some (d3, False)"
      "ud_addr d3 = ud_addr d2" "ud_state d3 = DS_Configured" "ud_sent d3 = ud_sent d2 @ [[]]" "ud_config d3 = c"
      "ud_config_events d3 = ud_config_events d2 + 1"
    using task_SetConfiguration [of "d2\<lparr>ud_setup := True, ud_evs := [Ev_InReady]\<rparr>" app desc c "[]"] assms d2(3) by auto
  show ?thesis
    by (rule exI [of _ d3], rule exI [of _ "chunks (app_ep0size app) desc"])
      (use d1 d2 d3 in \<open>simp add: concat_chunks del: replicate.simps\<close>)
qed

theorem device_enumeration_witness:
  "\<exists>d' ps. run_requests (plain_app (\<lambda>v _. USBSerial_GetDescriptor v))
      [([0x00, 5, 9, 0, 0, 0, 0, 0], [Ev_InReady, Ev_InReady]),
       ([0x80, 6, 0, 1, 0, 0, 18, 0], replicate 3 Ev_InReady @ [Ev_Out []]),
       ([0x00, 9, 1, 0, 0, 0, 0, 0], [Ev_InReady])] dev0 = Some (d', [False, False, False]) \<and>
    ud_state d' = DS_Configured \<and> ud_addr d' = 0x89 \<and> ud_config d' = 1 \<and>
    ud_config_events d' = 1 \<and> ud_sent d' = [[]] @ ps @ [[]] \<and> concat ps = USBSerial_DeviceDescriptor"
proof -
  let ?app = "plain_app (\<lambda>v _. USBSerial_GetDescriptor v)"
  have desc: "app_GetDescriptor ?app 0x100 0 = Some USBSerial_DeviceDescriptor" 
    by (simp add: plain_app_def USBSerial_GetDescriptor_def)
  have len: "length USBSerial_DeviceDescriptor = 18" "USBSerial_DeviceDescriptor ! 17 = 1" by code_simp+
  have three: "replicate (18 div app_ep0size ?app + 1) Ev_InReady = replicate 3 Ev_InReady"
    by (simp add: plain_app_def)
  show ?thesis
    using device_enumeration [of dev0 ?app USBSerial_DeviceDescriptor 9 1] desc len unfolding three
    by (simp add: plain_app_def dev0_def del: replicate.simps)
qed

section \<open>Endpoint halt\<close>

lemma task_halt:
  assumes "ud_state d \<noteq> DS_Unattached" "ud_setup d" "app_ControlRequest app = id" "ud_evs d = Ev_InReady # rest"
    "r = 1 \<or> r = 3" "unat (i AND 0x0F) \<noteq> 0" "ud_ep_enabled d (unat (i AND 0x0F))"
  shows "\<exists>d'. USB_DeviceTask app [2, r, 0, 0, i, 0, 0, 0] d = Some (d', False) \<and>
    ud_ep_stalled d' = (ud_ep_stalled d)(unat (i AND 0x0F) := (r = 3)) \<and>
    ud_ep_resets d' = ud_ep_resets d @ (if r = 1 then [unat (i AND 0x0F)] else []) \<and>
    ud_ep_enabled d' = ud_ep_enabled d \<and> ud_state d' = ud_state d \<and> ud_sent d' = ud_sent d @ [[]]"
  using assms(5)
proof
  assume r: "r = 1"
  show ?thesis using assms unfolding r
    by (simp add: task_defs USB_Device_ClearSetFeature_def ep_index_def)
next
  assume r: "r = 3"
  show ?thesis using assms unfolding r
    by (simp add: task_defs USB_Device_ClearSetFeature_def ep_index_def)
qed

lemma task_status:
  assumes "ud_state d \<noteq> DS_Unattached" "ud_setup d" "app_ControlRequest app = id" "ud_evs d = Ev_Out [] # rest"
  shows "\<exists>d'. USB_DeviceTask app [0x82, 0, 0, 0, i, 0, 2, 0] d = Some (d', False) \<and>
    ud_ep_stalled d' = ud_ep_stalled d \<and> ud_ep_resets d' = ud_ep_resets d \<and>
    ud_ep_enabled d' = ud_ep_enabled d \<and> ud_state d' = ud_state d \<and>
    ud_sent d' = ud_sent d @ [[if ud_ep_stalled d (unat (i AND 0x0F)) then 1 else 0, 0]]"
  using assms by (simp add: task_defs USB_Device_GetStatus_def ep_index_def)

text \<open>
  The halt of an endpoint is what the host last set: after \<open>SET_FEATURE\<close> the status reads 1, after
  \<open>CLEAR_FEATURE\<close> it reads 0 and the endpoint was reset once; no other endpoint changes.
\<close>

theorem endpoint_halt_roundtrip:
  assumes "ud_state d \<noteq> DS_Unattached" "app_ControlRequest app = id" "unat (i AND 0x0F) = n" "n \<noteq> 0" "ud_ep_enabled d n"
  shows "\<exists>d'. run_requests app
      [([2, 3, 0, 0, i, 0, 0, 0], [Ev_InReady]), ([0x82, 0, 0, 0, i, 0, 2, 0], [Ev_Out []]),
       ([2, 1, 0, 0, i, 0, 0, 0], [Ev_InReady]), ([0x82, 0, 0, 0, i, 0, 2, 0], [Ev_Out []])] d =
      Some (d', [False, False, False, False]) \<and>
    ud_sent d' = ud_sent d @ [[], [1, 0], [], [0, 0]] \<and>
    ud_ep_stalled d' = (ud_ep_stalled d)(n := False) \<and> ud_ep_resets d' = ud_ep_resets d @ [n]"
proof -
  let ?a = "\<lambda>evs d. d\<lparr>ud_setup := True, ud_evs := evs\<rparr>"
  obtain d1 where d1: "USB_DeviceTask app [2, 3, 0, 0, i, 0, 0, 0] (?a [Ev_InReady] d) = Some (d1, False)"
      "ud_ep_stalled d1 = (ud_ep_stalled d)(n := True)" "ud_ep_resets d1 = ud_ep_resets d"
      "ud_ep_enabled d1 = ud_ep_enabled d" "ud_state d1 = ud_state d" "ud_sent d1 = ud_sent d @ [[]]"
    using task_halt [of "?a [Ev_InReady] d" app "[]" 3 i] assms by auto
  obtain d2 where d2: "USB_DeviceTask app [0x82, 0, 0, 0, i, 0, 2, 0] (?a [Ev_Out []] d1) = Some (d2, False)"
      "ud_ep_stalled d2 = ud_ep_stalled d1" "ud_ep_resets d2 = ud_ep_resets d1"
      "ud_ep_enabled d2 = ud_ep_enabled d1" "ud_state d2 = ud_state d1" "ud_sent d2 = ud_sent d1 @ [[1, 0]]"
    using task_status [of "?a [Ev_Out []] d1" app "[]" i] assms d1 by auto
  obtain d3 where d3: "USB_DeviceTask app [2, 1, 0, 0, i, 0, 0, 0] (?a [Ev_InReady] d2) = Some (d3, False)"
      "ud_ep_stalled d3 = (ud_ep_stalled d2)(n := False)" "ud_ep_resets d3 = ud_ep_resets d2 @ [n]"
      "ud_ep_enabled d3 = ud_ep_enabled d2" "ud_state d3 = ud_state d2" "ud_sent d3 = ud_sent d2 @ [[]]"
    using task_halt [of "?a [Ev_InReady] d2" app "[]" 1 i] assms d1 d2 by auto
  obtain d4 where d4: "USB_DeviceTask app [0x82, 0, 0, 0, i, 0, 2, 0] (?a [Ev_Out []] d3) = Some (d4, False)"
      "ud_ep_stalled d4 = ud_ep_stalled d3" "ud_ep_resets d4 = ud_ep_resets d3" "ud_sent d4 = ud_sent d3 @ [[0, 0]]"
    using task_status [of "?a [Ev_Out []] d3" app "[]" i] assms d1 d2 d3 by auto
  show ?thesis by (rule exI [of _ d4]) (use d1 d2 d3 d4 in simp)
qed

theorem endpoint_halt_roundtrip_witness:
  "\<exists>d'. run_requests (plain_app (\<lambda>v _. USBSerial_GetDescriptor v))
      [([2, 3, 0, 0, 0x83, 0, 0, 0], [Ev_InReady]), ([0x82, 0, 0, 0, 0x83, 0, 2, 0], [Ev_Out []]),
       ([2, 1, 0, 0, 0x83, 0, 0, 0], [Ev_InReady]), ([0x82, 0, 0, 0, 0x83, 0, 2, 0], [Ev_Out []])] dev0 =
      Some (d', [False, False, False, False]) \<and> ud_sent d' = [[], [1, 0], [], [0, 0]] \<and> ud_ep_resets d' = [3]"
  using endpoint_halt_roundtrip [of dev0 "plain_app (\<lambda>v _. USBSerial_GetDescriptor v)" "0x83" 3]
  by (auto simp: plain_app_def dev0_def)

section \<open>Deviations\<close>

text \<open>
  \<open>SET_CONFIGURATION\<close> with 0 leaves an addressed device in the configured state, where the request is
  meant to return it to the addressed state.
\<close>

lemma set_configuration_zero_stays_configured:
  assumes "ud_addr d AND 0x80 \<noteq> 0" "ud_wValue d = 0" "ud_bmRequestType d = 0" "ud_evs d = Ev_InReady # rest"
    "app_GetDescriptor app 0x100 0 = Some desc" "17 < length desc"
  shows "\<exists>d'. USB_Device_SetConfiguration app d = Some d' \<and> ud_config d' = 0 \<and> ud_state d' = DS_Configured"
  using assms by (simp add: USB_Device_SetConfiguration_def arr_get_def status_defs)

text \<open>
  A device detached in the status stage of \<open>SET_ADDRESS\<close> never returns from the request: the wait for
  the IN endpoint has no exit, whatever follows, unless the endpoint becomes ready.
\<close>

lemma wait_INReady_forever_None: "Ev_InReady \<notin> set evs \<Longrightarrow> wait_INReady_forever evs = None"
  by (induction evs) auto

lemma set_address_detached_hangs:
  assumes "ud_bmRequestType d = 0" "ud_evs d = Ev_Unattached # evs" "Ev_InReady \<notin> set evs"
  shows "USB_Device_SetAddress d = None"
  using assms by (simp add: USB_Device_SetAddress_def status_defs wait_INReady_forever_None)

end
