(* ===== verification/Arduino_Print.thy ===== *)
theory Arduino_Print
  imports Arduino_HardwareSerial Arduino_WString
begin

text \<open>
  The class \<open>Print\<close> (\<open>Print.cpp\<close>, \<open>Print.h\<close>): every printing method over the virtual \<open>write\<close> of one
  byte, which is an argument \<open>wr\<close> of the definitions.  It takes the state of the derived object and
  returns the count it reports and the new state, or \<open>None\<close> when it does not return.  The locale
  \<open>byte_sink\<close> states what a derived class promises; its lemmas hold for every such class, and the
  hardware serial port is one.  \<open>print(double)\<close> is not modelled.
\<close>

section \<open>The methods\<close>

type_synonym 's writer = "u8 \<Rightarrow> 's \<Rightarrow> (u16 \<times> 's) option"

fun Print_write :: "'s writer \<Rightarrow> u8 list \<Rightarrow> nat \<Rightarrow> 's \<Rightarrow> (u16 \<times> 's) option" where
  "Print_write wr buffer 0 s = Some (0, s)"
| "Print_write wr [] (Suc n) s = None"
| "Print_write wr (c # cs) (Suc n) s =
     do { (k, s1) \<leftarrow> wr c s; (m, s2) \<leftarrow> Print_write wr cs n s1; Some (k + m, s2) }"

definition Print_write_str :: "'s writer \<Rightarrow> u8 list \<Rightarrow> 's \<Rightarrow> (u16 \<times> 's) option" where
  "Print_write_str wr str s = do { n \<leftarrow> strlen_c str; Print_write wr str n s }"

text \<open>Text in program memory is read byte by byte up to its terminator.\<close>

fun print_flash :: "'s writer \<Rightarrow> u8 list \<Rightarrow> 's \<Rightarrow> (u16 \<times> 's) option" where
  "print_flash wr [] s = None"
| "print_flash wr (c # cs) s =
     (if c = 0 then Some (0, s)
      else do { (k, s1) \<leftarrow> wr c s; (m, s2) \<leftarrow> print_flash wr cs s1; Some (k + m, s2) })"

function print_String_from :: "'s writer \<Rightarrow> WString \<Rightarrow> u16 \<Rightarrow> 's \<Rightarrow> (u16 \<times> 's) option" where
  "print_String_from wr str i s =
     (if i < ws_len str
      then do { c \<leftarrow> String_index i str; (k, s1) \<leftarrow> wr c s;
                (m, s2) \<leftarrow> print_String_from wr str (i + 1) s1; Some (k + m, s2) }
      else Some (0, s))"
  by pat_completeness auto
termination
proof (relation "measure (\<lambda>(wr, str, i, s). unat (ws_len str) - unat i)")
  fix wr :: "'s writer" and str i s c p k s1
  assume "i < ws_len str"
  then have "unat i < unat (ws_len str)" by (simp add: word_less_nat_alt)
  then show "((wr, str, i + 1, s1), wr, str, i, s) \<in> measure (\<lambda>(wr, str, i, s). unat (ws_len str) - unat i)"
    using unat_inc [of i "ws_len str"] by simp
qed simp

declare print_String_from.simps [simp del]

definition print_String :: "'s writer \<Rightarrow> WString \<Rightarrow> 's \<Rightarrow> (u16 \<times> 's) option" where
  "print_String wr str s = print_String_from wr str 0 s"

definition print_cstr :: "'s writer \<Rightarrow> u8 list \<Rightarrow> 's \<Rightarrow> (u16 \<times> 's) option" where
  "print_cstr wr str s = Print_write_str wr str s"

definition print_char :: "'s writer \<Rightarrow> u8 \<Rightarrow> 's \<Rightarrow> (u16 \<times> 's) option" where
  "print_char wr c s = wr c s"

text \<open>
  The digits are stored backwards into an array of 33 characters: \<open>room\<close> is the distance of \<open>str\<close> from
  the start of the array, the list what lies from \<open>str\<close> to its end.
\<close>

fun printNumber_loop :: "u32 \<Rightarrow> u8 \<Rightarrow> nat \<Rightarrow> u8 list \<Rightarrow> u8 list option" where
  "printNumber_loop n base 0 str = None"
| "printNumber_loop n base (Suc room) str =
     (let m = n; n' = n div ucast base; c = ucast (m - ucast base * n') :: u8;
          ch = (if c < 10 then c + 48 else c + 65 - 10)
      in if n' \<noteq> 0 then printNumber_loop n' base room (ch # str) else Some (ch # str))"

definition printNumber :: "'s writer \<Rightarrow> u32 \<Rightarrow> u8 \<Rightarrow> 's \<Rightarrow> (u16 \<times> 's) option" where
  "printNumber wr n base s =
     do { str \<leftarrow> printNumber_loop n (if base < 2 then 10 else base) 32 [0]; Print_write_str wr str s }"

definition print_ulong :: "'s writer \<Rightarrow> u32 \<Rightarrow> int \<Rightarrow> 's \<Rightarrow> (u16 \<times> 's) option" where
  "print_ulong wr n base s = (if base = 0 then wr (ucast n) s else printNumber wr n (word_of_int base) s)"

definition print_long :: "'s writer \<Rightarrow> u32 \<Rightarrow> int \<Rightarrow> 's \<Rightarrow> (u16 \<times> 's) option" where
  "print_long wr n base s =
     (if base = 0 then wr (ucast n) s
      else if base = 10
      then (if sint n < 0
            then do { (t, s1) \<leftarrow> print_char wr 45 s; (m, s2) \<leftarrow> printNumber wr (- n) 10 s1; Some (m + t, s2) }
            else printNumber wr n 10 s)
      else printNumber wr n (word_of_int base) s)"

definition print_uchar :: "'s writer \<Rightarrow> u8 \<Rightarrow> int \<Rightarrow> 's \<Rightarrow> (u16 \<times> 's) option" where
  "print_uchar wr b base s = print_ulong wr (ucast b) base s"

definition print_int :: "'s writer \<Rightarrow> u16 \<Rightarrow> int \<Rightarrow> 's \<Rightarrow> (u16 \<times> 's) option" where
  "print_int wr n base s = print_long wr (scast n) base s"

definition print_uint :: "'s writer \<Rightarrow> u16 \<Rightarrow> int \<Rightarrow> 's \<Rightarrow> (u16 \<times> 's) option" where
  "print_uint wr n base s = print_ulong wr (ucast n) base s"

text \<open>An object of a class derived from \<open>Printable\<close> brings its own \<open>printTo\<close>.\<close>

definition print_Printable :: "('s \<Rightarrow> (u16 \<times> 's) option) \<Rightarrow> 's \<Rightarrow> (u16 \<times> 's) option" where
  "print_Printable printTo s = printTo s"

definition println :: "'s writer \<Rightarrow> 's \<Rightarrow> (u16 \<times> 's) option" where
  "println wr s = do { (n, s1) \<leftarrow> print_char wr 13 s; (m, s2) \<leftarrow> print_char wr 10 s1; Some (n + m, s2) }"

definition then_println :: "'s writer \<Rightarrow> ('s \<Rightarrow> (u16 \<times> 's) option) \<Rightarrow> 's \<Rightarrow> (u16 \<times> 's) option" where
  "then_println wr p s = do { (n, s1) \<leftarrow> p s; (m, s2) \<leftarrow> println wr s1; Some (n + m, s2) }"

definition println_flash :: "'s writer \<Rightarrow> u8 list \<Rightarrow> 's \<Rightarrow> (u16 \<times> 's) option" where
  "println_flash wr p = then_println wr (print_flash wr p)"

definition println_String :: "'s writer \<Rightarrow> WString \<Rightarrow> 's \<Rightarrow> (u16 \<times> 's) option" where
  "println_String wr str = then_println wr (print_String wr str)"

definition println_cstr :: "'s writer \<Rightarrow> u8 list \<Rightarrow> 's \<Rightarrow> (u16 \<times> 's) option" where
  "println_cstr wr str = then_println wr (print_cstr wr str)"

definition println_char :: "'s writer \<Rightarrow> u8 \<Rightarrow> 's \<Rightarrow> (u16 \<times> 's) option" where
  "println_char wr c = then_println wr (print_char wr c)"

definition println_uchar :: "'s writer \<Rightarrow> u8 \<Rightarrow> int \<Rightarrow> 's \<Rightarrow> (u16 \<times> 's) option" where
  "println_uchar wr b base = then_println wr (print_uchar wr b base)"

definition println_int :: "'s writer \<Rightarrow> u16 \<Rightarrow> int \<Rightarrow> 's \<Rightarrow> (u16 \<times> 's) option" where
  "println_int wr n base = then_println wr (print_int wr n base)"

definition println_uint :: "'s writer \<Rightarrow> u16 \<Rightarrow> int \<Rightarrow> 's \<Rightarrow> (u16 \<times> 's) option" where
  "println_uint wr n base = then_println wr (print_uint wr n base)"

definition println_long :: "'s writer \<Rightarrow> u32 \<Rightarrow> int \<Rightarrow> 's \<Rightarrow> (u16 \<times> 's) option" where
  "println_long wr n base = then_println wr (print_long wr n base)"

definition println_ulong :: "'s writer \<Rightarrow> u32 \<Rightarrow> int \<Rightarrow> 's \<Rightarrow> (u16 \<times> 's) option" where
  "println_ulong wr n base = then_println wr (print_ulong wr n base)"

definition println_Printable :: "'s writer \<Rightarrow> ('s \<Rightarrow> (u16 \<times> 's) option) \<Rightarrow> 's \<Rightarrow> (u16 \<times> 's) option" where
  "println_Printable wr printTo = then_println wr (print_Printable printTo)"

section \<open>Digits\<close>

definition print_digit :: "nat \<Rightarrow> u8" where
  "print_digit d = (let c = of_nat d in if c < 10 then c + 48 else c + 65 - 10)"

lemma print_digit_upper: "d < 36 \<Longrightarrow> print_digit d = toupper_c (digit_char d)"
proof -
  have "\<forall>d\<in>set [0..<36]. print_digit d = toupper_c (digit_char d)" by code_simp
  then show "d < 36 \<Longrightarrow> print_digit d = toupper_c (digit_char d)" by simp
qed

lemma printNumber_step:
  fixes n :: u32 and base :: u8
  assumes "2 \<le> unat base"
  shows "unat (n div ucast base) = unat n div unat base"
    "(let c = ucast (n - ucast base * (n div ucast base)) :: u8 in if c < 10 then c + 48 else c + 65 - 10) =
       print_digit (unat n mod unat base)"
proof -
  have b: "unat (ucast base :: u32) = unat base"
    using unsigned_less [of base, where 'a = nat] by (simp add: unsigned_ucast_eq take_bit_eq_mod)
  show "unat (n div ucast base) = unat n div unat base" by (simp add: unat_div b)
  have "unat (n mod ucast base) = unat n mod unat base" by (simp add: unat_mod b)
  then have "(ucast (n mod ucast base) :: u8) = of_nat (unat n mod unat base)"
    by (metis of_nat_unat)
  then show "(let c = ucast (n - ucast base * (n div ucast base)) :: u8 in if c < 10 then c + 48 else c + 65 - 10) =
       print_digit (unat n mod unat base)"
    by (simp add: print_digit_def minus_mult_div_eq_mod)
qed

lemma printNumber_loop_digits:
  assumes "2 \<le> unat base" "length (digits_rev (unat base) (unat n)) \<le> room"
  shows "printNumber_loop n base room str = Some (rev (map print_digit (digits_rev (unat base) (unat n))) @ str)"
  using assms(2)
proof (induction room arbitrary: n str)
  case 0
  then show ?case using digits_rev_nonempty [OF assms(1)] by simp
next
  case (Suc room)
  note step = printNumber_step [OF assms(1), of n]
  have unfold: "printNumber_loop n base (Suc room) str =
      (if n div ucast base \<noteq> 0
       then printNumber_loop (n div ucast base) base room (print_digit (unat n mod unat base) # str)
       else Some (print_digit (unat n mod unat base) # str))" for str
    by (simp only: printNumber_loop.simps Let_def step(2) [unfolded Let_def])
  have zero: "n div ucast base = 0 \<longleftrightarrow> unat n < unat base"
    using step(1) assms(1) by (simp add: unat_eq_0 [symmetric] Euclidean_Rings.div_eq_0_iff)
  show ?case
  proof (cases "unat n < unat base")
    case True
    then have "digits_rev (unat base) (unat n) = [unat n]" using assms(1) by (subst digits_rev.simps) simp
    then show ?thesis using True zero by (simp add: unfold del: printNumber_loop.simps)
  next
    case False
    then have d: "digits_rev (unat base) (unat n) = unat n mod unat base # digits_rev (unat base) (unat n div unat base)"
      using assms(1) by (subst digits_rev.simps) simp
    then have "length (digits_rev (unat base) (unat (n div ucast base))) \<le> room" using Suc.prems step(1) by simp
    from Suc.IH [OF this] show ?thesis using False step(1) zero d by (simp add: unfold del: printNumber_loop.simps)
  qed
qed

lemma digits_rev_32: "2 \<le> base \<Longrightarrow> length (digits_rev base (unat (n :: u32))) \<le> 32"
proof -
  assume b: "2 \<le> base"
  have "unat n < 2 ^ Suc 31" using unsigned_less [of n, where 'a = nat] by simp
  also have "(2::nat) ^ Suc 31 \<le> base ^ Suc 31" using b by (rule power_mono) simp
  finally show "length (digits_rev base (unat n)) \<le> 32" using digits_rev_length [OF b, of "unat n" 31] by simp
qed

text \<open>The text of a number in any base; below 2 the base is ten.\<close>

definition number_text :: "u32 \<Rightarrow> u8 \<Rightarrow> u8 list" where
  "number_text n base =
     rev (map print_digit (digits_rev (if unat base < 2 then 10 else unat base) (unat n)))"

lemma print_digit_nonzero: "d < 199 \<Longrightarrow> print_digit d \<noteq> 0"
proof -
  have "\<forall>d\<in>set [0..<199]. print_digit d \<noteq> 0" by code_simp
  then show "d < 199 \<Longrightarrow> print_digit d \<noteq> 0" by simp
qed

lemma printNumber_str: "printNumber wr n base s = Print_write_str wr (number_text n base @ [0]) s"
proof -
  let ?b = "if base < 2 then 10 else base"
  have b: "unat ?b = (if unat base < 2 then 10 else unat base)" by (simp add: word_less_nat_alt)
  have "2 \<le> unat ?b" unfolding b by simp
  then show ?thesis
    using printNumber_loop_digits [of ?b n 32 "[0]"] digits_rev_32 [of "unat ?b" n]
    unfolding printNumber_def number_text_def b by simp
qed

lemma number_text_utoa:
  assumes "2 \<le> unat base" "unat base \<le> 36"
  shows "number_text n base = map toupper_c (utoa_c (unat base) (unat n))"
proof -
  have "map print_digit (digits_rev (unat base) (unat n)) = map (toupper_c \<circ> digit_char) (digits_rev (unat base) (unat n))"
    using assms(2) by (auto intro!: print_digit_upper dest!: digits_rev_bound)
  then show ?thesis using assms by (simp add: number_text_def utoa_c_def rev_map)
qed

section \<open>What a derived class promises\<close>

text \<open>The action always returns, reports the number of bytes and appends them to the output.\<close>

definition emits :: "('s \<Rightarrow> bool) \<Rightarrow> ('s \<Rightarrow> u8 list) \<Rightarrow> ('s \<Rightarrow> (u16 \<times> 's) option) \<Rightarrow> u8 list \<Rightarrow> bool" where
  "emits ok out p xs \<longleftrightarrow>
     (\<forall>s. ok s \<longrightarrow> (\<exists>s'. p s = Some (of_nat (length xs), s') \<and> ok s' \<and> out s' = out s @ xs))"

lemma emitsD: "emits ok out p xs \<Longrightarrow> ok s \<Longrightarrow> \<exists>s'. p s = Some (of_nat (length xs), s') \<and> ok s' \<and> out s' = out s @ xs"
  by (simp add: emits_def)

lemma emits_seq:
  assumes "emits ok out p xs" "emits ok out q ys"
  shows "emits ok out (\<lambda>s. do { (n, s1) \<leftarrow> p s; (m, s2) \<leftarrow> q s1; Some (n + m, s2) }) (xs @ ys)"
  unfolding emits_def
proof (intro allI impI)
  fix s assume "ok s"
  then obtain s1 where 1: "p s = Some (of_nat (length xs), s1)" "ok s1" "out s1 = out s @ xs"
    using emitsD [OF assms(1)] by blast
  then obtain s2 where "q s1 = Some (of_nat (length ys), s2)" "ok s2" "out s2 = out s1 @ ys"
    using emitsD [OF assms(2)] by blast
  with 1 show "\<exists>s'. do { (n, s1) \<leftarrow> p s; (m, s2) \<leftarrow> q s1; Some (n + m, s2) } = Some (of_nat (length (xs @ ys)), s') \<and>
      ok s' \<and> out s' = out s @ xs @ ys" by simp
qed

lemma emits_cong: "emits ok out p xs \<Longrightarrow> (\<And>s. p s = q s) \<Longrightarrow> xs = ys \<Longrightarrow> emits ok out q ys"
  by (simp add: emits_def)

locale byte_sink =
  fixes wr :: "'s writer" and ok :: "'s \<Rightarrow> bool" and out :: "'s \<Rightarrow> u8 list"
  assumes wr_emits: "emits ok out (wr c) [c]"
begin

lemma write_emits: "emits ok out (Print_write wr (xs @ rest) (length xs)) xs"
proof (induction xs)
  case Nil
  show ?case by (simp add: emits_def)
next
  case (Cons c xs)
  from emits_seq [OF wr_emits [of c] Cons.IH] show ?case by (rule emits_cong) simp_all
qed

lemma write_str_emits:
  assumes "0 \<notin> set xs"
  shows "emits ok out (Print_write_str wr (xs @ 0 # rest)) xs"
  using write_emits [of xs "0 # rest"] assms 
  by (simp add: Print_write_str_def [abs_def] strlen_holds [of _ xs] holds_str_def)

lemma print_flash_emits: "0 \<notin> set xs \<Longrightarrow> emits ok out (print_flash wr (xs @ 0 # rest)) xs"
proof (induction xs)
  case Nil
  show ?case by (simp add: emits_def)
next
  case (Cons c xs)
  then have "emits ok out (print_flash wr (xs @ 0 # rest)) xs" by simp
  from emits_seq [OF wr_emits [of c] this] show ?case by (rule emits_cong) (use Cons.prems in auto)
qed

lemma println_emits: "emits ok out (println wr) [13, 10]"
  using emits_seq [OF wr_emits [of 13] wr_emits [of 10]] by (simp add: println_def [abs_def] print_char_def)

lemma then_println_emits: "emits ok out p xs \<Longrightarrow> emits ok out (then_println wr p) (xs @ [13, 10])"
  unfolding then_println_def [abs_def] by (rule emits_seq [OF _ println_emits])

lemma printNumber_emits:
  assumes "unat base \<le> 199"
  shows "emits ok out (printNumber wr n base) (number_text n base)"
proof -
  have "0 \<notin> set (number_text n base)"
    using digits_rev_bound [of _ "if unat base < 2 then 10 else unat base" "unat n"] assms print_digit_nonzero
    by (fastforce simp: number_text_def split: if_splits)
  from write_str_emits [OF this, of "[]"] show ?thesis by (simp add: printNumber_str [abs_def])
qed

end

section \<open>Numbers and strings on a sink\<close>

lemma unat_sint_mod: "unat n = nat (sint n mod 2 ^ 32)" for n :: u32
  using uint_word_of_int [of "sint n", where 'a = 32] by (simp add: unat_eq_nat_uint)

lemma unat_neg_sint: "sint n < 0 \<Longrightarrow> unat (- n) = nat (- sint n)" for n :: u32
  using uint_word_of_int [of "- sint n", where 'a = 32] sint_bounds32 [of n] by (simp add: unat_eq_nat_uint)

lemma toupper_minus: "toupper_c 45 = 45"
  by code_simp

context byte_sink
begin

lemma print_ulong_emits:
  assumes "2 \<le> base" "base \<le> 36"
  shows "emits ok out (print_ulong wr n base) (map toupper_c (utoa_c (nat base) (unat n)))"
proof -
  have "uint (word_of_int base :: u8) = base" using assms by (simp only: uint_word_of_int) simp
  then have b: "unat (word_of_int base :: u8) = nat base" by (simp only: unat_eq_nat_uint)
  have "number_text n (word_of_int base) = map toupper_c (utoa_c (nat base) (unat n))"
    using number_text_utoa [of "word_of_int base" n] assms unfolding b by simp
  moreover have "print_ulong wr n base = printNumber wr n (word_of_int base)"
    using assms by (auto simp: print_ulong_def)
  ultimately show ?thesis using printNumber_emits [of "word_of_int base" n] assms b by simp
qed

lemma print_long_emits:
  assumes "2 \<le> base" "base \<le> 36"
  shows "emits ok out (print_long wr n base) (map toupper_c (itoa_c 32 (nat base) (sint n)))"
proof (cases "base = 10 \<and> sint n < 0")
  case True
  have "number_text (- n) 10 = map toupper_c (utoa_c 10 (nat (- sint n)))"
    using number_text_utoa [of 10 "- n"] unat_neg_sint [of n] True by simp
  with emits_seq [OF wr_emits [of 45] printNumber_emits [of 10 "- n"]]
  have "emits ok out (\<lambda>s. do { (k, s1) \<leftarrow> wr 45 s; (m, s2) \<leftarrow> printNumber wr (- n) 10 s1; Some (k + m, s2) })
      (45 # map toupper_c (utoa_c 10 (nat (- sint n))))" by simp
  then show ?thesis
    using True by (simp add: print_long_def [abs_def] print_char_def itoa_c_def toupper_minus add.commute)
next
  case False
  have "print_long wr n base = print_ulong wr n base"
    using False assms by (auto simp: print_long_def [abs_def] print_ulong_def [abs_def])
  moreover have "itoa_c 32 (nat base) (sint n) = utoa_c (nat base) (unat n)"
    using False by (auto simp: itoa_c_def unat_sint_mod nat_eq_iff)
  ultimately show ?thesis using print_ulong_emits [OF assms, of n] by simp
qed

lemma print_String_from_emits:
  assumes "ws_val str xs"
  shows "i \<le> length xs \<Longrightarrow> emits ok out (print_String_from wr str (of_nat i)) (drop i xs)"
proof (induction "length xs - i" arbitrary: i)
  case 0
  have "ws_len str = of_nat (length xs)" using ws_val_len [OF assms] by simp
  then show ?case using 0 by (simp add: emits_def print_String_from.simps)
next
  case (Suc k)
  then have i: "i < length xs" by simp
  have len: "ws_len str = of_nat (length xs)" using ws_val_len [OF assms] by simp
  have small: "length xs < 2 ^ 16"
    using unsigned_less [of "ws_len str", where 'a = nat] unfolding conjunct2 [OF ws_val_len [OF assms]] by simp
  obtain b where b: "ws_buffer str = Some b" "holds_str b xs"
    using assms i by (auto elim!: ws_valE simp: ws_rep_Some)
  have lt: "(of_nat i :: u16) < ws_len str"
    using i len small by (simp add: word_less_nat_alt unat_of_nat)
  have get: "String_index (of_nat i) str = Some (xs ! i)"
    using b lt i small by (auto simp: String_index_def holds_str_def arr_get_def unat_of_nat nth_append)
  have "emits ok out (print_String_from wr str (of_nat (Suc i))) (drop (Suc i) xs)"
    using Suc.hyps(1) [of "Suc i"] Suc.hyps(2) i by simp
  from emits_seq [OF wr_emits [of "xs ! i"] this] show ?case
    by (rule emits_cong) (use lt get i in \<open>simp_all add: print_String_from.simps [of wr str "of_nat i"] Cons_nth_drop_Suc add.commute [of _ 1]\<close>)
qed

lemma print_String_emits: "ws_val str xs \<Longrightarrow> emits ok out (print_String wr str) xs"
  using print_String_from_emits [of str xs 0] by (simp add: print_String_def [abs_def])

end

section \<open>The hardware serial port as a sink\<close>

definition HardwareSerial_sink :: "HardwareSerial writer" where
  "HardwareSerial_sink c s = do { (n, s') \<leftarrow> HardwareSerial_write c s; Some (of_nat n, s') }"

definition hs_ready :: "HardwareSerial \<Rightarrow> bool" where
  "hs_ready s \<longleftrightarrow> hs_tx_inv s \<and> hs_sreg_i s"

interpretation hs_print: byte_sink HardwareSerial_sink hs_ready tx_flow
proof
  show "emits hs_ready tx_flow (HardwareSerial_sink c) [c]" for c
    unfolding emits_def
  proof (intro allI impI)
    fix s assume "hs_ready s"
    then obtain s' where "HardwareSerial_write c s = Some (1, s')" "hs_tx_inv s'" "hs_sreg_i s'" "tx_flow s' = tx_flow s @ [c]"
      using hs_write_flow [of s c] by (auto simp: hs_ready_def)
    then show "\<exists>s'. HardwareSerial_sink c s = Some (of_nat (length [c]), s') \<and> hs_ready s' \<and> tx_flow s' = tx_flow s @ [c]"
      by (simp add: HardwareSerial_sink_def hs_ready_def)
  qed
qed

text \<open>
  C21: \<open>println(long, base)\<close> on the serial port, with interrupts enabled, returns and sends exactly the
  text that \<open>ltoa\<close> gives for the number, in upper case, followed by a carriage return and a line feed,
  and reports the number of bytes sent; the digit loop of \<open>printNumber\<close> computes what the library
  conversion computes and stays inside its array.
\<close>

theorem println_long_serial:
  assumes "2 \<le> base" "base \<le> 36" "hs_ready s"
  shows "\<exists>s'. println_long HardwareSerial_sink n base s =
      Some (of_nat (length (itoa_c 32 (nat base) (sint n)) + 2), s') \<and> hs_ready s' \<and>
    tx_flow s' = tx_flow s @ map toupper_c (itoa_c 32 (nat base) (sint n)) @ [13, 10]"
  using emitsD [OF hs_print.then_println_emits [OF hs_print.print_long_emits [OF assms(1,2), of n]] assms(3)]
  by (simp add: println_long_def)

lemma hs_ready_Serial1: "hs_ready Serial1"
  by (simp add: hs_ready_def Serial1_ready)

theorem println_long_serial_witness:
  "\<exists>s'. println_long HardwareSerial_sink 0x2E 16 Serial1 = Some (4, s') \<and>
    tx_flow s' = tx_flow Serial1 @ [50, 69, 13, 10]"
proof -
  have lit: "itoa_c 32 16 46 = [50, 101]" "map toupper_c [50, 101] = [50, 69]" by code_simp+
  show ?thesis
    using println_long_serial [OF _ _ hs_ready_Serial1, of 16 "0x2E"] by (auto simp: lit simp del: list.map)
qed

text \<open>
  A \<open>String\<close> and text in program memory are sent character by character: the bytes sent are the text
  of the object, and the count reported is its length.
\<close>

theorem print_text_serial:
  assumes "ws_val str xs" "0 \<notin> set ys" "hs_ready s"
  shows "\<exists>s1 s2. print_String HardwareSerial_sink str s = Some (of_nat (length xs), s1) \<and> tx_flow s1 = tx_flow s @ xs \<and>
    println_flash HardwareSerial_sink (ys @ 0 # rest) s1 = Some (of_nat (length ys + 2), s2) \<and>
    tx_flow s2 = tx_flow s @ xs @ ys @ [13, 10]"
proof -
  obtain s1 where 1: "print_String HardwareSerial_sink str s = Some (of_nat (length xs), s1)" "hs_ready s1"
      "tx_flow s1 = tx_flow s @ xs"
    using emitsD [OF hs_print.print_String_emits [OF assms(1)] assms(3)] by blast
  show ?thesis
    using emitsD [OF hs_print.then_println_emits [OF hs_print.print_flash_emits [OF assms(2)]] 1(2), of rest] 1
    by (auto simp: println_flash_def)
qed

theorem print_text_serial_witness:
  "\<exists>s1 s2. print_String HardwareSerial_sink \<lparr>ws_buffer = Some [72, 105, 0], ws_capacity = 2, ws_len = 2, ws_flags = 0\<rparr>
      Serial1 = Some (2, s1) \<and>
    println_flash HardwareSerial_sink [33, 0] s1 = Some (3, s2) \<and>
    tx_flow s2 = tx_flow Serial1 @ [72, 105, 33, 13, 10]"
proof -
  have "ws_val \<lparr>ws_buffer = Some [72, 105, 0], ws_capacity = 2, ws_len = 2, ws_flags = 0\<rparr> [72, 105]"
    using holds_strI [of "[72, 105]" "[]"] by (simp add: ws_val_def ws_rep_Some)
  from print_text_serial [OF this _ hs_ready_Serial1, of "[33]" "[]"] show ?thesis by auto
qed

end
