(* ===== verification/Wiring_Time.thy ===== *)
theory Wiring_Time
  imports AVR_Prelude
begin

text \<open>
  Time keeping of the core (\<open>wiring.c\<close>) at 16 MHz: the overflow interrupt of timer 0, \<open>millis\<close>,
  \<open>micros\<close>, \<open>delay\<close>, \<open>delayMicroseconds\<close> and the set-up of the timers by \<open>init\<close>.  Hardware values
  that the code reads while it runs, the timer count, its overflow flag and the successive
  readings of the clock, are arguments.
\<close>

section \<open>The timer interrupt\<close>

definition clockCyclesToMicroseconds :: "nat \<Rightarrow> nat" where
  "clockCyclesToMicroseconds a = a div 16"

definition MICROSECONDS_PER_TIMER0_OVERFLOW :: nat where
  "MICROSECONDS_PER_TIMER0_OVERFLOW = clockCyclesToMicroseconds (64 * 256)"

definition MILLIS_INC :: nat where
  "MILLIS_INC = MICROSECONDS_PER_TIMER0_OVERFLOW div 1000"

definition FRACT_INC :: nat where
  "FRACT_INC = (MICROSECONDS_PER_TIMER0_OVERFLOW mod 1000) div 8"

definition FRACT_MAX :: nat where
  "FRACT_MAX = 1000 div 8"

record timer0 =
  timer0_overflow_count :: u32
  timer0_millis :: u32
  timer0_fract :: u8

definition timer0_init :: timer0 where
  "timer0_init = \<lparr>timer0_overflow_count = 0, timer0_millis = 0, timer0_fract = 0\<rparr>"

definition TIMER0_OVF :: "timer0 \<Rightarrow> timer0" where
  "TIMER0_OVF s =
     (let m = timer0_millis s + of_nat MILLIS_INC; f = timer0_fract s + of_nat FRACT_INC;
          (f', m') = (if f \<ge> of_nat FRACT_MAX then (f - of_nat FRACT_MAX, m + 1) else (f, m))
      in \<lparr>timer0_overflow_count = timer0_overflow_count s + 1, timer0_millis = m', timer0_fract = f'\<rparr>)"

definition millis :: "timer0 \<Rightarrow> u32" where
  "millis s = timer0_millis s"

text \<open>\<open>t\<close> is the timer count that was read, \<open>tov\<close> the overflow flag read after it.\<close>

definition micros :: "timer0 \<Rightarrow> u8 \<Rightarrow> bool \<Rightarrow> u32" where
  "micros s t tov =
     (let m = timer0_overflow_count s; m' = (if tov \<and> t < 255 then m + 1 else m)
      in (push_bit 8 m' + ucast t) * (64 div 16))"

section \<open>Delays\<close>

text \<open>The successive values that the calls of \<open>micros\<close> return; \<open>None\<close> when they end before the delay.\<close>

fun delay_loop :: "u32 list \<Rightarrow> u32 \<Rightarrow> u16 \<Rightarrow> u32 list option" where
  "delay_loop ts ms start =
     (if ms > 0
      then (case ts of
              [] \<Rightarrow> None
            | t # ts' \<Rightarrow> if ucast t - start \<ge> 1000 then delay_loop ts' (ms - 1) (start + 1000)
                        else delay_loop ts' ms start)
      else Some ts)"

declare delay_loop.simps [simp del]

fun delay :: "u32 list \<Rightarrow> u32 \<Rightarrow> u32 list option" where
  "delay [] ms = None"
| "delay (t # ts) ms = delay_loop ts ms (ucast t)"

text \<open>The number of passes through the busy loop of four cycles.\<close>

definition delayMicroseconds_passes :: "u16 \<Rightarrow> nat" where
  "delayMicroseconds_passes us =
     (let us1 = us - 1
      in if us1 = 0 then 0
         else (let us2 = push_bit 2 us1 - 2 in if us2 = 0 then 65536 else unat us2))"

section \<open>Set-up\<close>

record timer_regs =
  TCCR0A :: u8
  TCCR0B :: u8
  TIMSK0 :: u8
  TCCR1A :: u8
  TCCR1B :: u8
  TCCR2A :: u8
  TCCR2B :: u8
  TCCR3A :: u8
  TCCR3B :: u8
  ADCSRA :: u8
  SREG_I :: bool

text \<open>Bit numbers of the AT90USB1287.\<close>

definition wiring_init :: "timer_regs \<Rightarrow> timer_regs" where
  "wiring_init r =
     r\<lparr>SREG_I := True,
       TCCR0A := sbi (sbi (TCCR0A r) 1) 0,
       TCCR0B := sbi (sbi (TCCR0B r) 1) 0,
       TIMSK0 := sbi (TIMSK0 r) 0,
       TCCR1B := sbi (sbi 0 1) 0,
       TCCR1A := sbi (TCCR1A r) 0,
       TCCR2B := sbi (TCCR2B r) 2,
       TCCR2A := sbi (TCCR2A r) 0,
       TCCR3B := sbi (sbi (TCCR3B r) 1) 0,
       TCCR3A := sbi (TCCR3A r) 0,
       ADCSRA := sbi (sbi (sbi (sbi (ADCSRA r) 2) 1) 0) 7\<rparr>"

text \<open>The clock cycles per count that the prescaler bits of timer 0 select.\<close>

fun prescaler0 :: "u8 \<Rightarrow> nat option" where
  "prescaler0 b = (let cs = b AND 7 in if cs = 1 then Some 1 else if cs = 2 then Some 8 else if cs = 3 then Some 64
     else if cs = 4 then Some 256 else if cs = 5 then Some 1024 else None)"

section \<open>Properties\<close>

lemmas time_consts = MICROSECONDS_PER_TIMER0_OVERFLOW_def clockCyclesToMicroseconds_def MILLIS_INC_def
  FRACT_INC_def FRACT_MAX_def

lemma TIMER0_OVF_step:
  "TIMER0_OVF \<lparr>timer0_overflow_count = c, timer0_millis = m, timer0_fract = f\<rparr> =
     (if f + 3 \<ge> 125 then \<lparr>timer0_overflow_count = c + 1, timer0_millis = m + 2, timer0_fract = f + 3 - 125\<rparr>
      else \<lparr>timer0_overflow_count = c + 1, timer0_millis = m + 1, timer0_fract = f + 3\<rparr>)"
  by (simp add: TIMER0_OVF_def time_consts)

lemma TIMER0_OVF_run:
  "\<exists>M f. (TIMER0_OVF ^^ k) timer0_init =
      \<lparr>timer0_overflow_count = of_nat k, timer0_millis = of_nat M, timer0_fract = of_nat f\<rparr> \<and>
    f < 125 \<and> 125 * M + f = 128 * k"
proof (induction k)
  case 0
  show ?case by (intro exI [of _ 0]) (simp add: timer0_init_def)
next
  case (Suc k)
  then obtain M f where s: "(TIMER0_OVF ^^ k) timer0_init =
      \<lparr>timer0_overflow_count = of_nat k, timer0_millis = of_nat M, timer0_fract = of_nat f\<rparr>"
    and f: "f < 125" "125 * M + f = 128 * k" by blast
  have ge: "(of_nat f + 3 :: u8) \<ge> 125 \<longleftrightarrow> f + 3 \<ge> 125"
    using f(1) unfolding word_le_nat_alt by (simp add: unat_word_ariths unat_of_nat)
  show ?case
  proof (cases "f + 3 \<ge> 125")
    case True
    have "(of_nat f + 3 - 125 :: u8) = of_nat (f + 3 - 125)" using True by (simp add: of_nat_diff)
    then have "(TIMER0_OVF ^^ Suc k) timer0_init = \<lparr>timer0_overflow_count = of_nat (Suc k),
        timer0_millis = of_nat (M + 2), timer0_fract = of_nat (f + 3 - 125)\<rparr>"
      using True ge by (simp add: s TIMER0_OVF_step del: diff_add_cancel)
    then show ?thesis using f True by (intro exI conjI) (assumption, simp_all)
  next
    case False
    then have "(TIMER0_OVF ^^ Suc k) timer0_init = \<lparr>timer0_overflow_count = of_nat (Suc k),
        timer0_millis = of_nat (M + 1), timer0_fract = of_nat (f + 3)\<rparr>"
      using ge by (simp add: s TIMER0_OVF_step add.commute)
    then show ?thesis using f False by (intro exI conjI) (assumption, simp_all)
  qed
qed

lemma TIMER0_OVF_millis:
  "millis ((TIMER0_OVF ^^ k) timer0_init) = of_nat (k * MICROSECONDS_PER_TIMER0_OVERFLOW div 1000)"
proof -
  obtain M f where s: "(TIMER0_OVF ^^ k) timer0_init =
      \<lparr>timer0_overflow_count = of_nat k, timer0_millis = of_nat M, timer0_fract = of_nat f\<rparr>"
    and f: "f < 125" "125 * M + f = 128 * k" using TIMER0_OVF_run by blast
  have "k * 1024 div 1000 = (128 * k) div 125" by simp
  also have "\<dots> = M" using f by (simp flip: f(2))
  finally show ?thesis using s by (simp add: millis_def time_consts)
qed

text \<open>
  C22: After any number of timer overflows, \<open>millis\<close> is the elapsed time of 1024 microseconds each in
  whole milliseconds, modulo \<open>2^32\<close>: the fractions lose nothing.
\<close>

theorem millis_exact:
  "millis ((TIMER0_OVF ^^ k) timer0_init) = of_nat (k * MICROSECONDS_PER_TIMER0_OVERFLOW div 1000) \<and>
   timer0_overflow_count ((TIMER0_OVF ^^ k) timer0_init) = of_nat k"
  using TIMER0_OVF_millis [of k] TIMER0_OVF_run [of k] by auto

text \<open>
  \<open>micros\<close> is four times the number of counts of timer 0 since the start, modulo \<open>2^32\<close>, in
  interrupt code and in the race with an overflow as well: \<open>T\<close> counts had passed when the timer was
  read and \<open>T'\<close>, at most one more, when the flag was read; the interrupt has been served for all
  overflows but at most one, which lies less than 255 counts back.
\<close>

theorem micros_exact:
  assumes "timer0_overflow_count s = of_nat c" "T \<le> T'" "T' \<le> T + 1"
    "c = T div 256 \<or> c + 1 = T div 256 \<and> T mod 256 < 255"
  shows "micros s (of_nat T) (T' div 256 > c) = of_nat (4 * T)"
proof -
  have t: "unat (of_nat T :: u8) = T mod 256" by (simp add: unat_of_nat)
  then have t32: "(ucast (of_nat T :: u8) :: u32) = of_nat (T mod 256)" by (metis of_nat_unat)
  have lt: "(of_nat T :: u8) < 255 \<longleftrightarrow> T mod 256 < 255" by (simp add: word_less_nat_alt t)
  have "(if T' div 256 > c \<and> (of_nat T :: u8) < 255 then (of_nat c + 1) else of_nat c) = (of_nat (T div 256) :: u32)"
  proof (cases "c = T div 256")
    case True
    have "T mod 256 = 255" if "T' div 256 > c"
    proof (rule ccontr)
      assume "T mod 256 \<noteq> 255"
      then have "Suc (T mod 256) < 256" using mod_less_divisor [of 256 T] by linarith
      then have "(T + 1) div 256 = T div 256" by (simp add: div_Suc mod_Suc)
      then show False using that True div_le_mono [OF assms(3), of 256] by simp
    qed
    then show ?thesis using True lt by auto
  next
    case False
    then have c: "c + 1 = T div 256" "T mod 256 < 255" using assms(4) by auto
    moreover have "T' div 256 > c" using c(1) div_le_mono [OF assms(2), of 256] by linarith
    ultimately show ?thesis using lt by (simp flip: c(1))
  qed
  then have "micros s (of_nat T) (T' div 256 > c) = (push_bit 8 (of_nat (T div 256)) + of_nat (T mod 256)) * 4"
    using assms(1) by (simp add: micros_def Let_def t32)
  also have "\<dots> = of_nat (((T div 256) * 256 + T mod 256) * 4)" 
    by (simp only: push_bit_eq_mult of_nat_add of_nat_mult) simp
  also have "\<dots> = of_nat (4 * T)" by simp
  finally show ?thesis .
qed

theorem micros_exact_witness:
  "micros \<lparr>timer0_overflow_count = 2, timer0_millis = 3, timer0_fract = 0\<rparr> 255 True = 3068"
proof -
  have eq: "(767 :: u8) = 255" by code_simp
  have "micros \<lparr>timer0_overflow_count = 2, timer0_millis = 3, timer0_fract = 0\<rparr> 767 True = 3068"
    using micros_exact [of "\<lparr>timer0_overflow_count = 2, timer0_millis = 3, timer0_fract = 0\<rparr>" 2 767 768] by simp
  then show ?thesis unfolding eq .
qed

section \<open>Delays\<close>

lemma delay_loop_0 [simp]: "delay_loop ts 0 start = Some ts"
  by (simp add: delay_loop.simps)

lemma ucast_of_nat_u16: "(ucast (of_nat t :: u32) :: u16) = of_nat t"
  by (simp add: word_unat_eq_iff unsigned_ucast_eq unat_of_nat take_bit_eq_mod mod_mod_cancel)

lemma elapsed16:
  assumes "S \<le> t" "t < S + 65536"
  shows "unat (ucast (of_nat t :: u32) - of_nat S :: u16) = t - S"
proof -
  have eq: "(ucast (of_nat t :: u32) - of_nat S :: u16) = of_nat (t - S)"
    using assms(1) by (simp add: of_nat_diff ucast_of_nat_u16)
  show ?thesis unfolding eq using assms by (simp add: unat_of_nat del: of_nat_diff)
qed

text \<open>
  The loop from a sample \<open>i\<close> that lies less than a millisecond after the current start.
\<close>

lemma delay_loop_returns:
  assumes step: "\<And>i. T i \<le> T (Suc i) \<and> T (Suc i) \<le> T i + g" and g: "g \<le> 1000"
  shows "i \<le> n \<Longrightarrow> S \<le> T i \<Longrightarrow> T i < S + 1000 \<Longrightarrow> S + 1000 * unat ms \<le> T n \<Longrightarrow> ms \<noteq> 0 \<Longrightarrow>
    \<exists>k\<le>n. delay_loop (map (\<lambda>i. of_nat (T i)) [Suc i..<Suc n]) ms (of_nat S) = Some (map (\<lambda>i. of_nat (T i)) [Suc k..<Suc n]) \<and>
      S + 1000 * unat ms \<le> T k \<and> T k < S + 1000 * unat ms + g"
proof (induction "n - i" arbitrary: i S ms)
  case 0
  have "unat ms \<ge> 1" using 0(6) by (simp add: Suc_le_eq unat_gt_0)
  then show ?case using 0 by simp
next
  case (Suc d)
  then have i: "Suc i \<le> n" "d = n - Suc i" by auto
  have ms: "unat ms = Suc (unat (ms - 1))" using Suc.prems(5) by (rule unat_dec)
  have lst: "map (\<lambda>i. of_nat (T i)) [Suc i..<Suc n] = of_nat (T (Suc i)) # map (\<lambda>i. of_nat (T i)) [Suc (Suc i)..<Suc n]"
    using i(1) by (simp add: upt_rec)
  have el: "unat (ucast (of_nat (T (Suc i)) :: u32) - of_nat S :: u16) = T (Suc i) - S"
    using elapsed16 [of S "T (Suc i)"] step [of i] g Suc.prems by simp
  have ge: "(1000 \<le> (ucast (of_nat (T (Suc i)) :: u32) - of_nat S :: u16)) \<longleftrightarrow> S + 1000 \<le> T (Suc i)"
    unfolding word_le_nat_alt el using step [of i] Suc.prems by auto
  have unf: "delay_loop (map (\<lambda>i. of_nat (T i)) [Suc i..<Suc n]) ms (of_nat S) =
      (if S + 1000 \<le> T (Suc i)
       then delay_loop (map (\<lambda>i. of_nat (T i)) [Suc (Suc i)..<Suc n]) (ms - 1) (of_nat S + 1000)
       else delay_loop (map (\<lambda>i. of_nat (T i)) [Suc (Suc i)..<Suc n]) ms (of_nat S))"
    unfolding lst using Suc.prems(5) by (subst delay_loop.simps) (simp only: list.case ge word_neq_0_conv [symmetric] if_True, simp)
  show ?case
  proof (cases "S + 1000 \<le> T (Suc i)")
    case False
    then show ?thesis using Suc.hyps(1) [OF i(2) i(1), of S ms] Suc.prems step [of i] unfolding unf by simp
  next
    case True
    show ?thesis
    proof (cases "ms = 1")
      case one: True
      then show ?thesis using True unf i(1) step [of i] Suc.prems by (intro exI [of _ "Suc i"]) simp
    next
      case False
      then have ms1: "ms - 1 \<noteq> 0" by simp
      have S1: "(of_nat S + 1000 :: u16) = of_nat (S + 1000)" by simp
      have "\<exists>k\<le>n. delay_loop (map (\<lambda>i. of_nat (T i)) [Suc (Suc i)..<Suc n]) (ms - 1) (of_nat (S + 1000)) =
            Some (map (\<lambda>i. of_nat (T i)) [Suc k..<Suc n]) \<and>
          (S + 1000) + 1000 * unat (ms - 1) \<le> T k \<and> T k < (S + 1000) + 1000 * unat (ms - 1) + g"
        using Suc.hyps(1) [OF i(2) i(1), of "S + 1000" "ms - 1"] True ms1 Suc.prems step [of i] g ms by simp
      then show ?thesis using True ms unfolding unf S1 by (auto simp: add.assoc)
    qed
  qed
qed

text \<open>
  C23: \<open>delay(ms)\<close> returns as soon as the clock has advanced by that time, and never before: when the
  clock is read at least once every \<open>g\<close> microseconds, \<open>g\<close> at most 1000, it returns at a reading \<open>k\<close>
  between \<open>1000 ms\<close> and \<open>1000 ms + g\<close> microseconds after the first one, although only the low 16 bits of
  the clock are compared.
\<close>

theorem delay_accurate:
  assumes "\<forall>i. T i \<le> T (Suc i) \<and> T (Suc i) \<le> T i + g" "g \<le> 1000" "ms \<noteq> 0" "T 0 + 1000 * unat ms \<le> T n"
  shows "\<exists>k\<le>n. delay (map (\<lambda>i. of_nat (T i)) [0..<Suc n]) ms = Some (map (\<lambda>i. of_nat (T i)) [Suc k..<Suc n]) \<and>
    T 0 + 1000 * unat ms \<le> T k \<and> T k < T 0 + 1000 * unat ms + g"
proof -
  have lst: "map (\<lambda>i. of_nat (T i) :: u32) [0..<Suc n] = of_nat (T 0) # map (\<lambda>i. of_nat (T i)) [Suc 0..<Suc n]"
    by (subst upt_conv_Cons) simp_all
  have u: "(ucast (of_nat (T 0) :: u32) :: u16) = of_nat (T 0)" by (rule ucast_of_nat_u16)
  show ?thesis
    using delay_loop_returns [of T g 0 n "T 0" ms] assms unfolding lst delay.simps u by simp
qed

theorem delay_accurate_witness:
  "\<exists>k\<le>40. delay (map (\<lambda>i. of_nat (4294967000 + 100 * i)) [0..<41]) 3 =
      Some (map (\<lambda>i. of_nat (4294967000 + 100 * i)) [Suc k..<41]) \<and> 4294970000 \<le> 4294967000 + 100 * k"
  using delay_accurate [of "\<lambda>i. 4294967000 + 100 * i" 100 3 40] by auto

text \<open>
  The busy loop of \<open>delayMicroseconds\<close>: for 2 to 16384 microseconds it runs \<open>4 us - 6\<close> times four
  cycles, a microsecond and a half less than asked for; an argument of 0 wraps around to 65530 passes,
  more than 16 milliseconds.
\<close>

theorem delayMicroseconds_bounds:
  "(2 \<le> unat us \<and> unat us \<le> 16384 \<longrightarrow> delayMicroseconds_passes us = 4 * unat us - 6) \<and>
   delayMicroseconds_passes 1 = 0 \<and> delayMicroseconds_passes 0 = 65530"
proof -
  have "delayMicroseconds_passes us = 4 * unat us - 6" if a: "2 \<le> unat us" "unat us \<le> 16384"
  proof -
    have ne: "us \<noteq> 0" using a by auto
    have u1: "unat (us - 1) = unat us - 1" using unat_dec [OF ne] by simp
    then have nz: "us - 1 \<noteq> 0" using a by (metis One_nat_def diff_is_0_eq not_numeral_le_zero unat_0 Suc_1 le_antisym not_less_eq_eq)
    have "unat (push_bit 2 w) = 4 * unat w" if "unat w < 16384" for w :: u16
      using that by (simp add: push_bit_eq_mult unat_word_ariths)
    then have "unat (push_bit 2 (us - 1)) = 4 * (unat us - 1)" using a u1 by simp
    then have u2: "unat (push_bit 2 (us - 1) - 2) = 4 * (unat us - 1) - 2"
      using a by (subst unat_sub) (simp_all add: word_le_nat_alt)
    have "push_bit 2 (us - 1) - 2 \<noteq> 0"
    proof
      assume z: "push_bit 2 (us - 1) - 2 = 0"
      show False using u2 a unfolding z by simp
    qed
    then show ?thesis using nz u2 a by (simp add: delayMicroseconds_passes_def Let_def)
  qed
  moreover have w: "(0 - 1 :: u16) \<noteq> 0" "push_bit 2 (0 - 1) - 2 = (65530 :: u16)" by code_simp+
  have "delayMicroseconds_passes 0 = 65530" unfolding delayMicroseconds_passes_def Let_def w(2) using w(1) by simp
  moreover have "delayMicroseconds_passes 1 = 0" by (simp add: delayMicroseconds_passes_def)
  ultimately show ?thesis by blast
qed

theorem delayMicroseconds_bounds_witness: "delayMicroseconds_passes 100 = 394 \<and> delayMicroseconds_passes 0 = 65530"
  using delayMicroseconds_bounds [of 100] by simp

text \<open>
  The set-up starts timer 0 with the prescaler that the interrupt's constants assume and enables its
  overflow interrupt.
\<close>

lemma wiring_init_timer0:
  assumes "\<not> bit (TCCR0B r) 2"
  shows "prescaler0 (TCCR0B (wiring_init r)) = Some 64 \<and> bit (TIMSK0 (wiring_init r)) 0 \<and> SREG_I (wiring_init r) \<and>
    clockCyclesToMicroseconds (64 * 256) = MICROSECONDS_PER_TIMER0_OVERFLOW"
proof -
  have "sbi (sbi (TCCR0B r) 1) 0 AND 7 = 3"
  proof (rule bit_word_eqI)
    fix n assume "n < LENGTH(8)"
    then have "n = 0 \<or> n = 1 \<or> n = 2 \<or> n = 3 \<or> n = 4 \<or> n = 5 \<or> n = 6 \<or> n = 7" by auto
    then show "bit (sbi (sbi (TCCR0B r) 1) 0 AND 7) n \<longleftrightarrow> bit (3 :: u8) n"
      using assms by (elim disjE) (simp_all add: bit_and_iff)
  qed
  then show ?thesis by (simp add: wiring_init_def time_consts)
qed

end
