(* ===== verification/Wiring_Pins.thy ===== *)
theory Wiring_Pins
  imports AVR_Prelude
begin

text \<open>
  Pins of the core on the AT90USB128X board: the pin tables (\<open>variants/at90usb128X/pins_arduino.h\<close>),
  \<open>pinMode\<close>, \<open>digitalWrite\<close>, \<open>digitalRead\<close> (\<open>wiring_digital.c\<close>), \<open>analogRead\<close> and \<open>_analogWrite\<close>
  (\<open>wiring_analog.c\<close>), \<open>shiftIn\<close> and \<open>shiftOut\<close> (\<open>wiring_shift.c\<close>), \<open>pulseIn\<close> (\<open>wiring_pulse.c\<close>) and the
  external interrupts (\<open>WInterrupts.c\<close>).  A pin number outside the tables is read beyond the array in
  program memory: \<open>None\<close>.
\<close>

section \<open>Tables\<close>

text \<open>Ports A to F are 1 to 6; eight pins each.\<close>

definition digital_pin_to_port :: "nat list" where
  "digital_pin_to_port = concat (map (replicate 8) [1, 2, 3, 4, 5, 6])"

definition digital_pin_to_bit_mask :: "u8 list" where
  "digital_pin_to_bit_mask = concat (replicate 6 (map BV [0..<8]))"

datatype pwm_timer =
  NOT_ON_TIMER | TIMER0A | TIMER0B | TIMER1A | TIMER1B | TIMER1C | TIMER2A | TIMER2B | TIMER3A | TIMER3B | TIMER3C

definition digital_pin_to_timer :: "pwm_timer list" where
  "digital_pin_to_timer =
     replicate 8 NOT_ON_TIMER @
     [NOT_ON_TIMER, NOT_ON_TIMER, NOT_ON_TIMER, NOT_ON_TIMER, TIMER2A, TIMER1A, TIMER1B, TIMER0A] @
     [NOT_ON_TIMER, NOT_ON_TIMER, NOT_ON_TIMER, NOT_ON_TIMER, TIMER3C, TIMER3B, TIMER3A, NOT_ON_TIMER] @
     [TIMER0B, TIMER2B] @ replicate 6 NOT_ON_TIMER @ replicate 8 NOT_ON_TIMER @ replicate 8 NOT_ON_TIMER"

definition digitalPinToPCMSKbit :: "nat \<Rightarrow> nat option" where
  "digitalPinToPCMSKbit p = (if 20 \<le> p \<and> p \<le> 27 then Some ((p - 20) mod 8) else None)"

section \<open>Registers\<close>

text \<open>
  \<open>io_levels\<close> records the levels written to pins in order, for the devices connected to them.
\<close>

record mcu_io =
  io_ddr :: "nat \<Rightarrow> u8"
  io_port :: "nat \<Rightarrow> u8"
  io_tccr0a :: u8
  io_tccr1a :: u8
  io_tccr2a :: u8
  io_tccr3a :: u8
  io_ocr8 :: "pwm_timer \<Rightarrow> u8"
  io_ocr16 :: "pwm_timer \<Rightarrow> u16"
  io_admux :: u8
  io_adcsra :: u8
  io_didr0 :: u8
  io_levels :: "(u8 \<times> bool) list"

text \<open>Modes: 0 input, 2 input with pull-up, all others output.\<close>

definition pinMode :: "u8 \<Rightarrow> u8 \<Rightarrow> mcu_io \<Rightarrow> mcu_io option" where
  "pinMode pin mode io =
     do { m \<leftarrow> arr_get digital_pin_to_bit_mask (unat pin);
          port \<leftarrow> arr_get digital_pin_to_port (unat pin);
          if port = 0 then Some io
          else if mode = 0
          then Some (io\<lparr>io_ddr := (io_ddr io)(port := io_ddr io port AND NOT m),
                        io_port := (io_port io)(port := io_port io port AND NOT m)\<rparr>)
          else if mode = 2
          then Some (io\<lparr>io_ddr := (io_ddr io)(port := io_ddr io port AND NOT m),
                        io_port := (io_port io)(port := io_port io port OR m)\<rparr>)
          else Some (io\<lparr>io_ddr := (io_ddr io)(port := io_ddr io port OR m)\<rparr>) }"

text \<open>The output compare bits: 7 for channel A, 5 for B, 3 for C.\<close>

fun turnOffPWM :: "pwm_timer \<Rightarrow> mcu_io \<Rightarrow> mcu_io" where
  "turnOffPWM TIMER1A io = io\<lparr>io_tccr1a := cbi (io_tccr1a io) 7\<rparr>"
| "turnOffPWM TIMER1B io = io\<lparr>io_tccr1a := cbi (io_tccr1a io) 5\<rparr>"
| "turnOffPWM TIMER0A io = io\<lparr>io_tccr0a := cbi (io_tccr0a io) 7\<rparr>"
| "turnOffPWM TIMER0B io = io\<lparr>io_tccr0a := cbi (io_tccr0a io) 5\<rparr>"
| "turnOffPWM TIMER2A io = io\<lparr>io_tccr2a := cbi (io_tccr2a io) 7\<rparr>"
| "turnOffPWM TIMER2B io = io\<lparr>io_tccr2a := cbi (io_tccr2a io) 5\<rparr>"
| "turnOffPWM TIMER3A io = io\<lparr>io_tccr3a := cbi (io_tccr3a io) 7\<rparr>"
| "turnOffPWM TIMER3B io = io\<lparr>io_tccr3a := cbi (io_tccr3a io) 5\<rparr>"
| "turnOffPWM TIMER3C io = io\<lparr>io_tccr3a := cbi (io_tccr3a io) 3\<rparr>"
| "turnOffPWM _ io = io"

definition digitalWrite :: "u8 \<Rightarrow> u8 \<Rightarrow> mcu_io \<Rightarrow> mcu_io option" where
  "digitalWrite pin val io =
     do { timer \<leftarrow> arr_get digital_pin_to_timer (unat pin);
          m \<leftarrow> arr_get digital_pin_to_bit_mask (unat pin);
          port \<leftarrow> arr_get digital_pin_to_port (unat pin);
          if port = 0 then Some io
          else (let io1 = (if timer \<noteq> NOT_ON_TIMER then turnOffPWM timer io else io)
                in Some (io1\<lparr>io_port := (io_port io1)(port := if val = 0 then io_port io1 port AND NOT m
                                                               else io_port io1 port OR m),
                             io_levels := io_levels io1 @ [(pin, val \<noteq> 0)]\<rparr>)) }"

text \<open>\<open>pins\<close> are the input registers at the moment of the reading.\<close>

definition digitalRead :: "(nat \<Rightarrow> u8) \<Rightarrow> u8 \<Rightarrow> mcu_io \<Rightarrow> (u8 \<times> mcu_io) option" where
  "digitalRead pins pin io =
     do { timer \<leftarrow> arr_get digital_pin_to_timer (unat pin);
          m \<leftarrow> arr_get digital_pin_to_bit_mask (unat pin);
          port \<leftarrow> arr_get digital_pin_to_port (unat pin);
          if port = 0 then Some (0, io)
          else (let io1 = (if timer \<noteq> NOT_ON_TIMER then turnOffPWM timer io else io)
                in Some (if pins port AND m \<noteq> 0 then 1 else 0, io1)) }"

section \<open>Analog input and output\<close>

text \<open>The successive values of the control register seen by the wait for the end of the conversion.\<close>

fun adc_wait :: "u8 list \<Rightarrow> u8 option" where
  "adc_wait [] = None"
| "adc_wait (r # rs) = (if bit r 6 then adc_wait rs else Some r)"

definition analogRead :: "u8 \<Rightarrow> u8 list \<Rightarrow> u8 \<Rightarrow> u8 \<Rightarrow> u8 \<Rightarrow> mcu_io \<Rightarrow> (u16 \<times> mcu_io) option" where
  "analogRead w_analog_reference samples adcl adch pin io =
     (let p = (if pin \<ge> 40 \<and> pin \<le> 47 then pin - 40 else pin);
          io1 = (if p < 8 then io\<lparr>io_didr0 := io_didr0 io OR push_bit (unat p) 1\<rparr> else io);
          io2 = io1\<lparr>io_admux := w_analog_reference OR (p AND 0x1F), io_adcsra := sbi (io_adcsra io1) 6\<rparr>
      in do { r \<leftarrow> adc_wait samples;
              Some (push_bit 8 (ucast adch) OR ucast adcl, io2\<lparr>io_adcsra := r\<rparr>) })"

definition pwm8 :: "pwm_timer \<Rightarrow> u16 \<Rightarrow> mcu_io \<Rightarrow> mcu_io" where
  "pwm8 t val io = io\<lparr>io_ocr8 := (io_ocr8 io)(t := ucast val)\<rparr>"

definition pwm16 :: "pwm_timer \<Rightarrow> u16 \<Rightarrow> mcu_io \<Rightarrow> mcu_io" where
  "pwm16 t val io = io\<lparr>io_ocr16 := (io_ocr16 io)(t := val)\<rparr>"

text \<open>\<open>val\<close> is the 16-bit \<open>int\<close>; the comparison with 128 is signed.\<close>

definition analogWrite_impl :: "u8 \<Rightarrow> u16 \<Rightarrow> mcu_io \<Rightarrow> mcu_io option" where
  "analogWrite_impl pin val io =
     do { io1 \<leftarrow> pinMode pin 1 io;
          if pin = 24
          then Some (if val = 0
                     then io1\<lparr>io_port := (io_port io1)(4 := cbi (io_port io1 4) 0), io_tccr0a := cbi (io_tccr0a io1) 5\<rparr>
                     else (pwm8 TIMER0B val io1)\<lparr>io_tccr0a := sbi (io_tccr0a io1) 5\<rparr>)
          else if pin = 13 then Some ((pwm16 TIMER1A val io1)\<lparr>io_tccr1a := sbi (io_tccr1a io1) 7\<rparr>)
          else if pin = 14 then Some ((pwm16 TIMER1B val io1)\<lparr>io_tccr1a := sbi (io_tccr1a io1) 5\<rparr>)
          else if pin = 15 then Some ((pwm16 TIMER1C val io1)\<lparr>io_tccr1a := sbi (io_tccr1a io1) 3\<rparr>)
          else if pin = 12 then Some ((pwm8 TIMER2A val io1)\<lparr>io_tccr2a := sbi (io_tccr2a io1) 7\<rparr>)
          else if pin = 25 then Some ((pwm8 TIMER2B val io1)\<lparr>io_tccr2a := sbi (io_tccr2a io1) 5\<rparr>)
          else if pin = 22 then Some ((pwm16 TIMER3A val io1)\<lparr>io_tccr3a := sbi (io_tccr3a io1) 7\<rparr>)
          else if pin = 21 then Some ((pwm16 TIMER3B val io1)\<lparr>io_tccr3a := sbi (io_tccr3a io1) 5\<rparr>)
          else if pin = 20 then Some ((pwm16 TIMER3C val io1)\<lparr>io_tccr3a := sbi (io_tccr3a io1) 3\<rparr>)
          else if sint val < 128 then digitalWrite pin 0 io1 else digitalWrite pin 1 io1 }"

section \<open>Shifting bytes\<close>

text \<open>
  \<open>LSBFIRST\<close> is 0.  The levels that the input registers show depend on the levels written so far: the
  connected device is the function \<open>dev\<close>.
\<close>

definition shift_pos :: "u8 \<Rightarrow> nat \<Rightarrow> nat" where
  "shift_pos bitOrder i = (if bitOrder = 0 then i else 7 - i)"

fun shiftIn_from ::
    "((u8 \<times> bool) list \<Rightarrow> nat \<Rightarrow> u8) \<Rightarrow> u8 \<Rightarrow> u8 \<Rightarrow> u8 \<Rightarrow> nat list \<Rightarrow> u8 \<Rightarrow> mcu_io \<Rightarrow> (u8 \<times> mcu_io) option" where
  "shiftIn_from dev dataPin clockPin bitOrder [] value io = Some (value, io)"
| "shiftIn_from dev dataPin clockPin bitOrder (i # is) value io =
     do { io1 \<leftarrow> digitalWrite clockPin 1 io;
          (b, io2) \<leftarrow> digitalRead (dev (io_levels io1)) dataPin io1;
          io3 \<leftarrow> digitalWrite clockPin 0 io2;
          shiftIn_from dev dataPin clockPin bitOrder is (value OR push_bit (shift_pos bitOrder i) b) io3 }"

definition shiftIn ::
    "((u8 \<times> bool) list \<Rightarrow> nat \<Rightarrow> u8) \<Rightarrow> u8 \<Rightarrow> u8 \<Rightarrow> u8 \<Rightarrow> mcu_io \<Rightarrow> (u8 \<times> mcu_io) option" where
  "shiftIn dev dataPin clockPin bitOrder io = shiftIn_from dev dataPin clockPin bitOrder [0..<8] 0 io"

fun shiftOut_from :: "u8 \<Rightarrow> u8 \<Rightarrow> u8 \<Rightarrow> u8 \<Rightarrow> nat list \<Rightarrow> mcu_io \<Rightarrow> mcu_io option" where
  "shiftOut_from dataPin clockPin bitOrder val [] io = Some io"
| "shiftOut_from dataPin clockPin bitOrder val (i # is) io =
     do { io1 \<leftarrow> digitalWrite dataPin (if val AND push_bit (shift_pos bitOrder i) 1 \<noteq> 0 then 1 else 0) io;
          io2 \<leftarrow> digitalWrite clockPin 1 io1;
          io3 \<leftarrow> digitalWrite clockPin 0 io2;
          shiftOut_from dataPin clockPin bitOrder val is io3 }"

definition shiftOut :: "u8 \<Rightarrow> u8 \<Rightarrow> u8 \<Rightarrow> u8 \<Rightarrow> mcu_io \<Rightarrow> mcu_io option" where
  "shiftOut dataPin clockPin bitOrder val io = shiftOut_from dataPin clockPin bitOrder val [0..<8] io"

section \<open>Measuring a pulse\<close>

text \<open>
  Each sample is whether the pin has the wanted level at one reading.  A wait returns \<open>Some None\<close> at the
  time-out, otherwise the loop counter, the number of passes and the later samples.
\<close>

fun pulse_wait :: "bool \<Rightarrow> bool list \<Rightarrow> u32 \<Rightarrow> u32 \<Rightarrow> u32 \<Rightarrow> (u32 \<times> u32 \<times> bool list) option option" where
  "pulse_wait v [] numloops maxloops width = None"
| "pulse_wait v (x # xs) numloops maxloops width =
     (if x = v
      then (if numloops = maxloops then Some None else pulse_wait v xs (numloops + 1) maxloops (width + 1))
      else Some (Some (numloops, width, xs)))"

definition pulse_maxloops :: "u32 \<Rightarrow> u32" where
  "pulse_maxloops timeout = timeout * 16 div 16"

definition pulseIn :: "bool list \<Rightarrow> u32 \<Rightarrow> u32 option" where
  "pulseIn samples timeout =
     (let maxloops = pulse_maxloops timeout in
      do { r1 \<leftarrow> pulse_wait True samples 0 maxloops 0;
           case r1 of
             None \<Rightarrow> Some 0
           | Some (n1, _, xs1) \<Rightarrow>
               do { r2 \<leftarrow> pulse_wait False xs1 n1 maxloops 0;
                    case r2 of
                      None \<Rightarrow> Some 0
                    | Some (n2, _, xs2) \<Rightarrow>
                        do { r3 \<leftarrow> pulse_wait True xs2 n2 maxloops 0;
                             case r3 of
                               None \<Rightarrow> Some 0
                             | Some (_, width, _) \<Rightarrow> Some ((width * 21 + 16) div 16) } } })"

section \<open>External interrupts\<close>

record 'f ext_int =
  ei_func :: "'f option list"
  ei_eicra :: u8
  ei_eicrb :: u8
  ei_eimsk :: u8

text \<open>The hardware interrupt that a number stands for.\<close>

definition int_line :: "nat \<Rightarrow> nat" where
  "int_line n = (if n = 0 then 4 else if n = 1 then 5 else if n < 6 then n - 2 else n)"

definition set_mode :: "u8 \<Rightarrow> nat \<Rightarrow> u16 \<Rightarrow> u8" where
  "set_mode r pos mode = (r AND NOT (BV pos OR BV (pos + 1))) OR push_bit pos (ucast mode)"

definition attachInterrupt :: "u8 \<Rightarrow> 'f \<Rightarrow> u16 \<Rightarrow> 'f ext_int \<Rightarrow> 'f ext_int option" where
  "attachInterrupt interruptNum userFunc mode e =
     (if interruptNum < 8
      then do { fs \<leftarrow> arr_set (ei_func e) (unat interruptNum) (Some userFunc);
                let k = int_line (unat interruptNum);
                let e1 = e\<lparr>ei_func := fs\<rparr>;
                let e2 = (if k < 4 then e1\<lparr>ei_eicra := set_mode (ei_eicra e1) (2 * k) mode\<rparr>
                          else e1\<lparr>ei_eicrb := set_mode (ei_eicrb e1) (2 * (k - 4)) mode\<rparr>);
                Some (e2\<lparr>ei_eimsk := sbi (ei_eimsk e2) k\<rparr>) }
      else Some e)"

definition detachInterrupt :: "u8 \<Rightarrow> 'f ext_int \<Rightarrow> 'f ext_int option" where
  "detachInterrupt interruptNum e =
     (if interruptNum < 8
      then do { let e1 = e\<lparr>ei_eimsk := cbi (ei_eimsk e) (int_line (unat interruptNum))\<rparr>;
                fs \<leftarrow> arr_set (ei_func e1) (unat interruptNum) None;
                Some (e1\<lparr>ei_func := fs\<rparr>) }
      else Some e)"

text \<open>The handler of the vector \<open>INT0\<close> to \<open>INT7\<close> calls the function of the number \<open>EXTERNAL_INT_n\<close>.\<close>

definition INT_vect :: "nat \<Rightarrow> 'f ext_int \<Rightarrow> 'f option option" where
  "INT_vect k e = arr_get (ei_func e) ([2, 3, 4, 5, 0, 1, 6, 7] ! k)"

section \<open>Pins and ports\<close>

lemma pin_tables:
  assumes "p < 48"
  shows "arr_get digital_pin_to_port p = Some (p div 8 + 1) \<and> arr_get digital_pin_to_bit_mask p = Some (BV (p mod 8)) \<and>
    (\<exists>t. arr_get digital_pin_to_timer p = Some t)"
proof -
  have "\<forall>p\<in>set [0..<48]. arr_get digital_pin_to_port p = Some (p div 8 + 1) \<and>
      arr_get digital_pin_to_bit_mask p = Some (BV (p mod 8)) \<and> arr_get digital_pin_to_timer p \<noteq> None"
    by code_simp
  then show ?thesis using assms by auto
qed

lemma turnOffPWM_frame:
  "io_port (turnOffPWM t io) = io_port io" "io_ddr (turnOffPWM t io) = io_ddr io" "io_levels (turnOffPWM t io) = io_levels io"
  by (cases t; simp)+

lemma digitalWrite_ex:
  assumes "pin < 48"
  obtains io' where "digitalWrite pin val io = Some io'" "io_levels io' = io_levels io @ [(pin, val \<noteq> 0)]"
    "io_ddr io' = io_ddr io"
    "\<And>q n. bit (io_port io' q) n = (if q = unat pin div 8 + 1 \<and> n = unat pin mod 8 then val \<noteq> 0 else bit (io_port io q) n)"
proof -
  have p: "unat pin < 48" using assms by (simp add: word_less_nat_alt)
  from pin_tables [OF p] obtain t where "arr_get digital_pin_to_timer (unat pin) = Some t" by blast
  with pin_tables [OF p] show thesis
    by (intro that [of "(if t \<noteq> NOT_ON_TIMER then turnOffPWM t io else io)
          \<lparr>io_port := (io_port io)(unat pin div 8 + 1 := if val = 0 then io_port io (unat pin div 8 + 1) AND NOT (BV (unat pin mod 8))
             else io_port io (unat pin div 8 + 1) OR BV (unat pin mod 8)), io_levels := io_levels io @ [(pin, val \<noteq> 0)]\<rparr>"])
      (auto simp: digitalWrite_def Let_def turnOffPWM_frame bit_simps bit_BV dest: bit_imp_le_length)
qed

text \<open>
  The pin operations touch their own pin only: \<open>digitalWrite\<close> sets the output bit of the pin to the
  level and no other bit of any port, and \<open>pinMode\<close> sets the direction of that pin alone, its pull-up
  following the mode.
\<close>

theorem pins_independent:
  assumes "pin < 48"
  shows "\<exists>io1 io2. digitalWrite pin val io = Some io1 \<and> pinMode pin mode io = Some io2 \<and>
    io_ddr io1 = io_ddr io \<and>
    (\<forall>q n. bit (io_port io1 q) n = (if (q, n) = (unat pin div 8 + 1, unat pin mod 8) then val \<noteq> 0 else bit (io_port io q) n)) \<and>
    (\<forall>q n. bit (io_ddr io2 q) n =
       (if (q, n) = (unat pin div 8 + 1, unat pin mod 8) then mode \<noteq> 0 \<and> mode \<noteq> 2 else bit (io_ddr io q) n)) \<and>
    (\<forall>q n. bit (io_port io2 q) n =
       (if (q, n) = (unat pin div 8 + 1, unat pin mod 8) \<and> (mode = 0 \<or> mode = 2) then mode = 2 else bit (io_port io q) n))"
proof -
  have p: "unat pin < 48" using assms by (simp add: word_less_nat_alt)
  obtain io1 where "digitalWrite pin val io = Some io1" "io_levels io1 = io_levels io @ [(pin, val \<noteq> 0)]" "io_ddr io1 = io_ddr io"
    "\<And>q n. bit (io_port io1 q) n = (if q = unat pin div 8 + 1 \<and> n = unat pin mod 8 then val \<noteq> 0 else bit (io_port io q) n)"
    by (rule digitalWrite_ex [OF assms, of val io]) (rule that)
  moreover have "\<exists>io2. pinMode pin mode io = Some io2 \<and>
    (\<forall>q n. bit (io_ddr io2 q) n =
       (if (q, n) = (unat pin div 8 + 1, unat pin mod 8) then mode \<noteq> 0 \<and> mode \<noteq> 2 else bit (io_ddr io q) n)) \<and>
    (\<forall>q n. bit (io_port io2 q) n =
       (if (q, n) = (unat pin div 8 + 1, unat pin mod 8) \<and> (mode = 0 \<or> mode = 2) then mode = 2 else bit (io_port io q) n))"
    using pin_tables [OF p]
    by (cases "mode = 0"; cases "mode = 2") (auto simp: pinMode_def bit_simps bit_BV dest: bit_imp_le_length)
  ultimately show ?thesis by auto
qed

definition io_reset :: mcu_io where
  "io_reset = \<lparr>io_ddr = \<lambda>_. 0, io_port = \<lambda>_. 0, io_tccr0a = 0, io_tccr1a = 0, io_tccr2a = 0, io_tccr3a = 0,
     io_ocr8 = \<lambda>_. 0, io_ocr16 = \<lambda>_. 0, io_admux = 0, io_adcsra = 0, io_didr0 = 0, io_levels = []\<rparr>"

theorem pins_independent_witness:
  "\<exists>io1 io2. digitalWrite 13 1 io_reset = Some io1 \<and> pinMode 13 1 io_reset = Some io2 \<and>
    (\<forall>q n. bit (io_port io1 q) n = ((q, n) = (2, 5))) \<and> (\<forall>q n. bit (io_ddr io2 q) n = ((q, n) = (2, 5)))"
  using pins_independent [of 13 1 io_reset 1] by (auto simp: io_reset_def)

section \<open>Switching off pulse width modulation\<close>

text \<open>Whether the output compare unit drives the pin, after the data sheet.\<close>

fun pwm_connected :: "nat \<Rightarrow> mcu_io \<Rightarrow> bool" where
  "pwm_connected pin io =
     (if pin = 24 then bit (io_tccr0a io) 5
      else if pin = 13 then bit (io_tccr1a io) 7 else if pin = 14 then bit (io_tccr1a io) 5
      else if pin = 15 then bit (io_tccr1a io) 3 \<or> bit (io_tccr0a io) 7
      else if pin = 12 then bit (io_tccr2a io) 7 else if pin = 25 then bit (io_tccr2a io) 5
      else if pin = 22 then bit (io_tccr3a io) 7 else if pin = 21 then bit (io_tccr3a io) 5
      else if pin = 20 then bit (io_tccr3a io) 3 else False)"

lemma digitalWrite_timer:
  assumes "arr_get digital_pin_to_timer (unat pin) = Some t" "pin < 48"
  shows "\<exists>io'. digitalWrite pin val io = Some io' \<and> io_tccr0a io' = io_tccr0a (turnOffPWM t io) \<and>
    io_tccr1a io' = io_tccr1a (turnOffPWM t io) \<and> io_tccr2a io' = io_tccr2a (turnOffPWM t io) \<and>
    io_tccr3a io' = io_tccr3a (turnOffPWM t io)"
proof -
  have "unat pin < 48" using assms(2) by (simp add: word_less_nat_alt)
  from pin_tables [OF this] assms(1) show ?thesis by (simp add: digitalWrite_def Let_def)
qed

lemma pwm_off:
  assumes "arr_get digital_pin_to_timer (unat pin) = Some t" "pin < 48" "\<not> pwm_connected (unat pin) (turnOffPWM t io)"
  shows "\<exists>io'. digitalWrite pin val io = Some io' \<and> \<not> pwm_connected (unat pin) io'"
proof -
  obtain io' where io': "digitalWrite pin val io = Some io'" "io_tccr0a io' = io_tccr0a (turnOffPWM t io)"
    "io_tccr1a io' = io_tccr1a (turnOffPWM t io)" "io_tccr2a io' = io_tccr2a (turnOffPWM t io)"
    "io_tccr3a io' = io_tccr3a (turnOffPWM t io)" using digitalWrite_timer [OF assms(1,2)] by blast
  have "pwm_connected (unat pin) io' = pwm_connected (unat pin) (turnOffPWM t io)"
    by (simp only: pwm_connected.simps io'(2-5))
  then show ?thesis using assms(3) io'(1) by blast
qed

text \<open>
  C24: \<open>digitalWrite\<close> takes every pulse width modulated pin but one back from its timer, so that the
  level written appears on the pin.  Pin 15 is the exception: \<open>_analogWrite\<close> drives it from timer 1,
  but the pin table names timer 0, and the pin stays with timer 1 whatever is written.
\<close>

theorem digitalWrite_stops_pwm:
  "(\<forall>pin\<in>{12, 13, 14, 20, 21, 22, 24, 25}. \<exists>io'. digitalWrite pin val io = Some io' \<and> \<not> pwm_connected (unat pin) io') \<and>
   (\<exists>io1 io2. analogWrite_impl 15 duty io = Some io1 \<and> digitalWrite 15 val io1 = Some io2 \<and> pwm_connected 15 io2)"
proof -
  have tab: "arr_get digital_pin_to_timer 12 = Some TIMER2A" "arr_get digital_pin_to_timer 13 = Some TIMER1A"
    "arr_get digital_pin_to_timer 14 = Some TIMER1B" "arr_get digital_pin_to_timer 15 = Some TIMER0A"
    "arr_get digital_pin_to_timer 20 = Some TIMER3C" "arr_get digital_pin_to_timer 21 = Some TIMER3B"
    "arr_get digital_pin_to_timer 22 = Some TIMER3A" "arr_get digital_pin_to_timer 24 = Some TIMER0B"
    "arr_get digital_pin_to_timer 25 = Some TIMER2B" by code_simp+
  have "\<exists>io1. analogWrite_impl 15 duty io = Some io1 \<and> bit (io_tccr1a io1) 3"
    using pin_tables [of 15] by (simp add: analogWrite_impl_def pinMode_def pwm16_def)
  then obtain io1 where io1: "analogWrite_impl 15 duty io = Some io1" "bit (io_tccr1a io1) 3" by blast
  obtain io2 where "digitalWrite 15 val io1 = Some io2" "io_tccr1a io2 = io_tccr1a io1"
    using digitalWrite_timer [of 15 TIMER0A val io1] tab by auto
  with io1 have "\<exists>io1 io2. analogWrite_impl 15 duty io = Some io1 \<and> digitalWrite 15 val io1 = Some io2 \<and> pwm_connected 15 io2"
    by auto
  moreover have "\<exists>io'. digitalWrite 12 val io = Some io' \<and> \<not> pwm_connected 12 io'"
    "\<exists>io'. digitalWrite 13 val io = Some io' \<and> \<not> pwm_connected 13 io'"
    "\<exists>io'. digitalWrite 14 val io = Some io' \<and> \<not> pwm_connected 14 io'"
    "\<exists>io'. digitalWrite 20 val io = Some io' \<and> \<not> pwm_connected 20 io'"
    "\<exists>io'. digitalWrite 21 val io = Some io' \<and> \<not> pwm_connected 21 io'"
    "\<exists>io'. digitalWrite 22 val io = Some io' \<and> \<not> pwm_connected 22 io'"
    "\<exists>io'. digitalWrite 24 val io = Some io' \<and> \<not> pwm_connected 24 io'"
    "\<exists>io'. digitalWrite 25 val io = Some io' \<and> \<not> pwm_connected 25 io'"
    using pwm_off [of 12 TIMER2A] pwm_off [of 13 TIMER1A] pwm_off [of 14 TIMER1B] pwm_off [of 20 TIMER3C]
      pwm_off [of 21 TIMER3B] pwm_off [of 22 TIMER3A] pwm_off [of 24 TIMER0B] pwm_off [of 25 TIMER2B] tab
    by simp_all
  ultimately show ?thesis by simp
qed

theorem digitalWrite_stops_pwm_witness:
  "(\<exists>io'. digitalWrite 13 1 (io_reset\<lparr>io_tccr1a := 0x80\<rparr>) = Some io' \<and> \<not> pwm_connected 13 io') \<and>
   (\<exists>io1 io2. analogWrite_impl 15 100 (io_reset\<lparr>io_tccr1a := 0x80\<rparr>) = Some io1 \<and> digitalWrite 15 0 io1 = Some io2 \<and> pwm_connected 15 io2)"
proof -
  let ?io = "io_reset\<lparr>io_tccr1a := 0x80\<rparr>"
  have "\<exists>io'. digitalWrite 13 1 ?io = Some io' \<and> \<not> pwm_connected (unat (13 :: u8)) io'"
    by (rule bspec [OF conjunct1 [OF digitalWrite_stops_pwm [of 1 ?io 100]], of 13]) simp
  then show ?thesis using conjunct2 [OF digitalWrite_stops_pwm [of 0 ?io 100]] by simp
qed

section \<open>External interrupts are consistent\<close>

lemma bit_set_mode:
  assumes "unat mode < 4" "n < 8" "pos < 7"
  shows "bit (set_mode r pos mode) n = (if n = pos then bit mode 0 else if n = pos + 1 then bit mode 1 else bit r n)"
proof -
  have hi: "\<not> bit mode k" if "2 \<le> k" for k
  proof -
    have "take_bit 2 mode = mode" using assms(1)
      by (simp add: word_unat_eq_iff unsigned_take_bit_eq take_bit_nat_eq_self)
    then show ?thesis using that by (metis bit_take_bit_iff not_le)
  qed
  show ?thesis using assms(2,3) hi [of "n - pos"] hi
    by (auto simp: set_mode_def bit_simps bit_BV le_Suc_eq)
qed

lemma int_line_vect: "n < 8 \<Longrightarrow> int_line n < 8 \<and> [2, 3, 4, 5, 0, 1, 6, 7] ! int_line n = n"
proof -
  have "\<forall>n\<in>set [0..<8]. int_line n < 8 \<and> [2, 3, 4, 5, 0, 1, 6, 7] ! int_line n = n" by code_simp
  then show "n < 8 \<Longrightarrow> int_line n < 8 \<and> [2, 3, 4, 5, 0, 1, 6, 7] ! int_line n = n" by simp
qed

text \<open>
  C25: Attaching a function to an interrupt number enables the hardware interrupt whose vector then calls
  that function, with the sense mode asked for, and changes neither the enable bit nor the function nor
  the mode of another interrupt; detaching disables it and removes the function.
\<close>

theorem attachInterrupt_consistent:
  assumes "num < 8" "length (ei_func e) = 8" "unat mode < 4"
  defines "k \<equiv> int_line (unat num)"
  shows "\<exists>e1 e2. attachInterrupt num f mode e = Some e1 \<and> INT_vect k e1 = Some (Some f) \<and> bit (ei_eimsk e1) k \<and>
    (let r = (if k < 4 then ei_eicra e1 else ei_eicrb e1) in bit r (2 * (k mod 4)) = bit mode 0 \<and> bit r (2 * (k mod 4) + 1) = bit mode 1) \<and>
    (\<forall>j<8. j \<noteq> k \<longrightarrow> INT_vect j e1 = INT_vect j e \<and> bit (ei_eimsk e1) j = bit (ei_eimsk e) j \<and>
       (let r = (if j < 4 then ei_eicra e1 else ei_eicrb e1); r0 = (if j < 4 then ei_eicra e else ei_eicrb e)
        in bit r (2 * (j mod 4)) = bit r0 (2 * (j mod 4)) \<and> bit r (2 * (j mod 4) + 1) = bit r0 (2 * (j mod 4) + 1))) \<and>
    detachInterrupt num e1 = Some e2 \<and> INT_vect k e2 = Some None \<and> \<not> bit (ei_eimsk e2) k"
proof -
  have n: "unat num < 8" using assms(1) by (simp add: word_less_nat_alt)
  note k = int_line_vect [OF n, folded k_def]
  let ?v = "[2, 3, 4, 5, 0, 1, 6, 7] :: nat list"
  define fs where "fs = (ei_func e)[unat num := Some f]"
  define e1 where "e1 = (if k < 4 then e\<lparr>ei_func := fs, ei_eicra := set_mode (ei_eicra e) (2 * k) mode, ei_eimsk := sbi (ei_eimsk e) k\<rparr>
    else e\<lparr>ei_func := fs, ei_eicrb := set_mode (ei_eicrb e) (2 * (k - 4)) mode, ei_eimsk := sbi (ei_eimsk e) k\<rparr>)"
  have at: "attachInterrupt num f mode e = Some e1"
    using assms(1,2) n by (simp add: attachInterrupt_def Let_def e1_def fs_def flip: k_def)
  have ef: "ei_func e1 = fs" "ei_eimsk e1 = sbi (ei_eimsk e) k" by (simp_all add: e1_def)
  have vj: "?v ! j < 8" if "j < 8" for j using that by (auto simp: less_Suc_eq numeral_eq_Suc)
  have inj: "?v ! j \<noteq> unat num" if "j < 8" "j \<noteq> k" for j
  proof -
    have "distinct ?v" by simp
    then show ?thesis using that k nth_eq_iff_index_eq [of ?v j k] by auto
  qed
  have own: "INT_vect k e1 = Some (Some f)" using k n assms(2) by (simp add: INT_vect_def ef fs_def)
  have others: "INT_vect j e1 = INT_vect j e" "bit (ei_eimsk e1) j = bit (ei_eimsk e) j" if "j < 8" "j \<noteq> k" for j
    using that inj [OF that] vj assms(2) by (simp_all add: INT_vect_def ef fs_def arr_get_def nth_list_update_neq)
  have m4: "j mod 4 = (if j < 4 then j else j - 4)" if "j < 8" for j :: nat
    using that by (cases "j < 4") (auto simp: le_mod_geq)
  have mode: "let r = (if k < 4 then ei_eicra e1 else ei_eicrb e1) in bit r (2 * (k mod 4)) = bit mode 0 \<and> bit r (2 * (k mod 4) + 1) = bit mode 1"
    using bit_set_mode [OF assms(3)] k by (auto simp: e1_def Let_def m4)
  have modes: "let r = (if j < 4 then ei_eicra e1 else ei_eicrb e1); r0 = (if j < 4 then ei_eicra e else ei_eicrb e)
      in bit r (2 * (j mod 4)) = bit r0 (2 * (j mod 4)) \<and> bit r (2 * (j mod 4) + 1) = bit r0 (2 * (j mod 4) + 1)"
    if "j < 8" "j \<noteq> k" for j
    using bit_set_mode [OF assms(3)] k that by (auto simp: e1_def Let_def m4)
  have "\<exists>e2. detachInterrupt num e1 = Some e2 \<and> INT_vect k e2 = Some None \<and> \<not> bit (ei_eimsk e2) k"
    using assms(1,2) n k by (simp add: detachInterrupt_def Let_def ef fs_def INT_vect_def flip: k_def)
  then show ?thesis using at own others mode modes k ef by (metis bit_sbi)
qed

theorem attachInterrupt_consistent_witness:
  "\<exists>e1. attachInterrupt 0 (7 :: nat) 3 \<lparr>ei_func = replicate 8 None, ei_eicra = 0, ei_eicrb = 0, ei_eimsk = 0\<rparr> = Some e1 \<and>
    INT_vect 4 e1 = Some (Some 7) \<and> bit (ei_eimsk e1) 4"
  using attachInterrupt_consistent [of 0 "\<lparr>ei_func = replicate 8 None, ei_eicra = 0, ei_eicrb = 0, ei_eimsk = 0\<rparr>" 3 "7 :: nat"]
  by (auto simp: int_line_def)

section \<open>Shifting a byte out and in\<close>

text \<open>A receiver that samples the data line at each rising clock.\<close>

fun clocked :: "u8 \<Rightarrow> u8 \<Rightarrow> bool \<Rightarrow> (u8 \<times> bool) list \<Rightarrow> bool list" where
  "clocked d c lvl [] = []"
| "clocked d c lvl ((p, b) # xs) =
     (if p = c then (if b then lvl # clocked d c lvl xs else clocked d c lvl xs)
      else clocked d c (if p = d then b else lvl) xs)"

text \<open>A device that presents the bits one after the other, each from a rising clock on.\<close>

definition replay :: "bool list \<Rightarrow> u8 \<Rightarrow> u8 \<Rightarrow> (u8 \<times> bool) list \<Rightarrow> nat \<Rightarrow> u8" where
  "replay bs d c levels port =
     (if port = unat d div 8 + 1 \<and> bs ! (length (filter (\<lambda>x. x = (c, True)) levels) - 1) then BV (unat d mod 8) else 0)"

lemma shiftOut_levels:
  assumes "d < 48" "c < 48"
  shows "\<exists>io'. shiftOut_from d c ord val is io = Some io' \<and>
    io_levels io' = io_levels io @ concat (map (\<lambda>i. [(d, bit val (shift_pos ord i)), (c, True), (c, False)]) is)"
proof (induction "is" arbitrary: io)
  case (Cons i "is")
  have b: "(if val AND push_bit (shift_pos ord i) 1 \<noteq> 0 then 1 else 0 :: u8) \<noteq> 0 \<longleftrightarrow> bit val (shift_pos ord i)"
    by (simp add: bit_iff_and_push_bit_not_eq_0)
  obtain io1 where 1: "digitalWrite d (if val AND push_bit (shift_pos ord i) 1 \<noteq> 0 then 1 else 0) io = Some io1"
      "io_levels io1 = io_levels io @ [(d, bit val (shift_pos ord i))]"
    by (rule digitalWrite_ex [OF assms(1), of "if val AND push_bit (shift_pos ord i) 1 \<noteq> 0 then 1 else 0" io])
      (rule that, assumption, simp only: b)
  obtain io2 where 2: "digitalWrite c 1 io1 = Some io2" "io_levels io2 = io_levels io1 @ [(c, True)]"
    by (rule digitalWrite_ex [OF assms(2), of 1 io1]) simp
  obtain io3 where 3: "digitalWrite c 0 io2 = Some io3" "io_levels io3 = io_levels io2 @ [(c, False)]"
    by (rule digitalWrite_ex [OF assms(2), of 0 io2]) simp
  show ?case using Cons.IH [of io3] 1 2 3 by auto
qed simp

lemma clocked_frames:
  "d \<noteq> c \<Longrightarrow> clocked d c lvl (concat (map (\<lambda>i. [(d, f i), (c, True), (c, False)]) is)) = map f is"
  by (induction "is" arbitrary: lvl) auto

lemma digitalRead_replay:
  assumes "d < 48"
  shows "\<exists>io'. digitalRead (replay bs d c levels) d io =
      Some (of_bool (bs ! (length (filter (\<lambda>x. x = (c, True)) levels) - 1)), io') \<and> io_levels io' = io_levels io"
proof -
  have p: "unat d < 48" using assms by (simp add: word_less_nat_alt)
  have "BV (unat d mod 8) AND BV (unat d mod 8) \<noteq> 0" by (simp add: BV_def)
  with pin_tables [OF p] show ?thesis by (auto simp: digitalRead_def replay_def Let_def turnOffPWM_frame)
qed

lemma shiftIn_replay:
  assumes "d < 48" "c < 48"
  shows "length (filter (\<lambda>x. x = (c, True)) (io_levels io)) + length is \<le> length bs \<Longrightarrow>
    \<exists>io'. shiftIn_from (replay bs d c) d c ord is v io =
      Some (foldl (\<lambda>v (i, b). v OR push_bit (shift_pos ord i) (of_bool b)) v
        (zip is (drop (length (filter (\<lambda>x. x = (c, True)) (io_levels io))) bs)), io')"
proof (induction "is" arbitrary: io v)
  case (Cons i "is")
  let ?n = "length (filter (\<lambda>x. x = (c, True)) (io_levels io))"
  obtain io1 where 1: "digitalWrite c 1 io = Some io1" "io_levels io1 = io_levels io @ [(c, True)]"
    by (rule digitalWrite_ex [OF assms(2), of 1 io]) simp
  obtain io2 where 2: "digitalRead (replay bs d c (io_levels io1)) d io1 = Some (of_bool (bs ! ?n), io2)"
      "io_levels io2 = io_levels io1"
    using digitalRead_replay [OF assms(1), of bs c "io_levels io1" io1] 1 by auto
  obtain io3 where 3: "digitalWrite c 0 io2 = Some io3" "io_levels io3 = io_levels io2 @ [(c, False)]"
    by (rule digitalWrite_ex [OF assms(2), of 0 io2]) simp
  have n3: "length (filter (\<lambda>x. x = (c, True)) (io_levels io3)) = Suc ?n" using 1 2 3 by simp
  have dr: "drop ?n bs = bs ! ?n # drop (Suc ?n) bs" using Cons.prems by (simp add: Cons_nth_drop_Suc)
  show ?case
    using Cons.IH [of io3 "v OR push_bit (shift_pos ord i) (of_bool (bs ! ?n))"] Cons.prems 1 2 3 n3 dr by simp
qed simp

lemma bit_assemble:
  "bit (foldl (\<lambda>v (i, b). v OR push_bit (pos i) (of_bool b)) v (zip is (map f is))) n \<longleftrightarrow>
     bit v n \<or> (\<exists>i\<in>set is. pos i = n \<and> f i \<and> n < 8)" for v :: u8
proof (induction "is" arbitrary: v)
  case (Cons i "is")
  have "bit (push_bit (pos i) (of_bool (f i)) :: u8) n \<longleftrightarrow> pos i = n \<and> f i \<and> n < 8"
    by (auto simp: bit_simps)
  then show ?case using Cons.IH by (auto simp: bit_or_iff)
qed simp

lemma assemble_bits:
  "foldl (\<lambda>v (i, b). v OR push_bit (shift_pos ord i) (of_bool b)) 0 (zip [0..<8] (map (\<lambda>i. bit val (shift_pos ord i)) [0..<8])) = (val :: u8)"
proof (rule bit_word_eqI)
  fix n assume "n < LENGTH(8)"
  then have n: "n < 8" by simp
  then have "\<exists>i\<in>set [0..<8]. shift_pos ord i = n"
    by (intro bexI [of _ "if ord = 0 then n else 7 - n"]) (auto simp: shift_pos_def)
  moreover have "bit (foldl (\<lambda>v (i, b). v OR push_bit (shift_pos ord i) (of_bool b)) 0
      (zip [0..<8] (map (\<lambda>i. bit val (shift_pos ord i)) [0..<8])) :: u8) n \<longleftrightarrow>
      bit (0 :: u8) n \<or> (\<exists>i\<in>set [0..<8]. shift_pos ord i = n \<and> bit val (shift_pos ord i) \<and> n < 8)"
    by (rule bit_assemble)
  ultimately show "bit (foldl (\<lambda>v (i, b). v OR push_bit (shift_pos ord i) (of_bool b)) 0
      (zip [0..<8] (map (\<lambda>i. bit val (shift_pos ord i)) [0..<8])) :: u8) n \<longleftrightarrow> bit val n"
    using n by (auto simp del: upt_rec_numeral)
qed

text \<open>
  A byte shifted out, sampled by a receiver at each rising clock and presented bit by bit to \<open>shiftIn\<close>
  with the same bit order, is read back unchanged.
\<close>

theorem shift_roundtrip:
  assumes "d < 48" "c < 48" "d \<noteq> c" "d2 < 48" "c2 < 48" "io_levels io = []" "io_levels io2 = []"
  shows "\<exists>io1 io3. shiftOut d c ord val io = Some io1 \<and> length (clocked d c False (io_levels io1)) = 8 \<and>
    shiftIn (replay (clocked d c False (io_levels io1)) d2 c2) d2 c2 ord io2 = Some (val, io3)"
proof -
  obtain io1 where 1: "shiftOut d c ord val io = Some io1"
      "io_levels io1 = concat (map (\<lambda>i. [(d, bit val (shift_pos ord i)), (c, True), (c, False)]) [0..<8])"
    using shiftOut_levels [OF assms(1,2), of ord val "[0..<8]" io] assms(6) by (auto simp: shiftOut_def)
  then have bs: "clocked d c False (io_levels io1) = map (\<lambda>i. bit val (shift_pos ord i)) [0..<8]"
    using clocked_frames [OF assms(3)] by simp
  have len: "length (map (\<lambda>i. bit val (shift_pos ord i)) [0..<8]) = 8" by simp
  have "\<exists>io3. shiftIn (replay (clocked d c False (io_levels io1)) d2 c2) d2 c2 ord io2 = Some (val, io3)"
    using shiftIn_replay [OF assms(4,5), of io2 "[0..<8]" "map (\<lambda>i. bit val (shift_pos ord i)) [0..<8]" ord 0]
      assms(7) assemble_bits [of ord val] len
    unfolding shiftIn_def bs by (simp del: upt_rec_numeral)
  then show ?thesis using 1(1) bs len by auto
qed

theorem shift_roundtrip_witness:
  "\<exists>io1 io3. shiftOut 10 9 1 0xA7 io_reset = Some io1 \<and>
    shiftIn (replay (clocked 10 9 False (io_levels io1)) 11 9) 11 9 1 io_reset = Some (0xA7, io3)"
  using shift_roundtrip [of 10 9 11 9 io_reset io_reset 1 "0xA7"] by (auto simp: io_reset_def)

section \<open>Pulse width\<close>

lemma pulse_wait_run:
  assumes "x \<noteq> v"
  shows "n + k \<le> m \<Longrightarrow> m < 2 ^ 32 \<Longrightarrow>
    pulse_wait v (replicate k v @ x # rest) (of_nat n) (of_nat m) (of_nat w) = Some (Some (of_nat (n + k), of_nat (w + k), rest))"
proof (induction k arbitrary: n w)
  case (Suc k)
  have "(of_nat n :: u32) \<noteq> of_nat m" using Suc.prems by (simp add: word_unat_eq_iff unat_of_nat)
  then show ?case using Suc.IH [of "Suc n" "Suc w"] Suc.prems by (simp add: add.commute)
qed (use assms in simp)

lemma pulse_wait_timeout:
  "n \<le> m \<Longrightarrow> m < n + k \<Longrightarrow> m < 2 ^ 32 \<Longrightarrow> pulse_wait v (replicate k v @ rest) (of_nat n) (of_nat m) w = Some None"
proof (induction k arbitrary: n w)
  case (Suc k)
  show ?case
  proof (cases "n = m")
    case False
    then have "(of_nat n :: u32) \<noteq> of_nat m" using Suc.prems by (simp add: word_unat_eq_iff unat_of_nat)
    then show ?thesis using Suc.IH [of "Suc n"] Suc.prems False by (simp add: add.commute)
  qed simp
qed simp

text \<open>
  \<open>pulseIn\<close> skips the rest of a pulse under way and a gap, and converts the number of passes through
  the last loop to microseconds; when the passes together exceed the time-out, which is counted in
  passes and loses its upper four bits, it returns 0.
\<close>

theorem pulseIn_measures:
  "pulseIn (replicate p True @ replicate (Suc g) False @ replicate (Suc w) True @ False # rest) timeout =
     Some (if p + g + w \<le> unat (pulse_maxloops timeout) then (of_nat w * 21 + 16) div 16 else 0)"
proof -
  define m where "m = unat (pulse_maxloops timeout)"
  have m: "pulse_maxloops timeout = of_nat m" "m < 2 ^ 32"
    using unsigned_less [of "pulse_maxloops timeout", where 'a = nat] by (simp_all add: m_def)
  have um: "unat (of_nat m :: u32) = m" using m(2) by (simp add: unat_of_nat)
  have list: "replicate p True @ replicate (Suc g) False @ replicate (Suc w) True @ False # rest =
      replicate p True @ False # replicate g False @ True # replicate w True @ False # rest" by simp
  consider "m < p" | "p \<le> m" "m < p + g" | "p + g \<le> m" "m < p + g + w" | "p + g + w \<le> m" by linarith
  then show ?thesis
  proof cases
    case 1
    then show ?thesis
      using pulse_wait_timeout [of 0 m p True] m(2) unfolding list by (simp add: pulseIn_def Let_def m(1) um)
  next
    case 2
    then show ?thesis
      using pulse_wait_run [of False True 0 p m _ 0] pulse_wait_timeout [of p m g False] m(2) unfolding list
      by (simp add: pulseIn_def Let_def m(1) um)
  next
    case 3
    then show ?thesis
      using pulse_wait_run [of False True 0 p m _ 0] pulse_wait_run [of True False p g m _ 0]
        pulse_wait_timeout [of "p + g" m w True] m(2) unfolding list
      by (simp add: pulseIn_def Let_def m(1) um)
  next
    case 4
    then show ?thesis
      using pulse_wait_run [of False True 0 p m _ 0] pulse_wait_run [of True False p g m _ 0]
        pulse_wait_run [of False True "p + g" w m _ 0] m(2) unfolding list
      by (simp add: pulseIn_def Let_def m(1) um)
  qed
qed

end
