(* ===== verification/Arduino_Stream.thy ===== *)
theory Arduino_Stream
  imports Arduino_Print Wiring_Time "HOL-Library.Sublist"
begin

text \<open>
  The class \<open>Stream\<close> (\<open>Stream.cpp\<close>): reading with a time-out, searching, parsing integers, and reading
  blocks and strings.  The virtual \<open>read\<close> and \<open>peek\<close> of the derived class and the clock are arguments, a
  record of operations on the state; reading the clock lets time pass and bytes arrive.  A read that
  never returns is \<open>None\<close>.  The locale \<open>byte_source\<close> states what a derived class and the clock promise;
  it is interpreted on the hardware serial port with the timer of \<open>wiring.c\<close>.  The member
  \<open>_timeout\<close>, set by \<open>setTimeout\<close>, is the argument \<open>timeout\<close>.  \<open>parseFloat\<close> is not modelled.
\<close>

section \<open>Timed reading\<close>

record 's source =
  src_read :: "'s \<Rightarrow> int \<times> 's"
  src_peek :: "'s \<Rightarrow> int \<times> 's"
  src_millis :: "'s \<Rightarrow> u32 \<times> 's"

partial_function (option) timedRead_loop :: "'s source \<Rightarrow> u32 \<Rightarrow> u32 \<Rightarrow> 's \<Rightarrow> (int \<times> 's) option" where
  "timedRead_loop d timeout startMillis s =
     (let (c, s1) = src_read d s in
      if c \<ge> 0 then Some (c, s1)
      else (let (t, s2) = src_millis d s1 in
            if t - startMillis < timeout then timedRead_loop d timeout startMillis s2 else Some (-1, s2)))"

definition timedRead :: "'s source \<Rightarrow> u32 \<Rightarrow> 's \<Rightarrow> (int \<times> 's) option" where
  "timedRead d timeout s = (let (t, s1) = src_millis d s in timedRead_loop d timeout t s1)"

partial_function (option) timedPeek_loop :: "'s source \<Rightarrow> u32 \<Rightarrow> u32 \<Rightarrow> 's \<Rightarrow> (int \<times> 's) option" where
  "timedPeek_loop d timeout startMillis s =
     (let (c, s1) = src_peek d s in
      if c \<ge> 0 then Some (c, s1)
      else (let (t, s2) = src_millis d s1 in
            if t - startMillis < timeout then timedPeek_loop d timeout startMillis s2 else Some (-1, s2)))"

definition timedPeek :: "'s source \<Rightarrow> u32 \<Rightarrow> 's \<Rightarrow> (int \<times> 's) option" where
  "timedPeek d timeout s = (let (t, s1) = src_millis d s in timedPeek_loop d timeout t s1)"

partial_function (option) peekNextDigit :: "'s source \<Rightarrow> u32 \<Rightarrow> 's \<Rightarrow> (int \<times> 's) option" where
  "peekNextDigit d timeout s =
     do { (c, s1) \<leftarrow> timedPeek d timeout s;
          if c < 0 \<or> c = 45 \<or> 48 \<le> c \<and> c \<le> 57 then Some (c, s1)
          else peekNextDigit d timeout (snd (src_read d s1)) }"

declare timedRead_loop.simps [code] timedPeek_loop.simps [code] peekNextDigit.simps [code]

section \<open>Searching\<close>

text \<open>One character: the new position in the target, and whether the target is complete.\<close>

definition find_step :: "u8 list \<Rightarrow> u16 \<Rightarrow> int \<Rightarrow> u16 \<Rightarrow> (u16 \<times> bool) option" where
  "find_step target targetLen c index =
     do { x \<leftarrow> arr_get target (unat index);
          let i1 = (if c \<noteq> uint x then 0 else index);
          y \<leftarrow> arr_get target (unat i1);
          Some (if c = uint y then (i1 + 1, i1 + 1 \<ge> targetLen) else (i1, False)) }"

definition term_step :: "u8 list \<Rightarrow> u16 \<Rightarrow> int \<Rightarrow> u16 \<Rightarrow> (u16 \<times> bool) option" where
  "term_step terminator termLen c termIndex =
     (if termLen > 0
      then do { x \<leftarrow> arr_get terminator (unat termIndex);
                Some (if c = uint x then (termIndex + 1, termIndex + 1 \<ge> termLen) else (0, False)) }
      else Some (0, False))"

partial_function (option) findUntil_loop ::
    "'s source \<Rightarrow> u32 \<Rightarrow> u8 list \<Rightarrow> u16 \<Rightarrow> u8 list \<Rightarrow> u16 \<Rightarrow> u16 \<Rightarrow> u16 \<Rightarrow> 's \<Rightarrow> (bool \<times> 's) option" where
  "findUntil_loop d timeout target targetLen terminator termLen index termIndex s =
     do { (c, s1) \<leftarrow> timedRead d timeout s;
          if c > 0
          then do { (i, found) \<leftarrow> find_step target targetLen c index;
                    if found then Some (True, s1)
                    else do { (j, ended) \<leftarrow> term_step terminator termLen c termIndex;
                              if ended then Some (False, s1)
                              else findUntil_loop d timeout target targetLen terminator termLen i j s1 } }
          else Some (False, s1) }"

declare findUntil_loop.simps [code]

definition findUntil_len ::
    "'s source \<Rightarrow> u32 \<Rightarrow> u8 list \<Rightarrow> u16 \<Rightarrow> u8 list \<Rightarrow> u16 \<Rightarrow> 's \<Rightarrow> (bool \<times> 's) option" where
  "findUntil_len d timeout target targetLen terminator termLen s =
     do { x \<leftarrow> arr_get target 0;
          if x = 0 then Some (True, s)
          else findUntil_loop d timeout target targetLen terminator termLen 0 0 s }"

text \<open>The length of a terminator that is the null pointer is read from address 0: \<open>None\<close>.\<close>

definition findUntil :: "'s source \<Rightarrow> u32 \<Rightarrow> u8 list \<Rightarrow> u8 list option \<Rightarrow> 's \<Rightarrow> (bool \<times> 's) option" where
  "findUntil d timeout target terminator s =
     do { n \<leftarrow> cstr_len16 target; t \<leftarrow> terminator; m \<leftarrow> cstr_len16 t; findUntil_len d timeout target n t m s }"

definition find_str :: "'s source \<Rightarrow> u32 \<Rightarrow> u8 list \<Rightarrow> 's \<Rightarrow> (bool \<times> 's) option" where
  "find_str d timeout target s = findUntil d timeout target None s"

definition find_len :: "'s source \<Rightarrow> u32 \<Rightarrow> u8 list \<Rightarrow> u16 \<Rightarrow> 's \<Rightarrow> (bool \<times> 's) option" where
  "find_len d timeout target len s = findUntil_len d timeout target len [] 0 s"

section \<open>Integers\<close>

definition is_digit :: "int \<Rightarrow> bool" where
  "is_digit c \<longleftrightarrow> 48 \<le> c \<and> c \<le> 57"

partial_function (option) parseInt_loop ::
    "'s source \<Rightarrow> u32 \<Rightarrow> u8 \<Rightarrow> bool \<Rightarrow> u32 \<Rightarrow> int \<Rightarrow> 's \<Rightarrow> (u32 \<times> 's) option" where
  "parseInt_loop d timeout skipChar isNegative value c s =
     (let neg = (if c = uint skipChar then isNegative else if c = 45 then True else isNegative);
          v = (if c = uint skipChar \<or> c = 45 then value else if is_digit c then value * 10 + word_of_int (c - 48) else value)
      in do { (c', s2) \<leftarrow> timedPeek d timeout (snd (src_read d s));
              if is_digit c' \<or> c' = uint skipChar then parseInt_loop d timeout skipChar neg v c' s2
              else Some (if neg then - v else v, s2) })"

declare parseInt_loop.simps [code]

definition parseInt_skip :: "'s source \<Rightarrow> u32 \<Rightarrow> u8 \<Rightarrow> 's \<Rightarrow> (u32 \<times> 's) option" where
  "parseInt_skip d timeout skipChar s =
     do { (c, s1) \<leftarrow> peekNextDigit d timeout s;
          if c < 0 then Some (0, s1) else parseInt_loop d timeout skipChar False 0 c s1 }"

definition NO_SKIP_CHAR :: u8 where
  "NO_SKIP_CHAR = 1"

definition parseInt :: "'s source \<Rightarrow> u32 \<Rightarrow> 's \<Rightarrow> (u32 \<times> 's) option" where
  "parseInt d timeout s = parseInt_skip d timeout NO_SKIP_CHAR s"

section \<open>Blocks and strings\<close>

text \<open>The number of characters stored, the buffer and the state.\<close>

fun readBytes_loop :: "'s source \<Rightarrow> u32 \<Rightarrow> (int \<Rightarrow> bool) \<Rightarrow> nat \<Rightarrow> nat \<Rightarrow> u8 list \<Rightarrow> 's \<Rightarrow> (nat \<times> u8 list \<times> 's) option" where
  "readBytes_loop d timeout stop count 0 buffer s = Some (count, buffer, s)"
| "readBytes_loop d timeout stop count (Suc n) buffer s =
     do { (c, s1) \<leftarrow> timedRead d timeout s;
          if c < 0 \<or> stop c then Some (count, buffer, s1)
          else do { buffer' \<leftarrow> arr_set buffer count (word_of_int c);
                    readBytes_loop d timeout stop (Suc count) n buffer' s1 } }"

definition readBytes :: "'s source \<Rightarrow> u32 \<Rightarrow> u8 list \<Rightarrow> u16 \<Rightarrow> 's \<Rightarrow> (nat \<times> u8 list \<times> 's) option" where
  "readBytes d timeout buffer len s = readBytes_loop d timeout (\<lambda>_. False) 0 (unat len) buffer s"

definition readBytesUntil :: "'s source \<Rightarrow> u32 \<Rightarrow> u8 \<Rightarrow> u8 list \<Rightarrow> u16 \<Rightarrow> 's \<Rightarrow> (nat \<times> u8 list \<times> 's) option" where
  "readBytesUntil d timeout terminator buffer len s =
     (if len < 1 then Some (0, buffer, s)
      else readBytes_loop d timeout (\<lambda>c. c = uint terminator) 0 (unat len) buffer s)"

partial_function (option) readString_loop ::
    "'s source \<Rightarrow> u32 \<Rightarrow> alloc \<Rightarrow> (int \<Rightarrow> bool) \<Rightarrow> WString \<Rightarrow> int \<Rightarrow> 's \<Rightarrow> (WString \<times> 's) option" where
  "readString_loop d timeout alloc stop ret c s =
     (if c \<ge> 0 \<and> \<not> stop c
      then do { (_, ret') \<leftarrow> String_concat_char alloc (word_of_int c) ret;
                (c', s1) \<leftarrow> timedRead d timeout s;
                readString_loop d timeout alloc stop ret' c' s1 }
      else Some (ret, s))"

declare readString_loop.simps [code]

definition readString :: "'s source \<Rightarrow> u32 \<Rightarrow> alloc \<Rightarrow> 's \<Rightarrow> (WString \<times> 's) option" where
  "readString d timeout alloc s =
     do { ret \<leftarrow> String_cstr alloc (Some [0]); (c, s1) \<leftarrow> timedRead d timeout s;
          readString_loop d timeout alloc (\<lambda>_. False) ret c s1 }"

definition readStringUntil :: "'s source \<Rightarrow> u32 \<Rightarrow> alloc \<Rightarrow> u8 \<Rightarrow> 's \<Rightarrow> (WString \<times> 's) option" where
  "readStringUntil d timeout alloc terminator s =
     do { ret \<leftarrow> String_cstr alloc (Some [0]); (c, s1) \<leftarrow> timedRead d timeout s;
          readString_loop d timeout alloc (\<lambda>c. c = uint terminator) ret c s1 }"

section \<open>The search as a function of the text\<close>

text \<open>The text left after the target was found, for the naive matching of \<open>findUntil\<close> from position \<open>i\<close>.\<close>

fun scan :: "'a list \<Rightarrow> nat \<Rightarrow> 'a list \<Rightarrow> 'a list option" where
  "scan w i [] = None"
| "scan w i (c # r) =
     (let j = (if c = w ! i then i else 0) in
      if c = w ! j then if Suc j = length w then Some r else scan w (Suc j) r else scan w j r)"

lemma first_occ_skip:
  assumes "\<And>p. p < length us \<Longrightarrow> \<not> occurs_at w (us @ r) p"
  shows "first_occ w (us @ r) = map_option (\<lambda>k. length us + k) (first_occ w r)"
  using assms
proof (induction us)
  case Nil
  then show ?case by (simp add: option.map_ident)
next
  case (Cons u us)
  have "\<not> occurs_at w (us @ r) p" if "p < length us" for p using Cons.prems [of "Suc p"] that by simp
  moreover have "\<not> take (length w) (u # us @ r) = w" using Cons.prems [of 0] by simp
  ultimately show ?case using Cons.IH by (cases "first_occ w r") simp_all
qed

lemma occurs_at_nth:
  assumes "occurs_at w xs p" "q < length w"
  shows "xs ! (p + q) = w ! q"
proof -
  have "w ! q = take (length w) (drop p xs) ! q" "p \<le> length xs" using assms(1) by (simp_all add: occurs_at_def)
  then show ?thesis using assms(2) by simp
qed

lemma no_partial_occ:
  assumes "hd w \<notin> set (tl w)" "i < length w" "c \<noteq> w ! i" "p < i"
  shows "\<not> occurs_at w (take i w @ c # r) p"
proof
  assume occ: "occurs_at w (take i w @ c # r) p"
  show False
  proof (cases "p = 0")
    case True
    then show False using occurs_at_nth [OF occ assms(2)] assms(2,3) by (simp add: nth_append)
  next
    case False
    have "w \<noteq> []" using assms(2) by auto
    then have "w ! p = hd w" using occurs_at_nth [OF occ, of 0] assms(2,4) by (simp add: nth_append hd_conv_nth)
    moreover have "w ! p = tl w ! (p - 1)" "p - 1 < length (tl w)" using False assms(2,4) by (simp_all add: nth_tl)
    ultimately show False using assms(1) by (metis nth_mem)
  qed
qed

lemma scan_first_occ:
  assumes "hd w \<notin> set (tl w)" "i < length w"
  shows "scan w i r = map_option (\<lambda>k. drop (k + length w - i) r) (first_occ w (take i w @ r))"
  using assms(2)
proof (induction r arbitrary: i)
  case Nil
  have "first_occ w (take i w) = None"
    unfolding first_occ_None using Nil occurs_at_length [of w "take i w"] by auto
  then show ?case by simp
next
  case (Cons c r)
  have step: "scan w j (c # r) = map_option (\<lambda>k. drop (k + length w - j) (c # r)) (first_occ w (take j w @ c # r))"
    if j: "j < length w" "c = w ! j" for j
  proof -
    have t: "take j w @ c # r = take (Suc j) w @ r" using j by (simp add: take_Suc_conv_app_nth)
    have d: "drop (k + length w - j) (c # r) = drop (k + length w - Suc j) r" for k using j(1) by (simp add: drop_Cons')
    show ?thesis
    proof (cases "Suc j = length w")
      case True
      have "first_occ w (w @ r) = Some 0" by (simp add: first_occ_Some)
      then show ?thesis using True j unfolding t d by simp
    next
      case False
      then show ?thesis using Cons.IH [of "Suc j"] j unfolding t d by simp
    qed
  qed
  show ?case
  proof (cases "c = w ! i")
    case True
    then show ?thesis using step Cons.prems by blast
  next
    case False
    have zero: "scan w 0 (c # r) = map_option (\<lambda>k. drop (k + length w) (c # r)) (first_occ w (c # r))"
    proof (cases "c = w ! 0")
      case True
      have "0 < length w" using Cons.prems by linarith
      from step [OF this True] show ?thesis by (simp only: take_0 append_Nil diff_zero)
    next
      case False
      then have "take (length w) (c # r) \<noteq> w" using Cons.prems by (cases w) auto
      moreover have "0 < length w" using Cons.prems by linarith
      ultimately show ?thesis using Cons.IH [of 0] False by (simp add: option.map_comp comp_def)
    qed
    have "first_occ w (take i w @ c # r) = map_option (\<lambda>k. i + k) (first_occ w (c # r))"
      using first_occ_skip [of "take i w" w "c # r"] no_partial_occ [OF assms(1) Cons.prems False, of _ r] Cons.prems by simp
    moreover have "scan w i (c # r) = scan w 0 (c # r)" using False by simp
    ultimately show ?thesis unfolding zero by (simp add: option.map_comp comp_def)
  qed
qed

section \<open>What a source promises\<close>

definition never_fails :: "alloc \<Rightarrow> bool" where
  "never_fails alloc \<longleftrightarrow> (\<forall>n. alloc n \<noteq> None)"

text \<open>
  \<open>inp\<close> are the bytes that have arrived and not been read, \<open>now\<close> is the time in milliseconds without
  wrap-around.  The clock may be read several times in the same millisecond, \<open>stall\<close> bounds how often.
  \<open>quiet\<close> says that no byte will arrive any more.
\<close>

locale byte_source =
  fixes d :: "'s source" and ok :: "'s \<Rightarrow> bool" and inp :: "'s \<Rightarrow> u8 list" and now :: "'s \<Rightarrow> nat"
    and stall :: "'s \<Rightarrow> nat" and quiet :: "'s \<Rightarrow> bool"
  assumes read_Cons: "ok s \<Longrightarrow> inp s = b # bs \<Longrightarrow>
      \<exists>s'. src_read d s = (uint b, s') \<and> ok s' \<and> inp s' = bs \<and> now s' = now s \<and> (quiet s \<longrightarrow> quiet s')"
    and read_Nil: "ok s \<Longrightarrow> inp s = [] \<Longrightarrow> src_read d s = (-1, s)"
    and peek: "ok s \<Longrightarrow> src_peek d s = (case inp s of [] \<Rightarrow> -1 | b # bs \<Rightarrow> uint b, s)"
    and millis: "ok s \<Longrightarrow> \<exists>s' xs. src_millis d s = (of_nat (now s), s') \<and> ok s' \<and> inp s' = inp s @ xs \<and>
      (now s < now s' \<and> now s' \<le> now s + 2 \<or> now s' = now s \<and> stall s' < stall s) \<and> (quiet s \<longrightarrow> quiet s' \<and> xs = [])"
begin

definition later :: "'s \<Rightarrow> u8 list \<Rightarrow> 's \<Rightarrow> bool" where
  "later s bs s' \<longleftrightarrow> ok s' \<and> (\<exists>xs. inp s' = bs @ xs \<and> (quiet s \<longrightarrow> quiet s' \<and> xs = []))"

lemma later_trans: "later s bs s1 \<Longrightarrow> (\<And>xs. inp s1 = bs @ xs \<Longrightarrow> later s1 (cs @ xs) s2) \<Longrightarrow> later s cs s2"
  by (fastforce simp: later_def)

text \<open>A byte that is waiting is returned at once.\<close>

lemma timedRead_Cons:
  assumes "ok s" "inp s = b # bs"
  shows "\<exists>s'. timedRead d timeout s = Some (uint b, s') \<and> later s bs s'"
proof -
  obtain s1 xs where 1: "src_millis d s = (of_nat (now s), s1)" "ok s1" "inp s1 = inp s @ xs" "quiet s \<longrightarrow> quiet s1 \<and> xs = []"
    using millis [OF assms(1)] by blast
  then obtain s2 where "src_read d s1 = (uint b, s2)" "ok s2" "inp s2 = bs @ xs" "quiet s1 \<longrightarrow> quiet s2"
    using read_Cons [of s1 b "bs @ xs"] assms(2) by auto
  with 1 show ?thesis
    by (intro exI [of _ s2]) (auto simp: timedRead_def timedRead_loop.simps later_def)
qed

lemma timedPeek_Cons:
  assumes "ok s" "inp s = b # bs"
  shows "\<exists>s'. timedPeek d timeout s = Some (uint b, s') \<and> later s (b # bs) s'"
proof -
  obtain s1 xs where 1: "src_millis d s = (of_nat (now s), s1)" "ok s1" "inp s1 = inp s @ xs" "quiet s \<longrightarrow> quiet s1 \<and> xs = []"
    using millis [OF assms(1)] by blast
  then have "src_peek d s1 = (uint b, s1)" using peek [of s1] assms(2) by simp
  with 1 show ?thesis using assms(2)
    by (intro exI [of _ s1]) (auto simp: timedPeek_def timedPeek_loop.simps later_def)
qed

text \<open>
  Without one, the loop ends: with the first byte that arrives, or with -1 once the time-out has passed.
\<close>

lemma elapsed:
  assumes "S \<le> N" "N \<le> S + unat timeout + 2" "unat timeout + 2 < 2 ^ 32"
  shows "(of_nat N - of_nat S :: u32) < timeout \<longleftrightarrow> N < S + unat timeout"
proof -
  have "(of_nat N - of_nat S :: u32) = of_nat (N - S)" using assms(1) by simp
  moreover have "unat (of_nat (N - S) :: u32) = N - S" using assms by (simp add: unat_of_nat del: of_nat_diff)
  ultimately show ?thesis using assms(1) by (auto simp: word_less_nat_alt)
qed

definition timed_result :: "u32 \<Rightarrow> nat \<Rightarrow> 's \<Rightarrow> int \<times> 's \<Rightarrow> bool" where
  "timed_result timeout S s r \<longleftrightarrow> ok (snd r) \<and>
     (fst r = -1 \<and> inp s = [] \<and> S + unat timeout \<le> now (snd r) \<or>
      (\<exists>b. fst r = uint b \<and> (\<forall>x xs. inp s = x # xs \<longrightarrow> b = x))) \<and>
     now (snd r) \<le> S + unat timeout + 4 \<and>
     (quiet s \<and> inp s = [] \<longrightarrow> fst r = -1 \<and> inp (snd r) = [] \<and> quiet (snd r))"

lemma timed_result_Nil:
  assumes "timed_result timeout S s1 r" "inp s = []" "quiet s \<longrightarrow> quiet s1 \<and> inp s1 = []"
  shows "timed_result timeout S s r"
proof -
  have 1: "ok (snd r)" "now (snd r) \<le> S + unat timeout + 4"
      "fst r = -1 \<and> S + unat timeout \<le> now (snd r) \<or> (\<exists>b::u8. fst r = uint b)"
      "quiet s1 \<and> inp s1 = [] \<longrightarrow> fst r = -1 \<and> inp (snd r) = [] \<and> quiet (snd r)"
    using assms(1) unfolding timed_result_def by blast+
  then show ?thesis using assms(2,3) unfolding timed_result_def by simp
qed

lemma timedRead_loop_returns:
  assumes "unat timeout + 2 < 2 ^ 32" "ok s" "S \<le> now s" "now s \<le> S + unat timeout + 2"
  shows "\<exists>r. timedRead_loop d timeout (of_nat S) s = Some r \<and> timed_result timeout S s r"
  using assms(2-)
proof (induction "(S + unat timeout + 2 - now s, stall s)" arbitrary: s rule: wf_induct_rule [OF wf_lex_prod [OF wf_less wf_less]])
  case (1 s)
  show ?case
  proof (cases "inp s")
    case (Cons b bs)
    then obtain s' where "src_read d s = (uint b, s')" "ok s'" "now s' = now s" using read_Cons 1 by blast
    with Cons 1(2-4) show ?thesis by (auto simp: timedRead_loop.simps timed_result_def)
  next
    case Nil
    obtain s1 xs where s1: "src_millis d s = (of_nat (now s), s1)" "ok s1" "inp s1 = xs"
        "now s < now s1 \<and> now s1 \<le> now s + 2 \<or> now s1 = now s \<and> stall s1 < stall s" "quiet s \<longrightarrow> quiet s1 \<and> xs = []"
      using millis [OF 1(2)] Nil by auto
    have unf: "timedRead_loop d timeout (of_nat S) s =
        (if now s < S + unat timeout then timedRead_loop d timeout (of_nat S) s1 else Some (-1, s1))"
      using elapsed [OF 1(3,4) assms(1)] read_Nil [OF 1(2) Nil] s1(1) by (simp add: timedRead_loop.simps)
    show ?thesis
    proof (cases "now s < S + unat timeout")
      case True
      then have "\<exists>r. timedRead_loop d timeout (of_nat S) s1 = Some r \<and> timed_result timeout S s1 r"
        using s1 1(3) by (intro 1(1)) (auto simp: lex_prod_def)
      then obtain r where r: "timedRead_loop d timeout (of_nat S) s1 = Some r" "timed_result timeout S s1 r" by blast
      then have "timed_result timeout S s r" using timed_result_Nil [OF r(2) Nil] s1(3,5) by simp
      then show ?thesis using True unf r(1) by simp
    next
      case False
      then show ?thesis using unf s1 1(2-4) Nil by (auto simp: timed_result_def)
    qed
  qed
qed

lemma timedRead_returns:
  assumes "unat timeout + 2 < 2 ^ 32" "ok s"
  shows "\<exists>r. timedRead d timeout s = Some r \<and> timed_result timeout (now s) s r"
proof -
  obtain s1 xs where 1: "src_millis d s = (of_nat (now s), s1)" "ok s1" "inp s1 = inp s @ xs" "now s \<le> now s1" "now s1 \<le> now s + 2"
      "quiet s \<longrightarrow> quiet s1 \<and> xs = []"
    using millis [OF assms(2)] by force
  then obtain r where "timedRead_loop d timeout (of_nat (now s)) s1 = Some r" "timed_result timeout (now s) s1 r"
    using timedRead_loop_returns [OF assms(1), of s1 "now s"] by auto
  moreover from this(2) 1(3,6) have "timed_result timeout (now s) s r"
    by (cases "inp s") (auto simp: timed_result_def intro: timed_result_Nil)
  ultimately show ?thesis using 1(1) by (simp add: timedRead_def)
qed

text \<open>Integers: what is not a digit or a minus sign is skipped, then digits are read to the first other byte.\<close>

lemma peekNextDigit_skips:
  assumes "\<forall>b\<in>set junk. b \<noteq> 45 \<and> \<not> is_digit (uint b)" "b = 45 \<or> is_digit (uint b)" "ok s" "inp s = junk @ b # rest"
  shows "\<exists>s'. peekNextDigit d timeout s = Some (uint b, s') \<and> later s (b # rest) s'"
  using assms(1,3,4)
proof (induction junk arbitrary: s rest)
  case Nil
  then show ?case
    using timedPeek_Cons [of s b rest timeout] assms(2) by (auto simp: peekNextDigit.simps is_digit_def)
next
  case (Cons j junk)
  obtain s1 where s1: "timedPeek d timeout s = Some (uint j, s1)" "later s (j # junk @ b # rest) s1"
    using timedPeek_Cons [of s j _ timeout] Cons.prems by auto
  then obtain xs where xs: "inp s1 = j # junk @ b # rest @ xs" "ok s1" "quiet s \<longrightarrow> quiet s1 \<and> xs = []"
    by (auto simp: later_def)
  then obtain s2 where s2: "src_read d s1 = (uint j, s2)" "ok s2" "inp s2 = junk @ b # rest @ xs" "quiet s1 \<longrightarrow> quiet s2"
    using read_Cons [of s1] by blast
  have "uint j \<noteq> 45" using Cons.prems(1) by (auto simp: uint_inj_iff [of j 45, simplified])
  then have "peekNextDigit d timeout s = peekNextDigit d timeout s2"
    using s1 s2 Cons.prems(1) by (subst peekNextDigit.simps) (auto simp: is_digit_def)
  moreover obtain s' where "peekNextDigit d timeout s2 = Some (uint b, s')" "later s2 (b # rest @ xs) s'"
    using Cons.IH [of s2 "rest @ xs"] Cons.prems(1) s2 by auto
  ultimately show ?case using xs s2 by (auto simp: later_def)
qed

lemma uint_digit_char: "x < 10 \<Longrightarrow> uint (digit_char x) = 48 + int x"
  using unat_digit_char [of x] by (simp add: uint_nat)

lemma parse_next:
  assumes "ok s" "inp s = b # c # rest"
  shows "\<exists>s'. timedPeek d timeout (snd (src_read d s)) = Some (uint c, s') \<and> later s (c # rest) s'"
proof -
  obtain s1 where "src_read d s = (uint b, s1)" "ok s1" "inp s1 = c # rest" "quiet s \<longrightarrow> quiet s1"
    using read_Cons [OF assms] by blast
  with timedPeek_Cons [of s1 c rest timeout] show ?thesis by (auto simp: later_def)
qed

lemma parseInt_loop_digits:
  assumes "\<forall>x\<in>set (x # ds). x < 10" "\<not> is_digit (uint e)" "e \<noteq> 1" "ok s" "inp s = digit_char x # map digit_char ds @ e # rest"
  shows "\<exists>s'. parseInt_loop d timeout NO_SKIP_CHAR neg v (uint (digit_char x)) s =
      Some (let w = foldl (\<lambda>a y. a * 10 + of_nat y) v (x # ds) in if neg then - w else w, s') \<and> later s (e # rest) s'"
  using assms(1,4,5)
proof (induction ds arbitrary: x s v rest)
  case Nil
  obtain s' where "timedPeek d timeout (snd (src_read d s)) = Some (uint e, s')" "later s (e # rest) s'"
    using parse_next [OF Nil(2), of "digit_char x" e rest timeout] Nil(3) by auto
  moreover have "uint e \<noteq> 1" using assms(3) by (auto simp: uint_inj_iff [of e 1, simplified])
  ultimately show ?case using Nil(1) assms(2)
    by (subst parseInt_loop.simps) (auto simp: uint_digit_char is_digit_def NO_SKIP_CHAR_def Let_def)
next
  case (Cons y ds)
  obtain s1 where s1: "timedPeek d timeout (snd (src_read d s)) = Some (uint (digit_char y), s1)"
      "later s (digit_char y # map digit_char ds @ e # rest) s1"
    using parse_next [OF Cons.prems(2), of "digit_char x" "digit_char y" "map digit_char ds @ e # rest" timeout] Cons.prems(3) by auto
  then obtain xs where xs: "ok s1" "inp s1 = digit_char y # map digit_char ds @ e # rest @ xs" "quiet s \<longrightarrow> quiet s1 \<and> xs = []"
    by (auto simp: later_def)
  have "parseInt_loop d timeout NO_SKIP_CHAR neg v (uint (digit_char x)) s =
      parseInt_loop d timeout NO_SKIP_CHAR neg (v * 10 + of_nat x) (uint (digit_char y)) s1"
    using s1(1) Cons.prems(1) by (subst parseInt_loop.simps) (simp add: uint_digit_char is_digit_def NO_SKIP_CHAR_def)
  moreover obtain s' where "parseInt_loop d timeout NO_SKIP_CHAR neg (v * 10 + of_nat x) (uint (digit_char y)) s1 =
      Some (let w = foldl (\<lambda>a y. a * 10 + of_nat y) (v * 10 + of_nat x) (y # ds) in if neg then - w else w, s')"
      "later s1 (e # rest @ xs) s'"
    using Cons.IH [of y s1 "rest @ xs" "v * 10 + of_nat x"] xs(1,2) Cons.prems(1) by auto
  ultimately show ?case using xs(3) by (auto simp: later_def)
qed

lemma parseInt_loop_utoa:
  assumes "\<not> is_digit (uint e)" "e \<noteq> 1" "ok s" "inp s = utoa_c 10 n @ e # rest"
  shows "\<exists>s'. parseInt_loop d timeout NO_SKIP_CHAR neg 0 (uint (hd (utoa_c 10 n))) s =
      Some (if neg then - of_nat n else of_nat n, s') \<and> later s (e # rest) s'"
proof -
  obtain x ds where ds: "rev (digits_rev 10 n) = x # ds"
    using digits_rev_nonempty [of 10 n] by (cases "rev (digits_rev 10 n)") auto
  then have u: "utoa_c 10 n = digit_char x # map digit_char ds"
    by (simp add: utoa_c_def rev_map)
  have lt: "\<forall>y\<in>set (x # ds). y < 10" using digits_rev_bound [of _ 10 n] by (simp flip: ds)
  have "foldl (\<lambda>a y. a * 10 + of_nat y) (0 :: u32) (x # ds) = of_nat n"
    using foldl_digits_word [of 0 "x # ds", where 'a = 32] digits_rev_val [of 10 n] by (simp add: digits_val_def ds)
  then show ?thesis
    using parseInt_loop_digits [OF lt assms(1-3), of rest timeout neg 0] assms(4) u by (simp add: Let_def)
qed

lemma parseInt_text:
  assumes "\<forall>b\<in>set junk. b \<noteq> 45 \<and> \<not> is_digit (uint b)" "\<not> is_digit (uint e)" "e \<noteq> 1" "ok s"
    and "inp s = junk @ itoa_c 32 10 (sint n) @ e # rest"
  shows "\<exists>s'. parseInt d timeout s = Some (n, s') \<and> later s (e # rest) s'"
proof (cases "sint n < 0")
  case True
  define k where "k = nat (- sint n)"
  have k: "itoa_c 32 10 (sint n) = 45 # utoa_c 10 k" "- of_nat k = n"
    using True by (simp_all add: itoa_c_def k_def of_nat_nat)
  obtain x ds where u: "utoa_c 10 k = digit_char x # ds" "x < 10" using utoa_10_hd by blast
  obtain s1 xs where s1: "peekNextDigit d timeout s = Some (45, s1)" "ok s1" "inp s1 = 45 # utoa_c 10 k @ e # rest @ xs"
      "quiet s \<longrightarrow> quiet s1 \<and> xs = []"
    using peekNextDigit_skips [OF assms(1) _ assms(4), of 45 "utoa_c 10 k @ e # rest" timeout] assms(5) k by (auto simp: later_def)
  obtain s2 ys where s2: "timedPeek d timeout (snd (src_read d s1)) = Some (uint (digit_char x), s2)" "ok s2"
      "inp s2 = utoa_c 10 k @ e # rest @ xs @ ys" "quiet s1 \<longrightarrow> quiet s2 \<and> ys = []"
    using parse_next [OF s1(2), of 45 "digit_char x" _ timeout] s1(3) u by (auto simp: later_def)
  have "parseInt_loop d timeout NO_SKIP_CHAR False 0 45 s1 = parseInt_loop d timeout NO_SKIP_CHAR True 0 (uint (digit_char x)) s2"
    using s2(1) u(2) by (subst parseInt_loop.simps) (simp add: uint_digit_char is_digit_def NO_SKIP_CHAR_def)
  then show ?thesis
    using parseInt_loop_utoa [OF assms(2,3) s2(2,3), of timeout True] s1 s2(4) u k(2)
    by (auto simp: parseInt_def parseInt_skip_def later_def)
next
  case False
  then have k: "itoa_c 32 10 (sint n) = utoa_c 10 (unat n)"
    by (simp add: itoa_c_def unat_sint_mod)
  obtain x ds where u: "utoa_c 10 (unat n) = digit_char x # ds" "x < 10" using utoa_10_hd by blast
  obtain s1 xs where s1: "peekNextDigit d timeout s = Some (uint (digit_char x), s1)" "ok s1"
      "inp s1 = utoa_c 10 (unat n) @ e # rest @ xs" "quiet s \<longrightarrow> quiet s1 \<and> xs = []"
    using peekNextDigit_skips [OF assms(1) _ assms(4), of "digit_char x" "ds @ e # rest" timeout] assms(5) k u
    by (auto simp: later_def is_digit_def uint_digit_char)
  then show ?thesis
    using parseInt_loop_utoa [OF assms(2,3) s1(2,3), of timeout False] u
    by (auto simp: parseInt_def parseInt_skip_def later_def uint_digit_char)
qed

text \<open>Strings: a character that cannot be appended for lack of memory is dropped, the next ones are tried.\<close>

lemma concat_char_val:
  assumes "alloc_ok alloc" "ws_val ret ys" "c \<noteq> 0" "length ys + 1 < 65535"
  shows "\<exists>r ret' zs. String_concat_char alloc c ret = Some (r, ret') \<and> ws_val ret' (ys @ zs) \<and> subseq zs [c] \<and>
    (never_fails alloc \<longrightarrow> zs = [c])"
proof -
  have "holds_str [c, 0] [c]" using assms(3) by simp
  from String_concat_n_val [OF assms(1,2) this] assms(4)
  consider ret' where "String_concat_n alloc (Some [c, 0]) 1 ret = Some (True, ret')" "ws_val ret' (ys @ [c])"
    | "String_concat_n alloc (Some [c, 0]) 1 ret = Some (False, ret)" "\<not> never_fails alloc"
    by (auto simp: never_fails_def)
  then show ?thesis
  proof cases
    case 2
    then show ?thesis using assms(2) by (intro exI [of _ False] exI [of _ ret] exI [of _ "[]"]) (simp add: String_concat_char_def)
  next
    case 1
    then show ?thesis by (intro exI [of _ True] exI [of _ ret'] exI [of _ "[c]"]) (simp add: String_concat_char_def)
  qed
qed

lemma readString_loop_reads:
  assumes "alloc_ok alloc" "\<forall>c\<in>set xs. c \<noteq> 0 \<and> \<not> stop (uint c)"
    and "ok s" "inp s = xs @ rest" "ws_val ret ys" "length ys + length xs < 65535"
  shows "\<exists>s' ret' zs. do { (c, s1) \<leftarrow> timedRead d timeout s; readString_loop d timeout alloc stop ret c s1 } =
      do { (c, s1) \<leftarrow> timedRead d timeout s'; readString_loop d timeout alloc stop ret' c s1 } \<and> later s rest s' \<and>
    ws_val ret' (ys @ zs) \<and> subseq zs xs \<and> (never_fails alloc \<longrightarrow> zs = xs)"
  using assms(2-)
proof (induction xs arbitrary: s rest ret ys)
  case Nil
  then show ?case by (intro exI [of _ s] exI [of _ ret] exI [of _ "[]"]) (auto simp: later_def)
next
  case (Cons x xs)
  obtain s1 us where s1: "timedRead d timeout s = Some (uint x, s1)" "ok s1" "inp s1 = xs @ rest @ us" "quiet s \<longrightarrow> quiet s1 \<and> us = []"
    using timedRead_Cons [OF Cons.prems(2), of x "xs @ rest" timeout] Cons.prems(3) by (auto simp: later_def)
  obtain r ret1 ws where ret1: "String_concat_char alloc x ret = Some (r, ret1)" "ws_val ret1 (ys @ ws)" "subseq ws [x]"
      "never_fails alloc \<longrightarrow> ws = [x]"
    using concat_char_val [OF assms(1) Cons.prems(4), of x] Cons.prems(1,5) by auto
  have "length ws \<le> 1" using list_emb_length [OF ret1(3)] by simp
  then obtain s' ret' zs where IH: "do { (c, s2) \<leftarrow> timedRead d timeout s1; readString_loop d timeout alloc stop ret1 c s2 } =
      do { (c, s2) \<leftarrow> timedRead d timeout s'; readString_loop d timeout alloc stop ret' c s2 }" "later s1 (rest @ us) s'"
      "ws_val ret' ((ys @ ws) @ zs)" "subseq zs xs" "never_fails alloc \<longrightarrow> zs = xs"
    using Cons.IH [of s1 "rest @ us" ret1 "ys @ ws"] Cons.prems(1,5) s1(2,3) ret1(2) by auto
  have "readString_loop d timeout alloc stop ret (uint x) s1 =
      do { (c, s2) \<leftarrow> timedRead d timeout s1; readString_loop d timeout alloc stop ret1 c s2 }"
    using Cons.prems(1) ret1(1) by (subst readString_loop.simps) simp
  moreover have "subseq (ws @ zs) (x # xs)"
    using list_emb_append_mono [OF ret1(3) IH(4)] by simp
  ultimately show ?case using IH s1 ret1(4)
    by (intro exI [of _ s'] exI [of _ ret'] exI [of _ "ws @ zs"]) (auto simp: later_def)
qed

lemma String_empty_val: "alloc_ok alloc \<Longrightarrow> \<exists>ret. String_cstr alloc (Some [0]) = Some ret \<and> ws_val ret []"
  using String_copy_val [of alloc String_init "[]" "[0]" "[]"]
  by (auto simp: String_cstr_def cstr_len16_def strlen_holds ws_val_def)

lemma readStringUntil_reads:
  assumes "alloc_ok alloc" "0 \<notin> set xs" "e \<notin> set xs" "length xs < 65535" "ok s" "inp s = xs @ e # rest"
  shows "\<exists>ret s' zs. readStringUntil d timeout alloc e s = Some (ret, s') \<and> ws_val ret zs \<and> subseq zs xs \<and>
    (never_fails alloc \<longrightarrow> zs = xs) \<and> later s rest s'"
proof -
  let ?stop = "\<lambda>c. c = uint e"
  obtain ret where ret: "String_cstr alloc (Some [0]) = Some ret" "ws_val ret []" using String_empty_val [OF assms(1)] by blast
  have "\<forall>c\<in>set xs. c \<noteq> 0 \<and> \<not> ?stop (uint c)" using assms(2,3) by (auto simp: uint_inj_iff)
  from readString_loop_reads [OF assms(1) this assms(5,6) ret(2), of timeout] assms(4)
  obtain s1 ret1 zs where 1: "readStringUntil d timeout alloc e s =
      do { (c, s1) \<leftarrow> timedRead d timeout s1; readString_loop d timeout alloc ?stop ret1 c s1 }" "later s (e # rest) s1"
      "ws_val ret1 zs" "subseq zs xs" "never_fails alloc \<longrightarrow> zs = xs"
    using ret(1) by (auto simp: readStringUntil_def)
  obtain us where us: "ok s1" "inp s1 = e # rest @ us" "quiet s \<longrightarrow> quiet s1 \<and> us = []" using 1(2) by (auto simp: later_def)
  obtain s2 where "timedRead d timeout s1 = Some (uint e, s2)" "later s1 (rest @ us) s2"
    using timedRead_Cons [OF us(1,2), of timeout] by blast
  with 1 us(3) show ?thesis
    by (intro exI [of _ ret1] exI [of _ s2] exI [of _ zs]) (auto simp: readString_loop.simps later_def)
qed

lemma readString_reads:
  assumes "alloc_ok alloc" "0 \<notin> set xs" "length xs < 65535" "ok s" "inp s = xs" "quiet s" "unat timeout + 2 < 2 ^ 32"
  shows "\<exists>ret s' zs. readString d timeout alloc s = Some (ret, s') \<and> ws_val ret zs \<and> subseq zs xs \<and>
    (never_fails alloc \<longrightarrow> zs = xs) \<and> inp s' = []"
proof -
  obtain ret where ret: "String_cstr alloc (Some [0]) = Some ret" "ws_val ret []" using String_empty_val [OF assms(1)] by blast
  have "\<forall>c\<in>set xs. c \<noteq> 0 \<and> \<not> False" using assms(2) by auto
  from readString_loop_reads [OF assms(1) this assms(4) _ ret(2), of "[]" timeout] assms(3,5)
  obtain s1 ret1 zs where 1: "readString d timeout alloc s =
      do { (c, s1) \<leftarrow> timedRead d timeout s1; readString_loop d timeout alloc (\<lambda>_. False) ret1 c s1 }" "later s [] s1"
      "ws_val ret1 zs" "subseq zs xs" "never_fails alloc \<longrightarrow> zs = xs"
    using ret(1) by (auto simp: readString_def)
  then have "ok s1" "inp s1 = []" "quiet s1" using assms(6) by (auto simp: later_def)
  then obtain s2 where "timedRead d timeout s1 = Some (-1, s2)" "inp s2 = []"
    using timedRead_returns [OF assms(7), of s1] by (auto simp: timed_result_def)
  with 1 show ?thesis
    by (intro exI [of _ ret1] exI [of _ s2] exI [of _ zs]) (auto simp: readString_loop.simps)
qed

text \<open>Searching: the bytes read are those that \<open>scan\<close> consumes.\<close>

lemma find_step_scan:
  assumes "length w < 65536" "i < length w"
  shows "find_step (w @ extra) (of_nat (length w)) (uint c) (of_nat i) =
    (let j = (if c = w ! i then i else 0) in
     Some (if c = w ! j then (of_nat (Suc j), Suc j = length w) else (of_nat j, False)))"
proof -
  have u: "unat (of_nat k :: u16) = k" if "k \<le> length w" for k using that assms(1) by (simp add: unat_of_nat)
  have ge: "of_nat (length w) \<le> (1 + of_nat k :: u16) \<longleftrightarrow> Suc k = length w" if "k < length w" for k
    using that u [of "Suc k"] u [of "length w"] by (auto simp: word_le_nat_alt)
  have get: "arr_get (w @ extra) k = Some (w ! k)" if "k < length w" for k using that by (simp add: arr_get_def nth_append)
  have 0: "0 < length w" "unat (of_nat i :: u16) = i" using assms(2) u [of i] by auto
  show ?thesis
    using get [OF assms(2)] get [OF 0(1)] ge [OF assms(2)] ge [OF 0(1)] 0(2)
    by (simp add: find_step_def uint_inj_iff Let_def add.commute)
qed

definition find_at :: "u8 list \<Rightarrow> u8 list \<Rightarrow> u32 \<Rightarrow> nat \<Rightarrow> 's \<Rightarrow> (bool \<times> 's) option" where
  "find_at w extra timeout i s = findUntil_loop d timeout (w @ extra) (of_nat (length w)) [] 0 (of_nat i) 0 s"

lemma find_at_step:
  assumes "length w < 65536" "i < length w" "ok s" "inp s = c # xs" "c \<noteq> 0"
  obtains s1 j where "ok s1" "later s xs s1" "j < length w \<or> c = w ! (j - 1) \<and> j = length w"
    "find_at w extra timeout i s = (if j = length w then Some (True, s1) else find_at w extra timeout j s1)"
    "\<And>r. scan w i (c # r) = (if j = length w then Some r else scan w j r)"
proof -
  obtain s1 where s1: "timedRead d timeout s = Some (uint c, s1)" "later s xs s1"
    using timedRead_Cons [OF assms(3,4)] by blast
  define j where "j = (if c = w ! i then i else 0)"
  define j' where "j' = (if c = w ! j then Suc j else j)"
  have j: "j < length w" using assms(2) by (auto simp: j_def)
  have step: "find_step (w @ extra) (of_nat (length w)) (uint c) (of_nat i) = Some (of_nat j', j' = length w)"
    using find_step_scan [OF assms(1,2), of extra c] j by (auto simp: j_def j'_def Let_def)
  have pos: "uint c > 0" using assms(5) by (simp add: word_less_def [of 0 c, simplified, symmetric] word_neq_0_conv [symmetric])
  have "find_at w extra timeout i s = (if j' = length w then Some (True, s1) else find_at w extra timeout j' s1)"
    using s1(1) pos step unfolding find_at_def by (subst findUntil_loop.simps) (simp add: term_step_def)
  moreover have "scan w i (c # r) = (if j' = length w then Some r else scan w j' r)" for r
    using j by (auto simp: j_def j'_def Let_def)
  moreover have "j' < length w \<or> c = w ! (j' - 1) \<and> j' = length w" using j by (auto simp: j'_def)
  ultimately show ?thesis using s1(2) that [of s1 j'] by (simp add: later_def)
qed

lemma find_at_scan:
  assumes "length w < 65536"
  shows "\<lbrakk>i < length w; 0 \<notin> set xs; scan w i xs = Some []; ok s; inp s = xs @ rest\<rbrakk> \<Longrightarrow>
    \<exists>s'. find_at w extra timeout i s = Some (True, s') \<and> later s rest s'"
proof (induction xs arbitrary: i s rest)
  case (Cons c xs)
  obtain s1 j where s1: "ok s1" "later s (xs @ rest) s1" "j < length w \<or> c = w ! (j - 1) \<and> j = length w"
    "find_at w extra timeout i s = (if j = length w then Some (True, s1) else find_at w extra timeout j s1)"
    "\<And>r. scan w i (c # r) = (if j = length w then Some r else scan w j r)"
    using Cons.prems by (elim find_at_step [OF assms, of i s c "xs @ rest"]) auto
  then obtain us where us: "inp s1 = xs @ rest @ us" "quiet s \<longrightarrow> quiet s1 \<and> us = []" by (auto simp: later_def)
  show ?case
  proof (cases "j = length w")
    case True
    then have "xs = []" using Cons.prems(3) s1(5) [of xs] by simp
    then show ?thesis using True s1 by auto
  next
    case False
    then obtain s' where "find_at w extra timeout j s1 = Some (True, s')" "later s1 (rest @ us) s'"
      using Cons.IH [of j s1 "rest @ us"] Cons.prems(2,3) s1(1,3) s1(5) [of xs] us(1) by auto
    then show ?thesis using s1(4) False us(2) by (auto simp: later_def)
  qed
qed simp

lemma find_at_scan_None:
  assumes "length w < 65536" "unat timeout + 2 < 2 ^ 32"
  shows "\<lbrakk>i < length w; 0 \<notin> set xs; scan w i xs = None; ok s; inp s = xs; quiet s\<rbrakk> \<Longrightarrow>
    \<exists>s'. find_at w extra timeout i s = Some (False, s')"
proof (induction xs arbitrary: i s)
  case Nil
  then obtain s' where "timedRead d timeout s = Some (-1, s')"
    using timedRead_returns [OF assms(2) Nil(4)] by (auto simp: timed_result_def)
  then show ?case unfolding find_at_def by (subst findUntil_loop.simps) simp
next
  case (Cons c xs)
  obtain s1 j where s1: "ok s1" "later s xs s1" "j < length w \<or> c = w ! (j - 1) \<and> j = length w"
    "find_at w extra timeout i s = (if j = length w then Some (True, s1) else find_at w extra timeout j s1)"
    "\<And>r. scan w i (c # r) = (if j = length w then Some r else scan w j r)"
    using Cons.prems by (elim find_at_step [OF assms(1), of i s c xs]) auto
  then show ?case using Cons.IH [of j s1] Cons.prems s1(5) [of xs] by (auto simp: later_def split: if_splits)
qed

lemma find_len_at:
  assumes "w \<noteq> []" "0 \<notin> set w"
  shows "find_len d timeout (w @ extra) (of_nat (length w)) s = find_at w extra timeout 0 s"
  using assms by (auto simp: find_len_def findUntil_len_def find_at_def arr_get_def nth_append neq_Nil_conv)

lemma find_len_finds:
  assumes "length w < 65536" "hd w \<notin> set (tl w)" "w \<noteq> []" "0 \<notin> set (pre @ w)" "first_occ w (pre @ w) = Some (length pre)"
    and "ok s" "inp s = pre @ w @ rest"
  shows "\<exists>s'. find_len d timeout (w @ extra) (of_nat (length w)) s = Some (True, s') \<and> later s rest s'"
  using find_at_scan [OF assms(1), of 0 "pre @ w" s rest extra timeout] scan_first_occ [OF assms(2), of 0 "pre @ w"]
    find_len_at [OF assms(3), of timeout extra s] assms by simp

lemma find_len_misses:
  assumes "length w < 65536" "w \<noteq> []" "0 \<notin> set w" "0 \<notin> set xs" "scan w 0 xs = None" "unat timeout + 2 < 2 ^ 32"
    and "ok s" "inp s = xs" "quiet s"
  shows "\<exists>s'. find_len d timeout (w @ extra) (of_nat (length w)) s = Some (False, s')"
  using find_at_scan_None [OF assms(1,6), of 0 xs s extra] find_len_at [OF assms(2,3), of timeout extra s] assms by simp

text \<open>Blocks: the bytes are stored in order, and nothing else of the buffer changes.\<close>

lemma readBytes_loop_reads:
  assumes "\<forall>c\<in>set xs. \<not> stop (uint c)" "ok s" "inp s = xs @ rest" "count + length xs \<le> length buffer"
  shows "\<exists>s'. readBytes_loop d timeout stop count (length xs + n) buffer s =
      readBytes_loop d timeout stop (count + length xs) n (take count buffer @ xs @ drop (count + length xs) buffer) s' \<and>
    later s rest s'"
  using assms
proof (induction xs arbitrary: s rest count buffer)
  case Nil
  then show ?case by (intro exI [of _ s]) (auto simp: later_def)
next
  case (Cons x xs)
  obtain s1 us where s1: "timedRead d timeout s = Some (uint x, s1)" "ok s1" "inp s1 = xs @ rest @ us" "quiet s \<longrightarrow> quiet s1 \<and> us = []"
    using timedRead_Cons [OF Cons.prems(2), of x "xs @ rest" timeout] Cons.prems(3) by (auto simp: later_def)
  have lt: "count < length buffer" using Cons.prems(4) by simp
  have b: "arr_set buffer count x = Some (buffer[count := x])" using lt by (simp add: arr_set_def)
  have t: "take (Suc count) (buffer[count := x]) = take count buffer @ [x]"
    using lt by (simp add: take_Suc_conv_app_nth)
  obtain s' where "readBytes_loop d timeout stop (Suc count) (length xs + n) (buffer[count := x]) s1 =
      readBytes_loop d timeout stop (Suc count + length xs) n (take (Suc count) (buffer[count := x]) @ xs @ drop (Suc count + length xs) (buffer[count := x])) s'"
      "later s1 (rest @ us) s'"
    using Cons.IH [of s1 "rest @ us" "Suc count" "buffer[count := x]"] Cons.prems(1,4) s1(2,3) by auto
  then show ?case using s1(1,4) b t Cons.prems(1) by (auto simp: later_def)
qed

end

section \<open>The serial port as a source\<close>

text \<open>
  The port, the timer and what happens between two readings of the clock: whether the timer overflows,
  and the characters that the receiver delivers (with the parity error flag).  After the schedule the
  timer overflows each time and nothing arrives.  \<open>pt_ticks\<close> counts the overflows.
\<close>

record port =
  pt_serial :: HardwareSerial
  pt_clock :: timer0
  pt_ticks :: nat
  pt_sched :: "(bool \<times> (bool \<times> u8) list) list"

definition rx_all :: "(bool \<times> u8) list \<Rightarrow> HardwareSerial \<Rightarrow> HardwareSerial" where
  "rx_all rx s = fold (\<lambda>(e, c). USART1_RX_isr e c) rx s"

definition port_tick :: "port \<Rightarrow> port" where
  "port_tick p = p\<lparr>pt_clock := TIMER0_OVF (pt_clock p), pt_ticks := Suc (pt_ticks p)\<rparr>"

definition port_pass :: "port \<Rightarrow> port" where
  "port_pass p =
     (case pt_sched p of
        [] \<Rightarrow> port_tick p
      | (tick, rx) # sched \<Rightarrow>
          (if tick then port_tick p else p)\<lparr>pt_serial := rx_all rx (pt_serial p), pt_sched := sched\<rparr>)"

definition port_source :: "port source" where
  "port_source =
     \<lparr>src_read = \<lambda>p. (let (c, s) = HardwareSerial_read (pt_serial p) in (c, p\<lparr>pt_serial := s\<rparr>)),
      src_peek = \<lambda>p. (HardwareSerial_peek (pt_serial p), p),
      src_millis = \<lambda>p. (millis (pt_clock p), port_pass p)\<rparr>"

definition port_ok :: "port \<Rightarrow> bool" where
  "port_ok p \<longleftrightarrow> hb_inv (hs_rx (pt_serial p)) \<and> pt_clock p = (TIMER0_OVF ^^ pt_ticks p) timer0_init"

definition port_input :: "port \<Rightarrow> u8 list" where
  "port_input p = hb_contents (hs_rx (pt_serial p))"

definition port_now :: "port \<Rightarrow> nat" where
  "port_now p = pt_ticks p * MICROSECONDS_PER_TIMER0_OVERFLOW div 1000"

definition port_quiet :: "port \<Rightarrow> bool" where
  "port_quiet p \<longleftrightarrow> (\<forall>(t, rx)\<in>set (pt_sched p). rx = [])"

lemma rx_all_Cons [simp]: "rx_all [] s = s" "rx_all ((e, c) # rx) s = rx_all rx (USART1_RX_isr e c s)"
  by (simp_all add: rx_all_def)

lemma rx_all_appends:
  "hb_inv (hs_rx s) \<Longrightarrow> hb_inv (hs_rx (rx_all rx s)) \<and> (\<exists>xs. hb_contents (hs_rx (rx_all rx s)) = hb_contents (hs_rx s) @ xs)"
proof (induction rx arbitrary: s)
  case (Cons x rx)
  obtain e c where x: "x = (e, c)" by (cases x)
  note isr = hs_rx_isr_contents [OF Cons.prems, of e c]
  show ?case using Cons.IH [OF isr(2)] isr(1) x by auto
qed simp

lemma rx_all_room:
  "hb_inv (hs_rx s) \<Longrightarrow> length (hb_contents (hs_rx s)) + length xs \<le> 63 \<Longrightarrow>
    hb_inv (hs_rx (rx_all (map (Pair False) xs) s)) \<and> hb_contents (hs_rx (rx_all (map (Pair False) xs) s)) = hb_contents (hs_rx s) @ xs"
proof (induction xs arbitrary: s)
  case (Cons x xs)
  note isr = hs_rx_isr_contents [OF Cons.prems(1), of False x]
  show ?case using Cons.IH [OF isr(2)] isr(1) Cons.prems(2) by simp
qed simp

lemma port_now_tick: "port_now p < port_now (port_tick p) \<and> port_now (port_tick p) \<le> port_now p + 2"
  unfolding port_now_def port_tick_def time_consts by simp linarith

lemma port_pass_ok:
  assumes "port_ok p"
  shows "\<exists>xs. port_ok (port_pass p) \<and> port_input (port_pass p) = port_input p @ xs \<and>
    (port_now p < port_now (port_pass p) \<and> port_now (port_pass p) \<le> port_now p + 2 \<or>
     port_now (port_pass p) = port_now p \<and> length (pt_sched (port_pass p)) < length (pt_sched p)) \<and>
    (port_quiet p \<longrightarrow> port_quiet (port_pass p) \<and> xs = [])"
proof (cases "pt_sched p")
  case Nil
  then show ?thesis using assms port_now_tick [of p]
    by (simp add: port_pass_def port_ok_def port_input_def port_quiet_def port_tick_def)
next
  case (Cons a sched)
  obtain tick rx where a: "a = (tick, rx)" by (cases a)
  obtain xs where xs: "hb_inv (hs_rx (rx_all rx (pt_serial p)))"
      "hb_contents (hs_rx (rx_all rx (pt_serial p))) = hb_contents (hs_rx (pt_serial p)) @ xs"
    using rx_all_appends assms unfolding port_ok_def by blast
  moreover have "rx = [] \<Longrightarrow> xs = []" using xs(2) by simp
  ultimately show ?thesis using Cons a assms port_now_tick [of p]
    by (intro exI [of _ xs])
      (auto simp: port_pass_def port_ok_def port_input_def port_quiet_def port_tick_def port_now_def)
qed

interpretation serial_in: byte_source port_source port_ok port_input port_now "\<lambda>p. length (pt_sched p)" port_quiet
proof
  fix s b bs
  assume ok: "port_ok s"
  show "src_read port_source s = (-1, s)" if "port_input s = []"
    using hs_read_empty that ok by (simp add: port_source_def port_ok_def port_input_def)
  show "src_peek port_source s = (case port_input s of [] \<Rightarrow> -1 | b # bs \<Rightarrow> uint b, s)"
    using hs_peek_contents ok by (simp add: port_source_def port_ok_def port_input_def)
  show "\<exists>s'. src_read port_source s = (uint b, s') \<and> port_ok s' \<and> port_input s' = bs \<and> port_now s' = port_now s \<and>
      (port_quiet s \<longrightarrow> port_quiet s')" if cs: "port_input s = b # bs"
  proof -
    obtain q where "HardwareSerial_read (pt_serial s) = (uint b, (pt_serial s)\<lparr>hs_rx := q\<rparr>)" "hb_inv q" "hb_contents q = bs"
      using hs_read_Cons [of "pt_serial s" b bs] ok cs unfolding port_ok_def port_input_def by blast
    then show ?thesis using ok
      by (simp add: port_source_def port_ok_def port_input_def port_now_def port_quiet_def)
  qed
  have "millis (pt_clock s) = of_nat (port_now s)"
    using ok TIMER0_OVF_millis by (simp add: port_ok_def port_now_def)
  then show "\<exists>s' xs. src_millis port_source s = (of_nat (port_now s), s') \<and> port_ok s' \<and> port_input s' = port_input s @ xs \<and>
      (port_now s < port_now s' \<and> port_now s' \<le> port_now s + 2 \<or>
       port_now s' = port_now s \<and> length (pt_sched s') < length (pt_sched s)) \<and> (port_quiet s \<longrightarrow> port_quiet s' \<and> xs = [])"
    using port_pass_ok [OF ok] by (simp add: port_source_def)
qed

section \<open>Properties\<close>

lemma toupper_itoa10: "map toupper_c (itoa_c 32 10 k) = itoa_c 32 10 k"
proof -
  have "toupper_c (digit_char x) = digit_char x" if "x \<in> set (digits_rev 10 n)" for x n
    using digits_rev_bound [OF that] unat_digit_char [of x] by (simp add: toupper_c_def word_le_nat_alt)
  then have "toupper_c c = c" if "c \<in> set (utoa_c 10 n)" for c n
    using that by (auto simp: utoa_c_def)
  moreover have "toupper_c 45 = 45" by code_simp
  ultimately show ?thesis by (auto simp: itoa_c_def intro!: map_idI)
qed

lemma itoa10_length: "length (itoa_c 32 10 (sint n)) \<le> 11" for n :: u32
  using itoa10_fits32 [of n] by simp


definition port_ex :: "u8 list \<Rightarrow> port" where
  "port_ex xs = \<lparr>pt_serial = rx_all (map (Pair False) xs) Serial1, pt_clock = timer0_init, pt_ticks = 0,
     pt_sched = [(False, []), (True, [])]\<rparr>"

lemma port_ex_ok:
  assumes "length xs \<le> 63"
  shows "port_ok (port_ex xs)" "port_input (port_ex xs) = xs" "port_quiet (port_ex xs)" "port_now (port_ex xs) = 0"
proof -
  have "hb_inv (hs_rx Serial1)" "hb_contents (hs_rx Serial1) = []" by code_simp+
  with rx_all_room [of Serial1 xs] assms show "port_ok (port_ex xs)" "port_input (port_ex xs) = xs"
    by (simp_all add: port_ex_def port_ok_def port_input_def)
qed (simp_all add: port_ex_def port_quiet_def port_now_def)

text \<open>
  C27: \<open>timedRead\<close> on the serial port returns whatever arrives and whenever the clock ticks, also when
  \<open>millis\<close> wraps around: with the first unread byte if there is one, with some byte that arrives, or
  with -1; -1 not before the time-out has passed, and in every case at most four milliseconds after it.
\<close>

theorem timedRead_serial:
  assumes "unat timeout < 2 ^ 32 - 2" "port_ok p"
  shows "\<exists>c p'. timedRead port_source timeout p = Some (c, p') \<and> port_ok p' \<and>
    port_now p' \<le> port_now p + unat timeout + 4 \<and>
    (c = -1 \<and> port_input p = [] \<and> port_now p + unat timeout \<le> port_now p' \<or>
     (\<exists>b. c = uint b \<and> (\<forall>x xs. port_input p = x # xs \<longrightarrow> b = x)))"
proof -
  have "unat timeout + 2 < 2 ^ 32" using assms(1) by simp
  then obtain r where "timedRead port_source timeout p = Some r" "serial_in.timed_result timeout (port_now p) p r"
    using serial_in.timedRead_returns assms(2) by blast
  then show ?thesis unfolding serial_in.timed_result_def
    by (intro exI [of _ "fst r"] exI [of _ "snd r"] conjI) simp_all
qed

theorem timedRead_serial_witness:
  "\<exists>p'. timedRead port_source 1000 (port_ex []) = Some (-1, p') \<and> 1000 \<le> port_now p' \<and> port_now p' \<le> 1004 \<or>
    (\<exists>b p'. timedRead port_source 1000 (port_ex []) = Some (uint (b :: u8), p') \<and> port_now p' \<le> 1004)"
  using timedRead_serial [of 1000 "port_ex []"] port_ex_ok [of "[]"] by auto

text \<open>
  C26: A number sent with \<open>println(n)\<close> on one port and delivered to the receive buffer of another is what
  \<open>parseInt\<close> returns there, for every 32-bit value; the line end stays in the buffer.
\<close>

theorem println_parseInt_roundtrip:
  assumes "hs_ready s" "port_ok p" "port_input p = []"
  shows "\<exists>r s' line p'. println_long HardwareSerial_sink n 10 s = Some (r, s') \<and> tx_flow s' = tx_flow s @ line \<and>
    parseInt port_source timeout (p\<lparr>pt_serial := rx_all (map (Pair False) line) (pt_serial p)\<rparr>) = Some (n, p') \<and>
    (\<exists>xs. port_input p' = [13, 10] @ xs)"
proof -
  let ?t = "itoa_c 32 10 (sint n)"
  let ?line = "?t @ [13, 10]"
  let ?p = "p\<lparr>pt_serial := rx_all (map (Pair False) ?line) (pt_serial p)\<rparr>"
  obtain s' where s': "println_long HardwareSerial_sink n 10 s = Some (of_nat (length ?t + 2), s')"
      "tx_flow s' = tx_flow s @ ?line"
    using emitsD [OF hs_print.then_println_emits [OF hs_print.print_long_emits [of 10 n]] assms(1)]
    by (auto simp: println_long_def toupper_itoa10)
  have "port_ok ?p" "port_input ?p = ?line"
    using rx_all_room [of "pt_serial p" ?line] assms(2,3) itoa10_length [of n]
    by (simp_all add: port_ok_def port_input_def del: length_hb_contents)
  then obtain p' where "parseInt port_source timeout ?p = Some (n, p')" "serial_in.later ?p [13, 10] p'"
    using serial_in.parseInt_text [of "[]" 13 ?p n "[10]" timeout] by (auto simp: is_digit_def)
  with s' show ?thesis unfolding serial_in.later_def by blast
qed

theorem println_parseInt_roundtrip_witness:
  "\<exists>r s' line p'. println_long HardwareSerial_sink 0x80000000 10 Serial1 = Some (r, s') \<and> tx_flow s' = tx_flow Serial1 @ line \<and>
    parseInt port_source 1000 ((port_ex [])\<lparr>pt_serial := rx_all (map (Pair False) line) (pt_serial (port_ex []))\<rparr>) =
      Some (0x80000000, p') \<and> (\<exists>xs. port_input p' = [13, 10] @ xs)"
  by (rule println_parseInt_roundtrip) (simp_all add: hs_ready_Serial1 port_ex_ok)

text \<open>
  \<open>readStringUntil\<close> takes the text before the terminator and the terminator from the port.  The
  string it returns is that text when memory suffices; when an allocation fails characters are missing
  from it, but none is changed and the object is well formed.
\<close>

theorem readStringUntil_serial:
  assumes "alloc_ok alloc" "0 \<notin> set xs" "e \<notin> set xs" "port_ok p" "port_input p = xs @ e # rest"
  shows "\<exists>ret p' zs. readStringUntil port_source timeout alloc e p = Some (ret, p') \<and> ws_val ret zs \<and> subseq zs xs \<and>
    (never_fails alloc \<longrightarrow> zs = xs) \<and> (\<exists>ys. port_input p' = rest @ ys)"
proof -
  have "length (port_input p) < 64" by (simp add: port_input_def hb_len_lt)
  then have "length xs < 65535" using assms(5) by simp
  from serial_in.readStringUntil_reads [OF assms(1-3) this assms(4,5), of timeout]
  show ?thesis unfolding serial_in.later_def by blast
qed

theorem readStringUntil_serial_witness:
  "\<exists>ret p' zs. readStringUntil port_source 1000 malloc_ex 10 (port_ex [79, 75, 10, 62]) = Some (ret, p') \<and> ws_val ret [79, 75]"
  using readStringUntil_serial [OF malloc_ex_ok, of "[79, 75]" 10 "port_ex [79, 75, 10, 62]" "[62]" 1000]
  by (auto simp: port_ex_ok never_fails_def malloc_ex_def)

text \<open>
  \<open>find\<close> is a correct search for a target whose first character does not occur again in it: it
  reports the target as soon as it has arrived and stops reading right after its first occurrence, and
  it reports failure, after the time-out, when the target is not in the input and nothing more arrives.
\<close>

theorem find_serial:
  assumes "hd w \<notin> set (tl w)" "w \<noteq> []" "length w < 65536" "0 \<notin> set w" "0 \<notin> set pre" "port_ok p" "unat timeout < 2 ^ 32 - 2"
  shows "(port_input p = pre @ w @ rest \<and> first_occ w (pre @ w) = Some (length pre) \<longrightarrow>
      (\<exists>p'. find_len port_source timeout (w @ extra) (of_nat (length w)) p = Some (True, p') \<and>
        (\<exists>ys. port_input p' = rest @ ys))) \<and>
    (port_input p = pre \<and> port_quiet p \<and> first_occ w pre = None \<longrightarrow>
      (\<exists>p'. find_len port_source timeout (w @ extra) (of_nat (length w)) p = Some (False, p')))"
proof (intro conjI impI; (elim conjE)?)
  show "\<exists>p'. find_len port_source timeout (w @ extra) (of_nat (length w)) p = Some (True, p') \<and>
      (\<exists>ys. port_input p' = rest @ ys)" if "port_input p = pre @ w @ rest" "first_occ w (pre @ w) = Some (length pre)"
    using serial_in.find_len_finds [OF assms(3,1,2) _ that(2) assms(6) that(1), of timeout extra] assms(4,5)
    unfolding serial_in.later_def by auto
  show "\<exists>p'. find_len port_source timeout (w @ extra) (of_nat (length w)) p = Some (False, p')"
    if "port_input p = pre" "port_quiet p" "first_occ w pre = None"
    using serial_in.find_len_misses [OF assms(3,2,4,5) _ _ assms(6) that(1,2), of timeout extra]
      scan_first_occ [OF assms(1), of 0 pre] that(3) assms(2,7) by simp
qed

theorem find_serial_witness:
  "(\<exists>p'. find_len port_source 1000 ([97, 98] @ [0]) 2 (port_ex [97, 97, 98, 99]) = Some (True, p') \<and>
    (\<exists>ys. port_input p' = 99 # ys)) \<and>
   (\<exists>p'. find_len port_source 1000 ([97, 98] @ [0]) 2 (port_ex [98, 97]) = Some (False, p'))"
  using find_serial [of "[97, 98]" "[97]" "port_ex [97, 97, 98, 99]" 1000 "[99]" "[0]"]
    find_serial [of "[97, 98]" "[98, 97]" "port_ex [98, 97]" 1000 _ "[0]"]
  by (simp add: port_ex_ok)

text \<open>
  The search restarts at the character after a failed match, so a target that starts inside the failed
  match is missed: \<open>aab\<close> is not found in \<open>aaab\<close>.
\<close>

theorem find_misses_overlap:
  "\<exists>p'. find_len port_source 1000 ([97, 97, 98] @ [0]) 3 (port_ex [97, 97, 97, 98]) = Some (False, p')"
proof -
  have "scan [97, 97, 98] 0 [97, 97, 97, 98 :: u8] = None" by code_simp
  then show ?thesis
    using serial_in.find_len_misses [of "[97, 97, 98]" "[97, 97, 97, 98]" 1000 "port_ex [97, 97, 97, 98]" "[0]"]
    by (simp add: port_ex_ok)
qed

text \<open>
  \<open>readBytes\<close> with as many bytes waiting as are asked for stores exactly these, in order, changes
  nothing else of the buffer, and returns their number.
\<close>

theorem readBytes_serial:
  assumes "port_ok p" "port_input p = xs @ rest" "unat len = length xs" "length xs \<le> length buffer"
  shows "\<exists>p'. readBytes port_source timeout buffer len p = Some (length xs, xs @ drop (length xs) buffer, p') \<and>
    (\<exists>ys. port_input p' = rest @ ys)"
  using serial_in.readBytes_loop_reads [OF _ assms(1,2), of "\<lambda>_. False" 0 buffer timeout 0] assms(3,4)
  unfolding serial_in.later_def by (auto simp: readBytes_def)

theorem readBytes_serial_witness:
  "\<exists>p'. readBytes port_source 1000 [0, 0, 0] 2 (port_ex [1, 2, 3]) = Some (Suc (Suc 0), [1, 2, 0], p') \<and>
    (\<exists>ys. port_input p' = 3 # ys)"
  using readBytes_serial [of "port_ex [1, 2, 3]" "[1, 2]" "[3]" 2 "[0, 0, 0]" 1000] by (simp add: port_ex_ok)

end
