(* ===== verification/USB_Serial.thy ===== *)
theory USB_Serial
  imports LUFA_Device Arduino_Stream
begin

text \<open>
  The virtual serial port over USB: the bulk endpoints with their waits (\<open>Endpoint_AVR8.c\<close>), the write
  stream (\<open>Template_Endpoint_RW.c\<close>), the CDC class driver (\<open>CDCClassDevice.c\<close>) and the class
  \<open>USBSerial_\<close> with its event handlers (\<open>USBSerialClass.cpp\<close>), in device mode.

  The host is a sequence of actions.  One takes place in each pass of a wait loop and one before each
  call of \<open>_doTasks\<close>; the control endpoint keeps its own history (\<open>ud_evs\<close>).  A wait that never ends is
  \<open>None\<close>.
\<close>

section \<open>Endpoints and host\<close>

datatype cdc_ep = EP_TX | EP_RX | EP_NOTIF

primrec ep_size :: "cdc_ep \<Rightarrow> nat" where
  "ep_size EP_TX = 16"
| "ep_size EP_RX = 16"
| "ep_size EP_NOTIF = 8"

primrec ep_num :: "cdc_ep \<Rightarrow> nat" where
  "ep_num EP_TX = 3"
| "ep_num EP_RX = 4"
| "ep_num EP_NOTIF = 2"

text \<open>
  The bank of an endpoint: its bytes, whether it is with the processor (\<open>TXINI\<close> or \<open>RXOUTI\<close>), and the
  packets that have gone through it.
\<close>

record bank =
  bk_bytes :: "u8 list"
  bk_cpu :: bool
  bk_done :: "u8 list list"

datatype host_action =
  Host_polls cdc_ep | Host_sends "u8 list" | Host_setup "u8 list" | Host_frame | Host_detach | Host_suspend | Host_idle

record USBSerial =
  us_dev :: usb_dev
  us_hdr :: "u8 list"
  us_ep :: "cdc_ep \<Rightarrow> bank"
  us_frame :: u16
  us_host :: "nat \<Rightarrow> host_action"
  us_time :: nat
  us_BaudRateBPS :: u32
  us_CharFormat :: u8
  us_ParityType :: u8
  us_DataBits :: u8
  us_HostToDevice :: u16
  us_DeviceToHost :: u16
  us_lineState :: u8
  us_didPeek :: bool
  us_peek :: int

definition set_state :: "dev_state \<Rightarrow> USBSerial \<Rightarrow> USBSerial" where
  "set_state st s = s\<lparr>us_dev := (us_dev s)\<lparr>ud_state := st\<rparr>\<rparr>"

definition set_ep :: "cdc_ep \<Rightarrow> bank \<Rightarrow> USBSerial \<Rightarrow> USBSerial" where
  "set_ep e b s = s\<lparr>us_ep := (us_ep s)(e := b)\<rparr>"

definition next_frame :: "u16 \<Rightarrow> u16" where
  "next_frame f = (f + 1) AND 0x7FF"

primrec host_step :: "host_action \<Rightarrow> USBSerial \<Rightarrow> USBSerial" where
  "host_step (Host_polls e) s =
     (let b = us_ep s e in
      if e \<noteq> EP_RX \<and> \<not> bk_cpu b
      then set_ep e \<lparr>bk_bytes = [], bk_cpu = True, bk_done = bk_done b @ [bk_bytes b]\<rparr> s else s)"
| "host_step (Host_sends p) s =
     (let b = us_ep s EP_RX in
      if \<not> bk_cpu b then set_ep EP_RX \<lparr>bk_bytes = p, bk_cpu = True, bk_done = bk_done b @ [p]\<rparr> s else s)"
| "host_step (Host_setup hdr) s = s\<lparr>us_dev := (us_dev s)\<lparr>ud_setup := True\<rparr>, us_hdr := hdr\<rparr>"
| "host_step Host_frame s = s\<lparr>us_frame := next_frame (us_frame s)\<rparr>"
| "host_step Host_detach s = set_state DS_Unattached s"
| "host_step Host_suspend s = set_state DS_Suspended s"
| "host_step Host_idle s = s"

definition host_pass :: "USBSerial \<Rightarrow> USBSerial" where
  "host_pass s = host_step (us_host s (us_time s)) (s\<lparr>us_time := Suc (us_time s)\<rparr>)"

definition Endpoint_IsReadWriteAllowed :: "cdc_ep \<Rightarrow> USBSerial \<Rightarrow> bool" where
  "Endpoint_IsReadWriteAllowed e s =
     (bk_cpu (us_ep s e) \<and> (if e = EP_RX then bk_bytes (us_ep s e) \<noteq> [] else length (bk_bytes (us_ep s e)) < ep_size e))"

definition Endpoint_IsINReady :: "cdc_ep \<Rightarrow> USBSerial \<Rightarrow> bool" where
  "Endpoint_IsINReady e s = bk_cpu (us_ep s e)"

definition Endpoint_IsOUTReceived :: "cdc_ep \<Rightarrow> USBSerial \<Rightarrow> bool" where
  "Endpoint_IsOUTReceived e s = bk_cpu (us_ep s e)"

definition Endpoint_BytesInEndpoint :: "cdc_ep \<Rightarrow> USBSerial \<Rightarrow> nat" where
  "Endpoint_BytesInEndpoint e s = length (bk_bytes (us_ep s e))"

definition Endpoint_ClearIN_ep :: "cdc_ep \<Rightarrow> USBSerial \<Rightarrow> USBSerial" where
  "Endpoint_ClearIN_ep e s = set_ep e ((us_ep s e)\<lparr>bk_cpu := False\<rparr>) s"

definition Endpoint_ClearOUT :: "cdc_ep \<Rightarrow> USBSerial \<Rightarrow> USBSerial" where
  "Endpoint_ClearOUT e s = set_ep e ((us_ep s e)\<lparr>bk_cpu := False, bk_bytes := []\<rparr>) s"

definition Endpoint_Write_8 :: "cdc_ep \<Rightarrow> u8 \<Rightarrow> USBSerial \<Rightarrow> USBSerial" where
  "Endpoint_Write_8 e c s =
     (if Endpoint_IsReadWriteAllowed e s then set_ep e ((us_ep s e)\<lparr>bk_bytes := bk_bytes (us_ep s e) @ [c]\<rparr>) s else s)"

definition Endpoint_Read_8 :: "cdc_ep \<Rightarrow> USBSerial \<Rightarrow> (u8 \<times> USBSerial) option" where
  "Endpoint_Read_8 e s =
     (case bk_bytes (us_ep s e) of
        [] \<Rightarrow> None
      | c # cs \<Rightarrow> Some (c, set_ep e ((us_ep s e)\<lparr>bk_bytes := cs\<rparr>) s))"

datatype ep_result =
  EP_NoError | EP_EndpointStalled | EP_DeviceDisconnected | EP_BusSuspended | EP_Timeout

definition USB_STREAM_TIMEOUT_MS :: u8 where
  "USB_STREAM_TIMEOUT_MS = 100"

partial_function (option) WaitUntilReady_loop ::
    "cdc_ep \<Rightarrow> u8 \<Rightarrow> u16 \<Rightarrow> USBSerial \<Rightarrow> (ep_result \<times> USBSerial) option" where
  "WaitUntilReady_loop e TimeoutMSRem PreviousFrameNumber s =
     (if (if e = EP_RX then Endpoint_IsOUTReceived e s else Endpoint_IsINReady e s) then Some (EP_NoError, s)
      else if ud_state (us_dev s) = DS_Unattached then Some (EP_DeviceDisconnected, s)
      else if ud_state (us_dev s) = DS_Suspended then Some (EP_BusSuspended, s)
      else if ud_ep_stalled (us_dev s) (ep_num e) then Some (EP_EndpointStalled, s)
      else if us_frame s \<noteq> PreviousFrameNumber
      then (if TimeoutMSRem = 0 then Some (EP_Timeout, s)
            else WaitUntilReady_loop e (TimeoutMSRem - 1) (us_frame s) (host_pass s))
      else WaitUntilReady_loop e TimeoutMSRem PreviousFrameNumber (host_pass s))"

declare WaitUntilReady_loop.simps [code]

definition Endpoint_WaitUntilReady :: "cdc_ep \<Rightarrow> USBSerial \<Rightarrow> (ep_result \<times> USBSerial) option" where
  "Endpoint_WaitUntilReady e s = WaitUntilReady_loop e USB_STREAM_TIMEOUT_MS (us_frame s) s"

section \<open>Control requests of the class\<close>

definition le32 :: "u32 \<Rightarrow> u8 list" where
  "le32 w = [ucast w, ucast (drop_bit 8 w), ucast (drop_bit 16 w), ucast (drop_bit 24 w)]"

definition of_le32 :: "u8 \<Rightarrow> u8 \<Rightarrow> u8 \<Rightarrow> u8 \<Rightarrow> u32" where
  "of_le32 b0 b1 b2 b3 = ucast b0 OR push_bit 8 (ucast b1) OR push_bit 16 (ucast b2) OR push_bit 24 (ucast b3)"

text \<open>The wait for the data stage: the packet, or nothing when the device is detached.\<close>

fun wait_line_encoding :: "ep_event list \<Rightarrow> (u8 list option \<times> ep_event list) option" where
  "wait_line_encoding [] = None"
| "wait_line_encoding (Ev_Out p # evs) = Some (Some p, evs)"
| "wait_line_encoding (Ev_Unattached # evs) = Some (None, evs)"
| "wait_line_encoding (_ # evs) = wait_line_encoding evs"

text \<open>Reading more bytes than the packet has gives no defined value.\<close>

fun set_line_encoding :: "u8 list \<Rightarrow> USBSerial \<Rightarrow> USBSerial option" where
  "set_line_encoding (b0 # b1 # b2 # b3 # format # parity # bits # _) s =
     Some (s\<lparr>us_BaudRateBPS := of_le32 b0 b1 b2 b3, us_CharFormat := format, us_ParityType := parity, us_DataBits := bits\<rparr>)"
| "set_line_encoding _ s = None"

definition EVENT_CDC_Device_ControLineStateChanged :: "USBSerial \<Rightarrow> USBSerial" where
  "EVENT_CDC_Device_ControLineStateChanged s = s\<lparr>us_lineState := ucast (us_HostToDevice s AND 1)\<rparr>"

definition CDC_Device_ProcessControlRequest :: "USBSerial \<Rightarrow> USBSerial option" where
  "CDC_Device_ProcessControlRequest s =
     (let d = us_dev s; r = ud_bRequest d; t = ud_bmRequestType d in
      if \<not> ud_setup d \<or> ud_wIndex d \<noteq> 0 then Some s
      else if r = 0x21 \<and> t = 0xA1
      then do { let d1 = Endpoint_ClearSETUP d;
                evs \<leftarrow> wait_INReady_forever (ud_evs d1);
                let d2 = send_packet (le32 (us_BaudRateBPS s) @ [us_CharFormat s, us_ParityType s, us_DataBits s]) (d1\<lparr>ud_evs := evs\<rparr>);
                d3 \<leftarrow> Endpoint_ClearStatusStage d2;
                Some (s\<lparr>us_dev := d3\<rparr>) }
      else if r = 0x20 \<and> t = 0x21
      then do { let d1 = Endpoint_ClearSETUP d;
                (p, evs) \<leftarrow> wait_line_encoding (ud_evs d1);
                case p of
                  None \<Rightarrow> Some (s\<lparr>us_dev := d1\<lparr>ud_evs := evs\<rparr>\<rparr>)
                | Some bytes \<Rightarrow>
                    do { s1 \<leftarrow> set_line_encoding bytes s;
                         d2 \<leftarrow> Endpoint_ClearStatusStage (d1\<lparr>ud_evs := evs\<rparr>);
                         Some (s1\<lparr>us_dev := d2\<rparr>) } }
      else if r = 0x22 \<and> t = 0x21
      then do { d1 \<leftarrow> Endpoint_ClearStatusStage (Endpoint_ClearSETUP d);
                Some (EVENT_CDC_Device_ControLineStateChanged (s\<lparr>us_dev := d1, us_HostToDevice := ud_wValue d1\<rparr>)) }
      else if r = 0x23 \<and> t = 0x21
      then do { d1 \<leftarrow> Endpoint_ClearStatusStage (Endpoint_ClearSETUP d); Some (s\<lparr>us_dev := d1\<rparr>) }
      else Some s)"

text \<open>Configuring an endpoint empties its bank; \<open>cfgok\<close> is what the controller reports.\<close>

definition configure_ep :: "(nat \<Rightarrow> bool) \<Rightarrow> cdc_ep \<Rightarrow> USBSerial \<Rightarrow> bool \<times> USBSerial" where
  "configure_ep cfgok e s =
     (cfgok (ep_num e),
      set_ep e ((us_ep s e)\<lparr>bk_bytes := [], bk_cpu := (e \<noteq> EP_RX)\<rparr>)
        (s\<lparr>us_dev := (us_dev s)\<lparr>ud_ep_enabled := (ud_ep_enabled (us_dev s))(ep_num e := True)\<rparr>\<rparr>))"

definition CDC_Device_ConfigureEndpoints :: "(nat \<Rightarrow> bool) \<Rightarrow> USBSerial \<Rightarrow> bool \<times> USBSerial" where
  "CDC_Device_ConfigureEndpoints cfgok s =
     (let s0 = s\<lparr>us_BaudRateBPS := 0, us_CharFormat := 0, us_ParityType := 0, us_DataBits := 0,
                 us_HostToDevice := 0, us_DeviceToHost := 0\<rparr>;
          (ok1, s1) = configure_ep cfgok EP_TX s0
      in if \<not> ok1 then (False, s1)
         else (let (ok2, s2) = configure_ep cfgok EP_RX s1
               in if \<not> ok2 then (False, s2) else configure_ep cfgok EP_NOTIF s2))"

definition EVENT_ConfigurationChanged_serial :: "(nat \<Rightarrow> bool) \<Rightarrow> USBSerial \<Rightarrow> USBSerial" where
  "EVENT_ConfigurationChanged_serial cfgok s = snd (CDC_Device_ConfigureEndpoints cfgok s)"

text \<open>
  The device task with the event handlers of the class: the class driver sees the request first, then
  the standard requests; a change of the configuration calls the handler.
\<close>

definition ProcessControlRequest_serial :: "usb_app \<Rightarrow> (nat \<Rightarrow> bool) \<Rightarrow> USBSerial \<Rightarrow> USBSerial option" where
  "ProcessControlRequest_serial app cfgok s =
     do { d0 \<leftarrow> read_header (us_hdr s) (us_dev s);
          s1 \<leftarrow> CDC_Device_ProcessControlRequest (s\<lparr>us_dev := d0\<rparr>);
          d2 \<leftarrow> (if ud_setup (us_dev s1) then standard_request app (us_dev s1) else Some (us_dev s1));
          let d3 = (if ud_setup d2 then Endpoint_ClearSETUP d2 else d2);
          let s3 = s1\<lparr>us_dev := d3\<rparr>;
          Some (if ud_config_events d3 \<noteq> ud_config_events (us_dev s1)
                then EVENT_ConfigurationChanged_serial cfgok s3 else s3) }"

definition USB_USBTask :: "usb_app \<Rightarrow> (nat \<Rightarrow> bool) \<Rightarrow> USBSerial \<Rightarrow> USBSerial option" where
  "USB_USBTask app cfgok s =
     (if ud_state (us_dev s) = DS_Unattached then Some s
      else if ud_setup (us_dev s) then ProcessControlRequest_serial app cfgok s else Some s)"

section \<open>Data of the class\<close>

definition cdc_ready :: "USBSerial \<Rightarrow> bool" where
  "cdc_ready s \<longleftrightarrow> \<not> (ud_state (us_dev s) \<noteq> DS_Configured \<or> us_BaudRateBPS s = 0)"

definition CDC_Device_Flush :: "USBSerial \<Rightarrow> (ep_result \<times> USBSerial) option" where
  "CDC_Device_Flush s =
     (if \<not> cdc_ready s then Some (EP_DeviceDisconnected, s)
      else if Endpoint_BytesInEndpoint EP_TX s = 0 then Some (EP_NoError, s)
      else (let BankFull = \<not> Endpoint_IsReadWriteAllowed EP_TX s; s1 = Endpoint_ClearIN_ep EP_TX s in
            if BankFull
            then do { (ErrorCode, s2) \<leftarrow> Endpoint_WaitUntilReady EP_TX s1;
                      if ErrorCode \<noteq> EP_NoError then Some (ErrorCode, s2)
                      else Some (EP_NoError, Endpoint_ClearIN_ep EP_TX s2) }
            else Some (EP_NoError, s1)))"

definition CDC_Device_USBTask :: "USBSerial \<Rightarrow> USBSerial option" where
  "CDC_Device_USBTask s =
     (if \<not> cdc_ready s then Some s
      else if Endpoint_IsINReady EP_TX s then map_option snd (CDC_Device_Flush s) else Some s)"

partial_function (option) Write_Stream_loop ::
    "usb_app \<Rightarrow> (nat \<Rightarrow> bool) \<Rightarrow> cdc_ep \<Rightarrow> u8 list \<Rightarrow> USBSerial \<Rightarrow> (ep_result \<times> USBSerial) option" where
  "Write_Stream_loop app cfgok e Buffer s =
     (case Buffer of
        [] \<Rightarrow> Some (EP_NoError, s)
      | c # cs \<Rightarrow>
          (if \<not> Endpoint_IsReadWriteAllowed e s
           then do { s1 \<leftarrow> USB_USBTask app cfgok (Endpoint_ClearIN_ep e s);
                     (ErrorCode, s2) \<leftarrow> Endpoint_WaitUntilReady e s1;
                     if ErrorCode \<noteq> EP_NoError then Some (ErrorCode, s2)
                     else Write_Stream_loop app cfgok e Buffer s2 }
           else Write_Stream_loop app cfgok e cs (Endpoint_Write_8 e c s)))"

declare Write_Stream_loop.simps [code]

definition Endpoint_Write_Stream_LE ::
    "usb_app \<Rightarrow> (nat \<Rightarrow> bool) \<Rightarrow> cdc_ep \<Rightarrow> u8 list \<Rightarrow> USBSerial \<Rightarrow> (ep_result \<times> USBSerial) option" where
  "Endpoint_Write_Stream_LE app cfgok e Buffer s =
     do { (ErrorCode, s1) \<leftarrow> Endpoint_WaitUntilReady e s;
          if ErrorCode \<noteq> EP_NoError then Some (ErrorCode, s1) else Write_Stream_loop app cfgok e Buffer s1 }"

definition CDC_Device_SendData :: "usb_app \<Rightarrow> (nat \<Rightarrow> bool) \<Rightarrow> u8 list \<Rightarrow> USBSerial \<Rightarrow> (ep_result \<times> USBSerial) option" where
  "CDC_Device_SendData app cfgok Buffer s =
     (if \<not> cdc_ready s then Some (EP_DeviceDisconnected, s) else Endpoint_Write_Stream_LE app cfgok EP_TX Buffer s)"

definition CDC_Device_SendString :: "usb_app \<Rightarrow> (nat \<Rightarrow> bool) \<Rightarrow> u8 list \<Rightarrow> USBSerial \<Rightarrow> (ep_result \<times> USBSerial) option" where
  "CDC_Device_SendString app cfgok String s =
     (if \<not> cdc_ready s then Some (EP_DeviceDisconnected, s)
      else do { n \<leftarrow> strlen_c String; Endpoint_Write_Stream_LE app cfgok EP_TX (take n String) s })"

definition CDC_Device_SendByte :: "u8 \<Rightarrow> USBSerial \<Rightarrow> (ep_result \<times> USBSerial) option" where
  "CDC_Device_SendByte Data s =
     (if \<not> cdc_ready s then Some (EP_DeviceDisconnected, s)
      else if \<not> Endpoint_IsReadWriteAllowed EP_TX s
      then do { (ErrorCode, s1) \<leftarrow> Endpoint_WaitUntilReady EP_TX (Endpoint_ClearIN_ep EP_TX s);
                if ErrorCode \<noteq> EP_NoError then Some (ErrorCode, s1)
                else Some (EP_NoError, Endpoint_Write_8 EP_TX Data s1) }
      else Some (EP_NoError, Endpoint_Write_8 EP_TX Data s))"

definition CDC_Device_BytesReceived :: "USBSerial \<Rightarrow> nat \<times> USBSerial" where
  "CDC_Device_BytesReceived s =
     (if \<not> cdc_ready s then (0, s)
      else if Endpoint_IsOUTReceived EP_RX s
      then (if Endpoint_BytesInEndpoint EP_RX s = 0 then (0, Endpoint_ClearOUT EP_RX s)
            else (Endpoint_BytesInEndpoint EP_RX s, s))
      else (0, s))"

definition CDC_Device_ReceiveByte :: "USBSerial \<Rightarrow> (int \<times> USBSerial) option" where
  "CDC_Device_ReceiveByte s =
     (if \<not> cdc_ready s then Some (-1, s)
      else if Endpoint_IsOUTReceived EP_RX s
      then do { (ReceivedByte, s1) \<leftarrow>
                  (if Endpoint_BytesInEndpoint EP_RX s \<noteq> 0
                   then map_option (\<lambda>(c, s1). (uint c, s1)) (Endpoint_Read_8 EP_RX s) else Some (-1, s));
                Some (ReceivedByte, if Endpoint_BytesInEndpoint EP_RX s1 = 0 then Endpoint_ClearOUT EP_RX s1 else s1) }
      else Some (-1, s))"

text \<open>The notification: the request header, then the line states.\<close>

definition CDC_Device_SendControlLineStateChange :: "usb_app \<Rightarrow> (nat \<Rightarrow> bool) \<Rightarrow> USBSerial \<Rightarrow> USBSerial option" where
  "CDC_Device_SendControlLineStateChange app cfgok s =
     (if \<not> cdc_ready s then Some s
      else do { (_, s1) \<leftarrow> Endpoint_Write_Stream_LE app cfgok EP_NOTIF [0xA1, 0x20, 0, 0, 0, 0, 2, 0] s;
                (_, s2) \<leftarrow> Endpoint_Write_Stream_LE app cfgok EP_NOTIF
                             [ucast (us_DeviceToHost s1), ucast (drop_bit 8 (us_DeviceToHost s1))] s1;
                Some (Endpoint_ClearIN_ep EP_NOTIF s2) })"

section \<open>The class\<close>

definition USBSerial_doTasks :: "usb_app \<Rightarrow> (nat \<Rightarrow> bool) \<Rightarrow> USBSerial \<Rightarrow> USBSerial option" where
  "USBSerial_doTasks app cfgok s = do { s1 \<leftarrow> CDC_Device_USBTask (host_pass s); USB_USBTask app cfgok s1 }"

definition USBSerial_available :: "usb_app \<Rightarrow> (nat \<Rightarrow> bool) \<Rightarrow> USBSerial \<Rightarrow> (nat \<times> USBSerial) option" where
  "USBSerial_available app cfgok s = map_option CDC_Device_BytesReceived (USBSerial_doTasks app cfgok s)"

definition USBSerial_peek :: "usb_app \<Rightarrow> (nat \<Rightarrow> bool) \<Rightarrow> USBSerial \<Rightarrow> (int \<times> USBSerial) option" where
  "USBSerial_peek app cfgok s =
     do { s1 \<leftarrow> USBSerial_doTasks app cfgok s;
          (n, s2) \<leftarrow> USBSerial_available app cfgok s1;
          if n > 0
          then do { (c, s3) \<leftarrow> CDC_Device_ReceiveByte (s2\<lparr>us_didPeek := True\<rparr>); Some (c, s3\<lparr>us_peek := c\<rparr>) }
          else Some (0, s2) }"

text \<open>With nothing to read the function ends without a return statement: the value is \<open>None\<close>.\<close>

definition USBSerial_read :: "usb_app \<Rightarrow> (nat \<Rightarrow> bool) \<Rightarrow> USBSerial \<Rightarrow> (int option \<times> USBSerial) option" where
  "USBSerial_read app cfgok s =
     do { s1 \<leftarrow> USBSerial_doTasks app cfgok s;
          if us_didPeek s1 then Some (Some (us_peek s1), s1\<lparr>us_didPeek := False\<rparr>)
          else if ud_state (us_dev s1) \<noteq> DS_Configured then Some (Some (-1), s1)
          else do { (n, s2) \<leftarrow> USBSerial_available app cfgok s1;
                    if n > 0 then do { (c, s3) \<leftarrow> CDC_Device_ReceiveByte s2; Some (Some c, s3) }
                    else Some (None, s2) } }"

definition USBSerial_write :: "usb_app \<Rightarrow> (nat \<Rightarrow> bool) \<Rightarrow> USBSerial writer" where
  "USBSerial_write app cfgok p_char s =
     do { s1 \<leftarrow> USBSerial_doTasks app cfgok s;
          if ud_state (us_dev s1) \<noteq> DS_Configured then Some (0, s1)
          else do { (ret, s2) \<leftarrow> CDC_Device_SendByte p_char s1;
                    Some (if ret = EP_NoError then 1 else 0, s2) } }"

definition USBSerial_flush :: "usb_app \<Rightarrow> (nat \<Rightarrow> bool) \<Rightarrow> USBSerial \<Rightarrow> USBSerial option" where
  "USBSerial_flush app cfgok s =
     do { s1 \<leftarrow> USBSerial_doTasks app cfgok s; map_option snd (CDC_Device_Flush s1) }"

definition USBSerial_bool :: "usb_app \<Rightarrow> (nat \<Rightarrow> bool) \<Rightarrow> USBSerial \<Rightarrow> (bool \<times> USBSerial) option" where
  "USBSerial_bool app cfgok s = do { s1 \<leftarrow> USB_USBTask app cfgok s; Some (us_lineState s1 \<noteq> 0, s1) }"

section \<open>What the operations keep\<close>

definition usb_out :: "USBSerial \<Rightarrow> u8 list" where
  "usb_out s = concat (bk_done (us_ep s EP_TX)) @ bk_bytes (us_ep s EP_TX)"

definition rx_left :: "USBSerial \<Rightarrow> u8 list" where
  "rx_left s = bk_bytes (us_ep s EP_RX)"

definition rx_delivered :: "USBSerial \<Rightarrow> u8 list" where
  "rx_delivered s = concat (bk_done (us_ep s EP_RX))"

text \<open>No packet is longer than its endpoint, and a receive bank that the host owns is empty.\<close>

definition banks_ok :: "USBSerial \<Rightarrow> bool" where
  "banks_ok s \<longleftrightarrow> length (bk_bytes (us_ep s EP_TX)) \<le> 16 \<and> list_all (\<lambda>p. length p \<le> 16) (bk_done (us_ep s EP_TX)) \<and>
     (\<not> bk_cpu (us_ep s EP_RX) \<longrightarrow> bk_bytes (us_ep s EP_RX) = [])"

text \<open>No control request is pending or will come.\<close>

definition no_control :: "USBSerial \<Rightarrow> bool" where
  "no_control s \<longleftrightarrow> \<not> ud_setup (us_dev s) \<and> (\<forall>t hdr. us_host s t \<noteq> Host_setup hdr)"

text \<open>A transmit bank that the processor owns has been emptied by the host.\<close>

definition fresh :: "USBSerial \<Rightarrow> bool" where
  "fresh s \<longleftrightarrow> (bk_cpu (us_ep s EP_TX) \<longrightarrow> bk_bytes (us_ep s EP_TX) = [])"

text \<open>Nothing is sent or read by the program; the host may have taken and delivered packets.\<close>

definition passes :: "USBSerial \<Rightarrow> USBSerial \<Rightarrow> bool" where
  "passes s s' \<longleftrightarrow> usb_out s' = usb_out s \<and> (banks_ok s \<longrightarrow> banks_ok s') \<and> (no_control s \<longrightarrow> no_control s') \<and>
     us_host s' = us_host s \<and> us_BaudRateBPS s' = us_BaudRateBPS s \<and> us_didPeek s' = us_didPeek s \<and> us_peek s' = us_peek s \<and>
     ud_ep_stalled (us_dev s') = ud_ep_stalled (us_dev s) \<and> (fresh s \<longrightarrow> fresh s') \<and>
     ((\<forall>t p. us_host s t \<noteq> Host_sends p) \<longrightarrow> rx_delivered s' = rx_delivered s) \<and>
     (banks_ok s \<longrightarrow> (\<exists>new. rx_delivered s' = rx_delivered s @ new \<and> rx_left s' = rx_left s @ new))"

named_theorems usb_simps

lemmas usb_field_defs [usb_simps] = fresh_def usb_out_def rx_left_def rx_delivered_def set_ep_def set_state_def
  Endpoint_ClearIN_ep_def Endpoint_ClearOUT_def Endpoint_IsINReady_def Endpoint_IsOUTReceived_def
  Endpoint_IsReadWriteAllowed_def Endpoint_BytesInEndpoint_def

lemma passes_refl [simp]: "passes s s"
  by (simp add: passes_def)

lemma passes_trans: "passes s s1 \<Longrightarrow> passes s1 s2 \<Longrightarrow> passes s s2"
  unfolding passes_def by (elim conjE) (intro conjI impI; (simp; fail)?; force)

lemma passes_step: "(\<forall>hdr. a \<noteq> Host_setup hdr) \<Longrightarrow> us_host s t = a \<Longrightarrow> passes s (host_step a s)"
  by (cases a) (auto simp: passes_def banks_ok_def no_control_def usb_simps Let_def)

lemma passes_time: "passes s (s\<lparr>us_time := t\<rparr>)"
  by (simp add: passes_def banks_ok_def no_control_def usb_simps)

lemma passes_host: "no_control s \<Longrightarrow> passes s (host_pass s)"
  unfolding host_pass_def
  by (rule passes_trans [OF passes_time]) (rule passes_step [where t = "us_time s"], simp_all add: no_control_def)

lemma passes_ClearIN: "e \<noteq> EP_RX \<Longrightarrow> passes s (Endpoint_ClearIN_ep e s)"
  by (cases e) (auto simp: passes_def banks_ok_def no_control_def usb_simps)

lemma host_pass_time: "us_time (host_pass s) = Suc (us_time s)" "us_host (host_pass s) = us_host s"
  by (cases "us_host s (us_time s)"; simp add: host_pass_def usb_simps Let_def)+

lemma host_pass_frame:
  "us_frame (host_pass s) = (if us_host s (us_time s) = Host_frame then next_frame (us_frame s) else us_frame s)"
  by (cases "us_host s (us_time s)") (simp_all add: host_pass_def usb_simps Let_def)

lemma next_frame_neq: "next_frame f \<noteq> f"
proof
  assume eq: "next_frame f = f"
  have "even (next_frame f) \<longleftrightarrow> odd f" by (simp add: next_frame_def even_and_iff)
  then show False using eq by simp
qed

section \<open>Waiting\<close>

definition frames_recur :: "(nat \<Rightarrow> host_action) \<Rightarrow> bool" where
  "frames_recur host \<longleftrightarrow> (\<forall>n. \<exists>k. host (n + k) = Host_frame)"

lemma wait_returns:
  assumes "e \<noteq> EP_RX" "frames_recur (us_host s)" "no_control s"
  shows "\<exists>r s'. WaitUntilReady_loop e rem prev s = Some (r, s') \<and> passes s s' \<and> (r = EP_NoError \<longrightarrow> bk_cpu (us_ep s' e))"
  using assms(2,3)
proof (induction "(unat rem, if us_frame s \<noteq> prev then 0 else Suc (LEAST k. us_host s (us_time s + k) = Host_frame))"
    arbitrary: rem prev s rule: wf_induct_rule [OF wf_lex_prod [OF wf_less wf_less]])
  case (1 rem prev s)
  note unf = WaitUntilReady_loop.simps [of e rem prev s]
  let ?d = "\<lambda>s. LEAST k. us_host s (us_time s + k) = Host_frame"
  have p: "passes s (host_pass s)" using passes_host 1(3) by blast
  then have keep: "frames_recur (us_host (host_pass s))" "no_control (host_pass s)"
    using 1(2,3) by (simp_all add: passes_def)
  have go: "?case" if "WaitUntilReady_loop e rem prev s = WaitUntilReady_loop e rem' prev' (host_pass s)"
    "((unat rem', if us_frame (host_pass s) \<noteq> prev' then 0 else Suc (?d (host_pass s))),
      unat rem, if us_frame s \<noteq> prev then 0 else Suc (?d s)) \<in> {(x, y). x < y} <*lex*> {(x, y). x < y}" for rem' prev'
    using 1(1) [OF that(2) keep] that(1) passes_trans [OF p] by metis
  show ?case
  proof (cases "bk_cpu (us_ep s e) \<or> ud_state (us_dev s) = DS_Unattached \<or> ud_state (us_dev s) = DS_Suspended \<or>
      ud_ep_stalled (us_dev s) (ep_num e)")
    case True
    then show ?thesis unfolding unf using assms(1) by (auto simp: usb_simps)
  next
    case False
    then have unf': "WaitUntilReady_loop e rem prev s =
       (if us_frame s \<noteq> prev then if rem = 0 then Some (EP_Timeout, s) else WaitUntilReady_loop e (rem - 1) (us_frame s) (host_pass s)
        else WaitUntilReady_loop e rem prev (host_pass s))"
      unfolding unf using assms(1) by (simp add: usb_simps)
    show ?thesis
    proof (cases "us_frame s \<noteq> prev")
      case True
      then show ?thesis using unf' go [of "rem - 1" "us_frame s"] unat_dec [of rem] by (cases "rem = 0") auto
    next
      case False
      obtain k where "us_host s (us_time s + k) = Host_frame" using 1(2) by (auto simp: frames_recur_def)
      then have L: "us_host s (us_time s + ?d s) = Host_frame" by (rule LeastI)
      have "us_frame (host_pass s) \<noteq> prev \<or> ?d (host_pass s) < ?d s"
      proof (cases "?d s")
        case 0
        then show ?thesis using L False next_frame_neq [of prev] by (simp add: host_pass_frame)
      next
        case (Suc j)
        then have "us_host (host_pass s) (us_time (host_pass s) + j) = Host_frame" using L by (simp add: host_pass_time)
        then have "?d (host_pass s) \<le> j" by (rule Least_le)
        then show ?thesis using Suc by simp
      qed
      then show ?thesis using unf' False by (intro go [of rem prev]) auto
    qed
  qed
qed

text \<open>A host that polls within every hundred passes, and does nothing that breaks the connection.\<close>

definition attentive :: "(nat \<Rightarrow> host_action) \<Rightarrow> bool" where
  "attentive host \<longleftrightarrow> (\<forall>t. \<exists>k<100. host (t + k) = Host_polls EP_TX) \<and>
     (\<forall>t. host t \<noteq> Host_detach \<and> host t \<noteq> Host_suspend \<and> (\<forall>hdr. host t \<noteq> Host_setup hdr))"

lemma attentive_pass:
  assumes "attentive (us_host s)"
  shows "us_dev (host_pass s) = us_dev s"
  using assms by (cases "us_host s (us_time s)") (auto simp: attentive_def host_pass_def usb_simps Let_def)

lemma wait_attentive:
  assumes "attentive (us_host s)" "ud_state (us_dev s) = DS_Configured" "\<not> ud_ep_stalled (us_dev s) 3" "no_control s"
    and "us_host s (us_time s + k) = Host_polls EP_TX" "k < unat rem"
  shows "\<exists>s'. WaitUntilReady_loop EP_TX rem prev s = Some (EP_NoError, s') \<and> passes s s' \<and> bk_cpu (us_ep s' EP_TX) \<and> us_dev s' = us_dev s"
  using assms
proof (induction k arbitrary: rem prev s)
  case 0
  have "bk_cpu (us_ep (host_pass s) EP_TX)" using 0(5) by (simp add: host_pass_def usb_simps Let_def)
  then have "WaitUntilReady_loop EP_TX r q (host_pass s) = Some (EP_NoError, host_pass s)" for r q
    by (simp add: WaitUntilReady_loop.simps [of _ _ _ "host_pass s"] usb_simps)
  moreover have "rem \<noteq> 0" using 0(6) by auto
  ultimately show ?case
    using 0 passes_host [of s] attentive_pass [of s] \<open>bk_cpu (us_ep (host_pass s) EP_TX)\<close>
    by (cases "bk_cpu (us_ep s EP_TX)") (simp_all add: WaitUntilReady_loop.simps [of _ _ _ s] usb_simps)
next
  case (Suc k)
  let ?h = "host_pass s"
  have h: "attentive (us_host ?h)" "ud_state (us_dev ?h) = DS_Configured" "\<not> ud_ep_stalled (us_dev ?h) 3" "no_control ?h"
    "us_host ?h (us_time ?h + k) = Host_polls EP_TX" "passes s ?h" "us_dev ?h = us_dev s"
    using Suc.prems passes_host [of s] attentive_pass [of s] by (simp_all add: host_pass_time passes_def)
  have nz: "rem \<noteq> 0" using Suc.prems(6) by auto
  then have "k < unat (rem - 1)" "k < unat rem" using Suc.prems(6) unat_dec [of rem] by auto
  show ?case
  proof (cases "bk_cpu (us_ep s EP_TX)")
    case True
    then show ?thesis by (simp add: WaitUntilReady_loop.simps [of _ _ _ s] usb_simps)
  next
    case False
    have "\<exists>rem' prev'. WaitUntilReady_loop EP_TX rem prev s = WaitUntilReady_loop EP_TX rem' prev' ?h \<and> k < unat rem'"
    proof (cases "us_frame s = prev")
      case True
      then have "WaitUntilReady_loop EP_TX rem prev s = WaitUntilReady_loop EP_TX rem prev ?h"
        using False Suc.prems(2,3) by (simp add: WaitUntilReady_loop.simps [of _ _ _ s] usb_simps)
      then show ?thesis using \<open>k < unat rem\<close> by blast
    next
      case False
      then have "WaitUntilReady_loop EP_TX rem prev s = WaitUntilReady_loop EP_TX (rem - 1) (us_frame s) ?h"
        using nz \<open>\<not> bk_cpu (us_ep s EP_TX)\<close> Suc.prems(2,3) by (simp add: WaitUntilReady_loop.simps [of _ _ _ s] usb_simps)
      then show ?thesis using \<open>k < unat (rem - 1)\<close> by blast
    qed
    then obtain rem' prev' where "WaitUntilReady_loop EP_TX rem prev s = WaitUntilReady_loop EP_TX rem' prev' ?h" "k < unat rem'" by blast
    with Suc.IH [OF h(1-5)] show ?thesis using passes_trans [OF h(6)] h(7) by metis
  qed
qed

section \<open>Sending\<close>

lemma passes_keeps:
  assumes "passes s s'"
  shows "frames_recur (us_host s) \<Longrightarrow> frames_recur (us_host s')" "no_control s \<Longrightarrow> no_control s'"
    "banks_ok s \<Longrightarrow> banks_ok s'" "usb_out s' = usb_out s" "us_host s' = us_host s"
  using assms by (simp_all add: passes_def)

lemma wait_fresh:
  assumes "passes (Endpoint_ClearIN_ep EP_TX s) s'" "bk_cpu (us_ep s' EP_TX)"
  shows "Endpoint_IsReadWriteAllowed EP_TX s'"
  using assms by (auto simp: passes_def usb_simps)

lemma ClearIN_wait:
  assumes "frames_recur (us_host s)" "no_control s"
  shows "\<exists>r s'. Endpoint_WaitUntilReady EP_TX (Endpoint_ClearIN_ep EP_TX s) = Some (r, s') \<and> passes s s' \<and>
    (r = EP_NoError \<longrightarrow> Endpoint_IsReadWriteAllowed EP_TX s')"
proof -
  let ?s1 = "Endpoint_ClearIN_ep EP_TX s"
  have p1: "passes s ?s1" by (simp add: passes_ClearIN)
  obtain r s' where r: "Endpoint_WaitUntilReady EP_TX ?s1 = Some (r, s')" "passes ?s1 s'" "r = EP_NoError \<longrightarrow> bk_cpu (us_ep s' EP_TX)"
    using wait_returns [OF _ passes_keeps(1) [OF p1 assms(1)] passes_keeps(2) [OF p1 assms(2)], of EP_TX]
    unfolding Endpoint_WaitUntilReady_def by blast
  then show ?thesis using passes_trans [OF p1 r(2)] wait_fresh [OF r(2)] by blast
qed

lemma flush_returns:
  assumes "frames_recur (us_host s)" "no_control s"
  shows "\<exists>r s'. CDC_Device_Flush s = Some (r, s') \<and> passes s s'"
proof (cases "\<not> cdc_ready s \<or> Endpoint_BytesInEndpoint EP_TX s = 0 \<or> Endpoint_IsReadWriteAllowed EP_TX s")
  case True
  then show ?thesis by (auto simp: CDC_Device_Flush_def passes_ClearIN)
next
  case False
  obtain r s2 where r: "Endpoint_WaitUntilReady EP_TX (Endpoint_ClearIN_ep EP_TX s) = Some (r, s2)" "passes s s2"
    using ClearIN_wait [OF assms] by blast
  then show ?thesis using False passes_trans [OF r(2) passes_ClearIN, of EP_TX]
    by (simp add: CDC_Device_Flush_def Let_def)
qed

lemma doTasks_returns:
  assumes "frames_recur (us_host s)" "no_control s"
  shows "\<exists>s'. USBSerial_doTasks app cfgok s = Some s' \<and> passes s s'"
proof -
  have h: "passes s (host_pass s)" by (rule passes_host [OF assms(2)])
  obtain r s0 where "CDC_Device_Flush (host_pass s) = Some (r, s0)" "passes (host_pass s) s0"
    using flush_returns [OF passes_keeps(1) [OF h assms(1)] passes_keeps(2) [OF h assms(2)]] by blast
  then have "\<exists>s1. CDC_Device_USBTask (host_pass s) = Some s1 \<and> passes (host_pass s) s1"
    by (simp add: CDC_Device_USBTask_def)
  then obtain s1 where s1: "CDC_Device_USBTask (host_pass s) = Some s1" "passes s s1" using passes_trans [OF h] by blast
  then have "\<not> ud_setup (us_dev s1)" using passes_keeps(2) assms(2) by (auto simp: no_control_def)
  then show ?thesis using s1 by (simp add: USBSerial_doTasks_def USB_USBTask_def)
qed

lemma Write_8_sends:
  assumes "Endpoint_IsReadWriteAllowed EP_TX s"
  shows "usb_out (Endpoint_Write_8 EP_TX c s) = usb_out s @ [c]" "banks_ok s \<Longrightarrow> banks_ok (Endpoint_Write_8 EP_TX c s)"
    "no_control s \<Longrightarrow> no_control (Endpoint_Write_8 EP_TX c s)" "us_host (Endpoint_Write_8 EP_TX c s) = us_host s"
    "us_dev (Endpoint_Write_8 EP_TX c s) = us_dev s" "us_BaudRateBPS (Endpoint_Write_8 EP_TX c s) = us_BaudRateBPS s"
  using assms by (auto simp: Endpoint_Write_8_def usb_simps banks_ok_def no_control_def)

definition sent_or_not :: "u8 \<Rightarrow> USBSerial \<Rightarrow> bool \<Rightarrow> USBSerial \<Rightarrow> bool" where
  "sent_or_not c s sent s' \<longleftrightarrow> usb_out s' = usb_out s @ (if sent then [c] else []) \<and>
     (banks_ok s \<longrightarrow> banks_ok s') \<and> (no_control s \<longrightarrow> no_control s') \<and> us_host s' = us_host s"

lemma sent_or_not_pass: "passes s s' \<Longrightarrow> sent_or_not c s False s'"
  by (simp add: passes_def sent_or_not_def)

lemma sent_or_not_Write:
  "passes s s1 \<Longrightarrow> Endpoint_IsReadWriteAllowed EP_TX s1 \<Longrightarrow> sent_or_not c s True (Endpoint_Write_8 EP_TX c s1)"
  using Write_8_sends [of s1 c] by (auto simp: passes_def sent_or_not_def)

lemma SendByte_returns:
  assumes "frames_recur (us_host s)" "no_control s"
  shows "\<exists>r s'. CDC_Device_SendByte c s = Some (r, s') \<and> sent_or_not c s (r = EP_NoError) s'"
proof (cases "cdc_ready s \<and> \<not> Endpoint_IsReadWriteAllowed EP_TX s")
  case True
  obtain r s2 where r: "Endpoint_WaitUntilReady EP_TX (Endpoint_ClearIN_ep EP_TX s) = Some (r, s2)" "passes s s2"
      "r = EP_NoError \<longrightarrow> Endpoint_IsReadWriteAllowed EP_TX s2"
    using ClearIN_wait [OF assms] by blast
  then show ?thesis using True sent_or_not_Write [OF r(2)] sent_or_not_pass [OF r(2)]
    by (cases "r = EP_NoError") (simp_all add: CDC_Device_SendByte_def)
next
  case False
  then show ?thesis
    using sent_or_not_pass [of s s c] sent_or_not_Write [of s s c] by (auto simp: CDC_Device_SendByte_def)
qed


section \<open>Printing to an attentive host\<close>

definition usb_ok :: "USBSerial \<Rightarrow> bool" where
  "usb_ok s \<longleftrightarrow> cdc_ready s \<and> \<not> ud_ep_stalled (us_dev s) 3 \<and> attentive (us_host s) \<and> no_control s"

text \<open>What an operation that sends nothing keeps.\<close>

definition stays :: "USBSerial \<Rightarrow> USBSerial \<Rightarrow> bool" where
  "stays s s' \<longleftrightarrow> passes s s' \<and> us_dev s' = us_dev s"

lemma stays_ok: "stays s s' \<Longrightarrow> usb_ok s \<Longrightarrow> usb_ok s'"
  by (simp add: stays_def usb_ok_def passes_def cdc_ready_def)

lemma stays_trans: "stays s s1 \<Longrightarrow> stays s1 s2 \<Longrightarrow> stays s s2"
  unfolding stays_def using passes_trans by metis

lemma stays_ClearIN: "stays s (Endpoint_ClearIN_ep EP_TX s)"
  by (simp add: stays_def passes_ClearIN) (simp add: usb_simps)

lemma stays_host: "usb_ok s \<Longrightarrow> stays s (host_pass s)"
  by (simp add: stays_def usb_ok_def passes_host attentive_pass)

lemma ClearIN_wait_ok:
  assumes "usb_ok s"
  shows "\<exists>s'. Endpoint_WaitUntilReady EP_TX (Endpoint_ClearIN_ep EP_TX s) = Some (EP_NoError, s') \<and> stays s s' \<and>
    Endpoint_IsReadWriteAllowed EP_TX s'"
proof -
  let ?s1 = "Endpoint_ClearIN_ep EP_TX s"
  have ok: "usb_ok ?s1" by (rule stays_ok [OF stays_ClearIN assms])
  then obtain k where "k < 100" "us_host ?s1 (us_time ?s1 + k) = Host_polls EP_TX"
    unfolding usb_ok_def attentive_def by blast
  then obtain s' where s': "Endpoint_WaitUntilReady EP_TX ?s1 = Some (EP_NoError, s')" "passes ?s1 s'" "bk_cpu (us_ep s' EP_TX)"
      "us_dev s' = us_dev ?s1"
    using wait_attentive [of ?s1 k USB_STREAM_TIMEOUT_MS] ok
    by (auto simp: usb_ok_def cdc_ready_def Endpoint_WaitUntilReady_def USB_STREAM_TIMEOUT_MS_def)
  then have "stays ?s1 s'" by (simp add: stays_def)
  then show ?thesis using s'(1) stays_trans [OF stays_ClearIN] wait_fresh [OF s'(2,3)] by blast
qed

lemma flush_ok:
  assumes "usb_ok s"
  shows "\<exists>s'. CDC_Device_Flush s = Some (EP_NoError, s') \<and> stays s s'"
proof (cases "Endpoint_BytesInEndpoint EP_TX s = 0 \<or> Endpoint_IsReadWriteAllowed EP_TX s")
  case True
  then show ?thesis using assms stays_ClearIN by (auto simp: CDC_Device_Flush_def usb_ok_def stays_def)
next
  case False
  obtain s2 where "Endpoint_WaitUntilReady EP_TX (Endpoint_ClearIN_ep EP_TX s) = Some (EP_NoError, s2)" "stays s s2"
    using ClearIN_wait_ok [OF assms] by blast
  then show ?thesis using False assms stays_trans [OF _ stays_ClearIN] by (simp add: CDC_Device_Flush_def Let_def usb_ok_def)
qed

lemma doTasks_ok:
  assumes "usb_ok s"
  shows "\<exists>s'. USBSerial_doTasks app cfgok s = Some s' \<and> stays s s'"
proof -
  have h: "stays s (host_pass s)" by (rule stays_host [OF assms])
  then have "\<exists>s1. CDC_Device_USBTask (host_pass s) = Some s1 \<and> stays (host_pass s) s1"
    using flush_ok [OF stays_ok [OF h assms]] by (auto simp: CDC_Device_USBTask_def stays_def)
  then obtain s1 where s1: "CDC_Device_USBTask (host_pass s) = Some s1" "stays s s1" using stays_trans [OF h] by blast
  then have "\<not> ud_setup (us_dev s1)" using stays_ok assms by (auto simp: usb_ok_def no_control_def)
  then show ?thesis using s1 by (simp add: USBSerial_doTasks_def USB_USBTask_def)
qed

lemma SendByte_ok:
  assumes "usb_ok s"
  shows "\<exists>s'. CDC_Device_SendByte c s = Some (EP_NoError, Endpoint_Write_8 EP_TX c s') \<and> stays s s' \<and> Endpoint_IsReadWriteAllowed EP_TX s'"
proof (cases "Endpoint_IsReadWriteAllowed EP_TX s")
  case True
  then show ?thesis using assms by (intro exI [of _ s]) (simp add: CDC_Device_SendByte_def usb_ok_def stays_def)
next
  case False
  then show ?thesis using ClearIN_wait_ok [OF assms] assms by (auto simp: CDC_Device_SendByte_def usb_ok_def)
qed

lemma usb_write_ok:
  assumes "usb_ok s"
  shows "\<exists>s'. USBSerial_write app cfgok c s = Some (1, s') \<and> usb_ok s' \<and> usb_out s' = usb_out s @ [c]"
proof -
  obtain s1 where s1: "USBSerial_doTasks app cfgok s = Some s1" "stays s s1" using doTasks_ok [OF assms] by blast
  obtain s2 where s2: "CDC_Device_SendByte c s1 = Some (EP_NoError, Endpoint_Write_8 EP_TX c s2)" "stays s1 s2"
      "Endpoint_IsReadWriteAllowed EP_TX s2"
    using SendByte_ok [OF stays_ok [OF s1(2) assms]] by blast
  have ok: "usb_ok s1" "usb_ok s2" using stays_ok s1(2) s2(2) assms by blast+
  have "usb_out s2 = usb_out s" using s1(2) s2(2) by (simp add: stays_def passes_def)
  then show ?thesis using s1(1) s2 ok Write_8_sends [OF s2(3), of c]
    by (auto simp: USBSerial_write_def usb_ok_def cdc_ready_def)
qed

interpretation usb_print: byte_sink "USBSerial_write app cfgok" usb_ok usb_out
  by standard (simp add: emits_def usb_write_ok)

definition usb_ex :: "(nat \<Rightarrow> host_action) \<Rightarrow> USBSerial" where
  "usb_ex host = \<lparr>us_dev = dev0\<lparr>ud_setup := False, ud_state := DS_Configured\<rparr>, us_hdr = [], us_ep = \<lambda>e. \<lparr>bk_bytes = [], bk_cpu = (e \<noteq> EP_RX), bk_done = []\<rparr>,
     us_frame = 0, us_host = host, us_time = 0, us_BaudRateBPS = 115200, us_CharFormat = 0, us_ParityType = 0, us_DataBits = 8,
     us_HostToDevice = 1, us_DeviceToHost = 0, us_lineState = 1, us_didPeek = False, us_peek = 0\<rparr>"


lemma usb_ex_ok:
  "attentive host \<Longrightarrow> usb_ok (usb_ex host)" "banks_ok (usb_ex host)"
  "(\<forall>t hdr. host t \<noteq> Host_setup hdr) \<Longrightarrow> no_control (usb_ex host)" "usb_out (usb_ex host) = []" "us_host (usb_ex host) = host"
  by (auto simp: usb_ok_def usb_ex_def dev0_def cdc_ready_def no_control_def attentive_def banks_ok_def usb_simps)

definition host_polls_odd :: "nat \<Rightarrow> host_action" where
  "host_polls_odd t = (if odd t then Host_polls EP_TX else Host_frame)"

lemma host_polls_odd_ok: "attentive host_polls_odd" "frames_recur host_polls_odd" "\<forall>t hdr. host_polls_odd t \<noteq> Host_setup hdr"
proof -
  have "\<exists>k<100. odd (t + k)" for t :: nat by (cases "odd t") (auto intro: exI [of _ 0] exI [of _ 1])
  then show "attentive host_polls_odd" by (auto simp: attentive_def host_polls_odd_def)
  have "\<exists>k. even (t + k)" for t :: nat by (cases "odd t") (auto intro: exI [of _ 0] exI [of _ 1])
  then show "frames_recur host_polls_odd" by (auto simp: frames_recur_def host_polls_odd_def)
qed (simp add: host_polls_odd_def)



section \<open>Receiving\<close>

lemma passes_ClearOUT: "bk_bytes (us_ep s EP_RX) = [] \<Longrightarrow> passes s (Endpoint_ClearOUT EP_RX s)"
  by (auto simp: passes_def banks_ok_def no_control_def usb_simps)

lemma BytesReceived_passes:
  assumes "CDC_Device_BytesReceived s = (n, s')"
  shows "passes s s' \<and> us_dev s' = us_dev s \<and>
    (0 < n \<longrightarrow> cdc_ready s' \<and> bk_cpu (us_ep s' EP_RX) \<and> rx_left s' \<noteq> []) \<and>
    (n = 0 \<longrightarrow> banks_ok s' \<longrightarrow> cdc_ready s' \<longrightarrow> rx_left s' = [])"
  using assms passes_ClearOUT [of s]
  by (auto simp: CDC_Device_BytesReceived_def Endpoint_BytesInEndpoint_def Endpoint_IsOUTReceived_def rx_left_def
      banks_ok_def Endpoint_ClearOUT_def set_ep_def split: if_splits)

text \<open>The next byte is taken; nothing else changes.\<close>

definition takes :: "u8 \<Rightarrow> USBSerial \<Rightarrow> USBSerial \<Rightarrow> bool" where
  "takes b s s' \<longleftrightarrow> rx_left s = b # rx_left s' \<and> rx_delivered s' = rx_delivered s \<and> usb_out s' = usb_out s \<and>
     (banks_ok s \<longrightarrow> banks_ok s') \<and> (no_control s \<longrightarrow> no_control s') \<and> us_host s' = us_host s \<and> us_dev s' = us_dev s \<and>
     us_BaudRateBPS s' = us_BaudRateBPS s \<and> us_didPeek s' = us_didPeek s \<and> us_peek s' = us_peek s"

lemma ReceiveByte_takes:
  assumes "cdc_ready s" "bk_cpu (us_ep s EP_RX)" "rx_left s \<noteq> []"
  shows "\<exists>b s'. CDC_Device_ReceiveByte s = Some (uint b, s') \<and> takes b s s'"
proof -
  obtain b bs where b: "bk_bytes (us_ep s EP_RX) = b # bs" using assms(3) by (auto simp: rx_left_def neq_Nil_conv)
  define s1 where "s1 = set_ep EP_RX ((us_ep s EP_RX)\<lparr>bk_bytes := bs\<rparr>) s"
  define s2 where "s2 = (if bs = [] then Endpoint_ClearOUT EP_RX s1 else s1)"
  have "CDC_Device_ReceiveByte s = Some (uint b, s2)"
    using assms b by (simp add: CDC_Device_ReceiveByte_def Endpoint_Read_8_def s2_def s1_def usb_simps)
  moreover have "takes b s s2"
    using assms(2) b by (simp add: takes_def s2_def s1_def banks_ok_def no_control_def usb_simps)
  ultimately show ?thesis by blast
qed

lemma available_returns:
  assumes "frames_recur (us_host s)" "no_control s"
  shows "\<exists>n s'. USBSerial_available app cfgok s = Some (n, s') \<and> passes s s' \<and>
    (0 < n \<longrightarrow> cdc_ready s' \<and> bk_cpu (us_ep s' EP_RX) \<and> rx_left s' \<noteq> []) \<and>
    (n = 0 \<longrightarrow> banks_ok s' \<longrightarrow> cdc_ready s' \<longrightarrow> rx_left s' = [])"
proof -
  obtain s1 where s1: "USBSerial_doTasks app cfgok s = Some s1" "passes s s1" using doTasks_returns [OF assms] by blast
  obtain n s2 where s2: "CDC_Device_BytesReceived s1 = (n, s2)" by (cases "CDC_Device_BytesReceived s1")
  note B = BytesReceived_passes [OF s2]
  then have "passes s s2" using passes_trans [OF s1(2)] by blast
  then show ?thesis using s1(1) s2 B by (auto simp: USBSerial_available_def)
qed

text \<open>
  C29: Reading the USB serial port without peeking delivers the bytes of the host in order: the value is
  the next byte that has been delivered and not yet read, whatever packets arrive meanwhile and however
  they are split; with no such byte there is no defined value, or -1 when the device is not configured.
\<close>

theorem usb_read_in_order:
  assumes "frames_recur (us_host s)" "no_control s" "banks_ok s" "\<not> us_didPeek s"
  shows "\<exists>v s' new. USBSerial_read app cfgok s = Some (v, s') \<and> rx_delivered s' = rx_delivered s @ new \<and>
    banks_ok s' \<and> \<not> us_didPeek s' \<and> usb_out s' = usb_out s \<and>
    ((\<exists>b. v = Some (uint b) \<and> rx_left s @ new = b # rx_left s') \<or>
     v = None \<and> rx_left s' = rx_left s @ new \<and> (cdc_ready s' \<longrightarrow> rx_left s' = []) \<or>
     v = Some (-1) \<and> rx_left s' = rx_left s @ new \<and> ud_state (us_dev s') \<noteq> DS_Configured)"
proof -
  obtain s1 where s1: "USBSerial_doTasks app cfgok s = Some s1" "passes s s1" using doTasks_returns [OF assms(1,2)] by blast
  note k = passes_keeps [OF s1(2)]
  have noPeek: "\<not> us_didPeek s1" using s1(2) assms(4) by (simp add: passes_def)
  obtain n s2 where s2: "USBSerial_available app cfgok s1 = Some (n, s2)" "passes s1 s2"
      "0 < n \<longrightarrow> cdc_ready s2 \<and> bk_cpu (us_ep s2 EP_RX) \<and> rx_left s2 \<noteq> []"
      "n = 0 \<longrightarrow> banks_ok s2 \<longrightarrow> cdc_ready s2 \<longrightarrow> rx_left s2 = []"
    using available_returns [OF k(1) [OF assms(1)] k(2) [OF assms(2)]] by blast
  have p2: "passes s s2" by (rule passes_trans [OF s1(2) s2(2)])
  have via: "\<exists>new. rx_delivered t = rx_delivered s @ new \<and> rx_left t = rx_left s @ new \<and> banks_ok t \<and> \<not> us_didPeek t \<and>
      usb_out t = usb_out s" if "passes s t" for t
    using that assms(3,4) by (auto simp: passes_def)
  consider "ud_state (us_dev s1) \<noteq> DS_Configured" | "ud_state (us_dev s1) = DS_Configured" "n = 0"
    | "ud_state (us_dev s1) = DS_Configured" "0 < n" by blast
  then show ?thesis
  proof cases
    case 1
    then show ?thesis using via [OF s1(2)] s1(1) noPeek by (auto simp: USBSerial_read_def)
  next
    case 2
    then show ?thesis using via [OF p2] s1(1) s2(1,4) noPeek by (auto simp: USBSerial_read_def)
  next
    case 3
    then obtain b s3 where b: "CDC_Device_ReceiveByte s2 = Some (uint b, s3)" "takes b s2 s3"
      using ReceiveByte_takes [of s2] s2(3) by blast
    then have "USBSerial_read app cfgok s = Some (Some (uint b), s3)"
      using 3 s1(1) s2(1) noPeek by (simp add: USBSerial_read_def)
    moreover obtain new where "rx_delivered s2 = rx_delivered s @ new" "rx_left s2 = rx_left s @ new" "banks_ok s2"
        "\<not> us_didPeek s2" "usb_out s2 = usb_out s"
      using via [OF p2] by blast
    ultimately show ?thesis using b(2)
      by (intro exI [of _ "Some (uint b)"] exI [of _ s3] exI [of _ new] conjI disjI1 exI [of _ b]) (simp_all add: takes_def)
  qed
qed

theorem usb_read_in_order_witness:
  "\<exists>v s' new. USBSerial_read (plain_app (\<lambda>_ _. None)) (\<lambda>_. True) (usb_ex host_polls_odd) = Some (v, s') \<and>
    rx_delivered s' = rx_delivered (usb_ex host_polls_odd) @ new"
  using usb_read_in_order [of "usb_ex host_polls_odd"] usb_ex_ok [of host_polls_odd] host_polls_odd_ok
  by (fastforce simp: usb_ex_def)

lemma available_ok:
  assumes "usb_ok s" "banks_ok s" "rx_left s = x # xs" "bk_cpu (us_ep s EP_RX)"
  shows "\<exists>n s' new. USBSerial_available app cfgok s = Some (n, s') \<and> 0 < n \<and> stays s s' \<and> rx_left s' = x # xs @ new \<and>
    bk_cpu (us_ep s' EP_RX)"
proof -
  obtain s1 where s1: "USBSerial_doTasks app cfgok s = Some s1" "stays s s1" using doTasks_ok [OF assms(1)] by blast
  then obtain new where new: "rx_left s1 = x # xs @ new" "banks_ok s1" using assms(2,3) by (auto simp: stays_def passes_def)
  then have "bk_cpu (us_ep s1 EP_RX)" by (auto simp: banks_ok_def rx_left_def)
  then show ?thesis using s1 new stays_ok [OF s1(2) assms(1)]
    by (auto simp: USBSerial_available_def CDC_Device_BytesReceived_def usb_ok_def Endpoint_IsOUTReceived_def Endpoint_BytesInEndpoint_def rx_left_def)
qed

lemma peek_takes:
  assumes "usb_ok s" "banks_ok s" "rx_left s = x # xs"
  shows "\<exists>s' new. USBSerial_peek app cfgok s = Some (uint x, s') \<and> usb_ok s' \<and> banks_ok s' \<and> rx_left s' = xs @ new \<and>
    us_didPeek s' \<and> us_peek s' = uint x"
proof -
  obtain s1 where s1: "USBSerial_doTasks app cfgok s = Some s1" "stays s s1" using doTasks_ok [OF assms(1)] by blast
  then obtain u where u: "rx_left s1 = x # xs @ u" "banks_ok s1" using assms(2,3) by (auto simp: stays_def passes_def)
  then have "bk_cpu (us_ep s1 EP_RX)" by (auto simp: banks_ok_def rx_left_def)
  then obtain n s2 v where s2: "USBSerial_available app cfgok s1 = Some (n, s2)" "0 < n" "stays s1 s2"
      "rx_left s2 = x # (xs @ u) @ v" "bk_cpu (us_ep s2 EP_RX)"
    using available_ok [OF stays_ok [OF s1(2) assms(1)] u(2,1)] by blast
  let ?s2 = "s2\<lparr>us_didPeek := True\<rparr>"
  have ok2: "usb_ok s2" "banks_ok s2"
    using stays_ok s1(2) s2(3) assms(1) u(2) by (blast, simp add: stays_def passes_def)
  then obtain b s3 where b: "CDC_Device_ReceiveByte ?s2 = Some (uint b, s3)" "takes b ?s2 s3"
    using ReceiveByte_takes [of ?s2] s2(4,5) by (auto simp: usb_ok_def cdc_ready_def rx_left_def)
  have "b = x" "rx_left s3 = (xs @ u) @ v" "us_didPeek s3" "banks_ok s3" "usb_ok s3"
    using b(2) s2(4) ok2 by (auto simp: takes_def rx_left_def banks_ok_def usb_ok_def cdc_ready_def no_control_def)
  moreover have "USBSerial_peek app cfgok s = Some (uint x, s3\<lparr>us_peek := uint x\<rparr>)"
    using s1(1) s2(1,2) b(1) \<open>b = x\<close> by (simp add: USBSerial_peek_def)
  ultimately show ?thesis
    by (intro exI [of _ "s3\<lparr>us_peek := uint x\<rparr>"] exI [of _ "u @ v"])
      (simp add: rx_left_def banks_ok_def usb_ok_def cdc_ready_def no_control_def)
qed

text \<open>
  Peeking twice loses a byte.  With two bytes waiting the first \<open>peek\<close> returns the first and takes it
  from the endpoint; the second \<open>peek\<close> returns the second byte instead of the first again, and the \<open>read\<close>
  after it returns the second as well: the first byte is never read.
\<close>

theorem usb_peek_twice_drops:
  assumes "usb_ok s" "banks_ok s" "rx_left s = x # y # zs"
  shows "\<exists>s1 s2 s3. USBSerial_peek app cfgok s = Some (uint x, s1) \<and> USBSerial_peek app cfgok s1 = Some (uint y, s2) \<and>
    USBSerial_read app cfgok s2 = Some (Some (uint y), s3) \<and> (\<exists>new. rx_left s3 = zs @ new)"
proof -
  obtain s1 u where s1: "USBSerial_peek app cfgok s = Some (uint x, s1)" "usb_ok s1" "banks_ok s1" "rx_left s1 = y # zs @ u"
    using peek_takes [OF assms] by fastforce
  obtain s2 v where s2: "USBSerial_peek app cfgok s1 = Some (uint y, s2)" "usb_ok s2" "banks_ok s2" "rx_left s2 = zs @ u @ v"
      "us_didPeek s2" "us_peek s2 = uint y"
    using peek_takes [OF s1(2-4)] by fastforce
  obtain s3 where s3: "USBSerial_doTasks app cfgok s2 = Some s3" "stays s2 s3" using doTasks_ok [OF s2(2)] by blast
  then have "us_didPeek s3" "us_peek s3 = uint y" "\<exists>w. rx_left s3 = zs @ u @ v @ w"
    using s2(3-6) by (auto simp: stays_def passes_def)
  then have "USBSerial_read app cfgok s2 = Some (Some (uint y), s3\<lparr>us_didPeek := False\<rparr>)" "\<exists>new. rx_left (s3\<lparr>us_didPeek := False\<rparr>) = zs @ new"
    using s3(1) by (auto simp: USBSerial_read_def rx_left_def)
  then show ?thesis using s1(1) s2(1) by blast
qed

theorem usb_peek_twice_drops_witness:
  "\<exists>s1 s2 s3. USBSerial_peek (plain_app (\<lambda>_ _. None)) (\<lambda>_. True)
      (set_ep EP_RX \<lparr>bk_bytes = [65, 66], bk_cpu = True, bk_done = [[65, 66]]\<rparr> (usb_ex host_polls_odd)) = Some (65, s1) \<and>
    USBSerial_peek (plain_app (\<lambda>_ _. None)) (\<lambda>_. True) s1 = Some (66, s2) \<and>
    USBSerial_read (plain_app (\<lambda>_ _. None)) (\<lambda>_. True) s2 = Some (Some 66, s3)"
proof -
  let ?s = "set_ep EP_RX \<lparr>bk_bytes = [65, 66], bk_cpu = True, bk_done = [[65, 66]]\<rparr> (usb_ex host_polls_odd)"
  have "usb_ok ?s" "banks_ok ?s" "rx_left ?s = 65 # 66 # []"
    using usb_ex_ok(1) [OF host_polls_odd_ok(1)]
    by (auto simp: usb_ok_def cdc_ready_def no_control_def banks_ok_def usb_simps usb_ex_def)
  from usb_peek_twice_drops [OF this, of "plain_app (\<lambda>_ _. None)" "\<lambda>_. True"] show ?thesis by auto
qed

section \<open>Streams\<close>

lemma Write_8_ok: "usb_ok s \<Longrightarrow> usb_ok (Endpoint_Write_8 EP_TX c s)"
  by (auto simp: Endpoint_Write_8_def usb_ok_def cdc_ready_def no_control_def usb_simps)

lemma Write_Stream_sends:
  "usb_ok s \<Longrightarrow> \<exists>s'. Write_Stream_loop app cfgok EP_TX Buffer s = Some (EP_NoError, s') \<and> usb_ok s' \<and> usb_out s' = usb_out s @ Buffer"
proof (induction Buffer arbitrary: s)
  case Nil
  then show ?case by (simp add: Write_Stream_loop.simps)
next
  case (Cons c cs)
  have go: ?case if t: "Write_Stream_loop app cfgok EP_TX (c # cs) s = Write_Stream_loop app cfgok EP_TX (c # cs) t"
    "usb_ok t" "usb_out t = usb_out s" "Endpoint_IsReadWriteAllowed EP_TX t" for t
    using t Cons.IH [OF Write_8_ok [OF t(2)], of c] Write_8_sends(1) [OF t(4), of c]
    by (simp add: Write_Stream_loop.simps [of _ _ _ "c # cs" t])
  show ?case
  proof (cases "Endpoint_IsReadWriteAllowed EP_TX s")
    case True
    then show ?thesis using go [of s] Cons.prems by blast
  next
    case False
    obtain t where t: "Endpoint_WaitUntilReady EP_TX (Endpoint_ClearIN_ep EP_TX s) = Some (EP_NoError, t)" "stays s t"
        "Endpoint_IsReadWriteAllowed EP_TX t"
      using ClearIN_wait_ok [OF Cons.prems] by blast
    have "\<not> ud_setup (us_dev (Endpoint_ClearIN_ep EP_TX s))" using Cons.prems by (simp add: usb_ok_def no_control_def usb_simps)
    then have "Write_Stream_loop app cfgok EP_TX (c # cs) s = Write_Stream_loop app cfgok EP_TX (c # cs) t"
      using False t(1) by (simp add: Write_Stream_loop.simps [of _ _ _ "c # cs" s] USB_USBTask_def)
    then show ?thesis using go [of t] t(2,3) stays_ok [OF t(2) Cons.prems] by (simp add: stays_def passes_def)
  qed
qed



section \<open>Opening the port\<close>

definition request :: "u8 list \<Rightarrow> ep_event list \<Rightarrow> USBSerial \<Rightarrow> USBSerial" where
  "request hdr evs s = s\<lparr>us_dev := (us_dev s)\<lparr>ud_setup := True, ud_evs := evs\<rparr>, us_hdr := hdr\<rparr>"

fun serial_requests :: "usb_app \<Rightarrow> (nat \<Rightarrow> bool) \<Rightarrow> (u8 list \<times> ep_event list) list \<Rightarrow> USBSerial \<Rightarrow> USBSerial option" where
  "serial_requests app cfgok [] s = Some s"
| "serial_requests app cfgok ((hdr, evs) # rs) s =
     do { s1 \<leftarrow> USB_USBTask app cfgok (request hdr evs s); serial_requests app cfgok rs s1 }"

lemma le32_roundtrip: "le32 (of_le32 b0 b1 b2 b3) = [b0, b1, b2, b3]"
proof -
  have "\<not> bit b (8 + n)" "\<not> bit b (16 + n)" "\<not> bit b (24 + n)" for b :: u8 and n
    using bit_imp_le_length [of b "8 + n"] bit_imp_le_length [of b "16 + n"] bit_imp_le_length [of b "24 + n"] by auto
  then show ?thesis
    by (auto simp: le32_def of_le32_def bit_simps intro!: bit_word_eqI)
qed

lemma configured_dev:
  "ud_state (us_dev (EVENT_ConfigurationChanged_serial cfgok s)) = ud_state (us_dev s)"
  "ud_setup (us_dev (EVENT_ConfigurationChanged_serial cfgok s)) = ud_setup (us_dev s)"
  "us_BaudRateBPS (EVENT_ConfigurationChanged_serial cfgok s) = 0"
  "us_host (EVENT_ConfigurationChanged_serial cfgok s) = us_host s"
  by (simp_all add: EVENT_ConfigurationChanged_serial_def CDC_Device_ConfigureEndpoints_def configure_ep_def set_ep_def Let_def)

lemma SetConfiguration_serial:
  assumes "ud_state (us_dev s) \<noteq> DS_Unattached" "app_GetDescriptor app 0x100 0 = Some desc" "17 < length desc" "c \<le> desc ! 17" "c \<noteq> 0"
  shows "\<exists>s1. serial_requests app cfgok [([0, 9, c, 0, 0, 0, 0, 0], [Ev_InReady])] s = Some s1 \<and>
    ud_state (us_dev s1) = DS_Configured \<and> us_BaudRateBPS s1 = 0 \<and> us_host s1 = us_host s \<and> \<not> ud_setup (us_dev s1)"
  using assms
  by (simp add: USB_USBTask_def ProcessControlRequest_serial_def request_def CDC_Device_ProcessControlRequest_def
      standard_request_def USB_Device_SetConfiguration_def arr_get_def status_defs configured_dev not_less [symmetric])

lemma no_request_ready:
  assumes "us_BaudRateBPS s = 0" "\<not> ud_setup (us_dev s)" "\<forall>t hdr. us_host s t \<noteq> Host_setup hdr"
  shows "\<exists>s'. USBSerial_write app cfgok x s = Some (0, s') \<and> usb_out s' = usb_out s"
proof -
  have p: "passes s (host_pass s)" using assms(2,3) by (simp add: passes_host no_control_def)
  then have "us_BaudRateBPS (host_pass s) = 0" "\<not> ud_setup (us_dev (host_pass s))" "usb_out (host_pass s) = usb_out s"
    using assms by (auto simp: passes_def no_control_def)
  then show ?thesis
    by (simp add: USBSerial_write_def USBSerial_doTasks_def CDC_Device_USBTask_def cdc_ready_def USB_USBTask_def CDC_Device_SendByte_def)
qed

lemma line_requests_serial:
  assumes "ud_state (us_dev s) = DS_Configured"
  shows "\<exists>s'. serial_requests app cfgok
      [([0x21, 0x20, 0, 0, 0, 0, 7, 0], [Ev_Out [b0, b1, b2, b3, format, parity, bits], Ev_InReady]),
       ([0xA1, 0x21, 0, 0, 0, 0, 7, 0], [Ev_InReady, Ev_Out []]),
       ([0x21, 0x22, v0, 0, 0, 0, 0, 0], [Ev_InReady])] s = Some s' \<and>
    ud_sent (us_dev s') = ud_sent (us_dev s) @ [[], [b0, b1, b2, b3, format, parity, bits], []] \<and>
    ud_state (us_dev s') = DS_Configured \<and> us_BaudRateBPS s' = of_le32 b0 b1 b2 b3 \<and> us_lineState s' = v0 AND 1"
proof -
  have v: "(ucast (ucast v0 AND 1 :: u16) :: u8) = v0 AND 1" by (rule bit_word_eqI) (auto simp: bit_simps)
  show ?thesis using assms
    by (simp add: USB_USBTask_def ProcessControlRequest_serial_def request_def CDC_Device_ProcessControlRequest_def
        status_defs le32_roundtrip EVENT_CDC_Device_ControLineStateChanged_def v)
qed

text \<open>
  C30: Opening the port.  The host selects the configuration; from then on the device is configured but the
  port refuses data, \<open>write\<close> returns 0 and sends nothing, until a line encoding is set.  The encoding that
  the host sets is the one it reads back, byte for byte; the port accepts data exactly if its baud rate is
  not zero, and the line state that the program tests is the DTR bit of the host.
\<close>

theorem usb_serial_opens:
  assumes "ud_state (us_dev s) \<noteq> DS_Unattached" "app_GetDescriptor app 0x100 0 = Some desc" "17 < length desc"
    and "c \<le> desc ! 17" "c \<noteq> 0" "\<forall>t hdr. us_host s t \<noteq> Host_setup hdr"
  shows "\<exists>s1 s1' s2. serial_requests app cfgok [([0, 9, c, 0, 0, 0, 0, 0], [Ev_InReady])] s = Some s1 \<and>
    ud_state (us_dev s1) = DS_Configured \<and>
    USBSerial_write app cfgok x s1 = Some (0, s1') \<and> usb_out s1' = usb_out s1 \<and>
    serial_requests app cfgok
      [([0x21, 0x20, 0, 0, 0, 0, 7, 0], [Ev_Out [b0, b1, b2, b3, format, parity, bits], Ev_InReady]),
       ([0xA1, 0x21, 0, 0, 0, 0, 7, 0], [Ev_InReady, Ev_Out []]),
       ([0x21, 0x22, v0, 0, 0, 0, 0, 0], [Ev_InReady])] s1 = Some s2 \<and>
    ud_sent (us_dev s2) = ud_sent (us_dev s1) @ [[], [b0, b1, b2, b3, format, parity, bits], []] \<and>
    (cdc_ready s2 \<longleftrightarrow> of_le32 b0 b1 b2 b3 \<noteq> 0) \<and> us_lineState s2 = v0 AND 1"
proof -
  obtain s1 where s1: "serial_requests app cfgok [([0, 9, c, 0, 0, 0, 0, 0], [Ev_InReady])] s = Some s1"
      "ud_state (us_dev s1) = DS_Configured" "us_BaudRateBPS s1 = 0" "us_host s1 = us_host s" "\<not> ud_setup (us_dev s1)"
    using SetConfiguration_serial [OF assms(1-5)] by blast
  obtain s1' where "USBSerial_write app cfgok x s1 = Some (0, s1')" "usb_out s1' = usb_out s1"
    using no_request_ready [OF s1(3,5), of app cfgok x] s1(4) assms(6) by auto
  with s1(1,2) line_requests_serial [OF s1(2), of app cfgok b0 b1 b2 b3 format parity bits v0] show ?thesis
    by (fastforce simp: cdc_ready_def)
qed

theorem usb_serial_opens_witness:
  "\<exists>s1 s2. serial_requests (plain_app (\<lambda>v _. USBSerial_GetDescriptor v)) (\<lambda>_. True) [([0, 9, 1, 0, 0, 0, 0, 0], [Ev_InReady])]
      (usb_ex (\<lambda>_. Host_frame)) = Some s1 \<and>
    serial_requests (plain_app (\<lambda>v _. USBSerial_GetDescriptor v)) (\<lambda>_. True)
      [([0x21, 0x20, 0, 0, 0, 0, 7, 0], [Ev_Out [0x80, 0x25, 0, 0, 0, 0, 8], Ev_InReady]),
       ([0xA1, 0x21, 0, 0, 0, 0, 7, 0], [Ev_InReady, Ev_Out []]),
       ([0x21, 0x22, 3, 0, 0, 0, 0, 0], [Ev_InReady])] s1 = Some s2 \<and>
    ud_sent (us_dev s2) = ud_sent (us_dev s1) @ [[], [0x80, 0x25, 0, 0, 0, 0, 8], []] \<and> us_lineState s2 = 3 AND 1"
proof -
  let ?app = "plain_app (\<lambda>v _. USBSerial_GetDescriptor v)"
  have "\<exists>desc. app_GetDescriptor ?app 0x100 0 = Some desc \<and> 17 < length desc \<and> 1 \<le> desc ! 17"
  proof -
    have "(case app_GetDescriptor ?app 0x100 0 of None \<Rightarrow> False | Some desc \<Rightarrow> 17 < length desc \<and> 1 \<le> desc ! 17)" by code_simp
    then show ?thesis by (auto split: option.splits)
  qed
  then obtain desc where "app_GetDescriptor ?app 0x100 0 = Some desc" "17 < length desc" "1 \<le> desc ! 17" by blast
  from usb_serial_opens [OF _ this, of "usb_ex (\<lambda>_. Host_frame)" "\<lambda>_. True" 0 "0x80" "0x25" 0 0 0 0 8 3]
  show ?thesis by (simp add: usb_ex_def dev0_def) blast
qed

section \<open>Parsing without input\<close>

text \<open>
  The port as a source of \<open>Stream\<close>.  A \<open>read\<close> that ends without a return statement gives some \<open>garbage\<close>.
\<close>

definition usb_source :: "usb_app \<Rightarrow> (nat \<Rightarrow> bool) \<Rightarrow> int \<Rightarrow> (USBSerial \<Rightarrow> u32) \<Rightarrow> USBSerial source" where
  "usb_source app cfgok garbage clock =
     \<lparr>src_read = (\<lambda>s. case USBSerial_read app cfgok s of
                       Some (v, s') \<Rightarrow> (case v of Some c \<Rightarrow> c | None \<Rightarrow> garbage, s') | None \<Rightarrow> (-1, s)),
      src_peek = (\<lambda>s. case USBSerial_peek app cfgok s of Some r \<Rightarrow> r | None \<Rightarrow> (-1, s)),
      src_millis = (\<lambda>s. (clock s, s))\<rparr>"

definition idle :: "USBSerial \<Rightarrow> bool" where
  "idle s \<longleftrightarrow> frames_recur (us_host s) \<and> no_control s \<and> banks_ok s \<and> rx_left s = [] \<and> \<not> us_didPeek s \<and>
     (\<forall>t p. us_host s t \<noteq> Host_sends p)"

lemma idle_passes: "passes s s' \<Longrightarrow> idle s \<Longrightarrow> idle s'"
  unfolding passes_def idle_def by auto

lemma idle_available:
  assumes "idle s"
  shows "\<exists>s'. USBSerial_available app cfgok s = Some (0, s') \<and> idle s'"
proof -
  obtain n s' where s': "USBSerial_available app cfgok s = Some (n, s')" "passes s s'" "0 < n \<longrightarrow> rx_left s' \<noteq> []"
    using available_returns [of s] assms unfolding idle_def by blast
  then have "idle s'" using idle_passes assms by blast
  then show ?thesis using s'(1,3) by (auto simp: idle_def)
qed

lemma idle_doTasks:
  assumes "idle s"
  shows "\<exists>s'. USBSerial_doTasks app cfgok s = Some s' \<and> idle s'"
  using doTasks_returns [of s] idle_passes assms unfolding idle_def by blast

lemma idle_peek:
  assumes "idle s"
  shows "\<exists>s'. USBSerial_peek app cfgok s = Some (0, s') \<and> idle s'"
proof -
  obtain s1 where s1: "USBSerial_doTasks app cfgok s = Some s1" "idle s1" using idle_doTasks [OF assms] by blast
  obtain s2 where "USBSerial_available app cfgok s1 = Some (0, s2)" "idle s2" using idle_available [OF s1(2)] by blast
  then show ?thesis using s1 by (simp add: USBSerial_peek_def)
qed

lemma idle_read:
  assumes "idle s"
  shows "\<exists>v s'. USBSerial_read app cfgok s = Some (v, s') \<and> idle s'"
proof -
  obtain s1 where s1: "USBSerial_doTasks app cfgok s = Some s1" "idle s1" using idle_doTasks [OF assms] by blast
  obtain s2 where "USBSerial_available app cfgok s1 = Some (0, s2)" "idle s2" using idle_available [OF s1(2)] by blast
  then show ?thesis using s1
    by (cases "ud_state (us_dev s1) = DS_Configured") (auto simp: USBSerial_read_def idle_def)
qed

lemma idle_timedPeek:
  assumes "idle s"
  shows "\<exists>s'. timedPeek (usb_source app cfgok garbage clock) timeout s = Some (0, s') \<and> idle s' \<and>
    idle (snd (src_read (usb_source app cfgok garbage clock) s'))"
proof -
  obtain s1 where s1: "USBSerial_peek app cfgok s = Some (0, s1)" "idle s1" using idle_peek [OF assms] by blast
  obtain v s2 where "USBSerial_read app cfgok s1 = Some (v, s2)" "idle s2" using idle_read [OF s1(2)] by blast
  then show ?thesis using s1 by (simp add: usb_source_def timedPeek_def timedPeek_loop.simps)
qed

lemma peekNextDigit_idle:
  assumes "idle s"
  shows "peekNextDigit (usb_source app cfgok garbage clock) timeout s = None"
proof -
  let ?d = "usb_source app cfgok garbage clock"
  let ?P = "\<lambda>d t s r. \<not> (d = ?d \<and> t = timeout \<and> idle s)"
  have "?P d t s r" if eq: "peekNextDigit d t s = Some r" for d t s r
  proof (rule peekNextDigit.raw_induct [where P = ?P, OF _ eq])
    fix f d t s r
    assume IH: "\<And>d t s r. f d t s = Some r \<Longrightarrow> ?P d t s r"
      and body: "do { (c, s1) \<leftarrow> timedPeek d t s;
          if c < 0 \<or> c = 45 \<or> 48 \<le> c \<and> c \<le> 57 then Some (c, s1) else f d t (snd (src_read d s1)) } = Some r"
    show "?P d t s r"
    proof
      assume a: "d = ?d \<and> t = timeout \<and> idle s"
      then obtain s1 where "timedPeek ?d timeout s = Some (0, s1)" "idle (snd (src_read ?d s1))"
        using idle_timedPeek by blast
      with body a IH [of ?d timeout "snd (src_read ?d s1)" r] show False by simp
    qed
  qed
  then show ?thesis using assms by (cases "peekNextDigit ?d timeout s") auto
qed

text \<open>
  C33: \<open>parseInt\<close> on the USB serial port has no time-out.  While the host sends nothing \<open>peek\<close> returns 0
  instead of a negative value, which is taken for a character to be skipped: the function never returns,
  whatever the time-out, the clock, and the value that the \<open>read\<close> without a return statement leaves.
\<close>

theorem parseInt_usb_never_returns:
  assumes "idle s"
  shows "parseInt (usb_source app cfgok garbage clock) timeout s = None"
  using peekNextDigit_idle [OF assms] by (simp add: parseInt_def parseInt_skip_def)

theorem parseInt_usb_never_returns_witness:
  "parseInt (usb_source (plain_app (\<lambda>_ _. None)) (\<lambda>_. True) 0 (\<lambda>s. of_nat (us_time s))) 1000 (usb_ex host_polls_odd) = None"
proof (rule parseInt_usb_never_returns)
  have "host_polls_odd t \<noteq> Host_sends p" for t p by (simp add: host_polls_odd_def)
  moreover have "rx_left (usb_ex host_polls_odd) = []" "\<not> us_didPeek (usb_ex host_polls_odd)" by (simp_all add: usb_ex_def rx_left_def)
  ultimately show "idle (usb_ex host_polls_odd)" unfolding idle_def
    using host_polls_odd_ok usb_ex_ok(2,3,5) [of host_polls_odd] by simp
qed

end
