(* ===== verification/Wire_TWI.thy ===== *)
theory Wire_TWI
  imports Wiring_Pins
begin

text \<open>
  The two-wire (I2C) library: the driver of the bus with its interrupt handler (\<open>utility/twi.c\<close>) and the
  class \<open>TwoWire\<close> (\<open>Wire.cpp\<close>).  The bus is the history of the interrupts to come, each with the status
  code and the contents of the data register; a function that still waits when the history ends has no
  result (\<open>None\<close>), and so has an access outside a buffer.  The controller answers each write to \<open>TWCR\<close>;
  the writes are recorded with the data register at that moment.
\<close>

section \<open>State\<close>

datatype twi_mode = TWI_READY | TWI_MRX | TWI_MTX | TWI_SRX | TWI_STX

record wire =
  wr_io :: mcu_io
  tw_state :: twi_mode
  tw_slarw :: u8
  tw_sendStop :: bool
  tw_inRepStart :: bool
  tw_onSlave :: bool
  tw_masterBuffer :: "u8 list"
  tw_masterBufferIndex :: u8
  tw_masterBufferLength :: u8
  tw_txBuffer :: "u8 list"
  tw_txBufferIndex :: u8
  tw_txBufferLength :: u8
  tw_rxBuffer :: "u8 list"
  tw_rxBufferIndex :: u8
  tw_error :: u8
  tw_dr :: u8
  tw_cr :: u8
  tw_ar :: u8
  tw_br :: u8
  tw_sr :: u8
  tw_log :: "(u8 \<times> u8) list"
  tw_bus :: "(u8 \<times> u8) list"
  tw_stops :: bool
  wr_rxBuffer :: "u8 list"
  wr_rxBufferIndex :: u8
  wr_rxBufferLength :: u8
  wr_txAddress :: u8
  wr_txBuffer :: "u8 list"
  wr_txBufferIndex :: u8
  wr_txBufferLength :: u8
  wr_transmitting :: bool
  wr_writeError :: bool

text \<open>The callbacks of the program, if it has registered them.\<close>

record wire_user =
  user_onRequest :: "(wire \<Rightarrow> wire option) option"
  user_onReceive :: "(int \<Rightarrow> wire \<Rightarrow> wire option) option"

definition TWI_BUFFER_LENGTH :: u8 where
  "TWI_BUFFER_LENGTH = 32"

text \<open>\<open>TWCR\<close>: \<open>TWINT\<close> 7, \<open>TWEA\<close> 6, \<open>TWSTA\<close> 5, \<open>TWSTO\<close> 4, \<open>TWEN\<close> 2, \<open>TWIE\<close> 0.\<close>

definition write_cr :: "u8 \<Rightarrow> wire \<Rightarrow> wire" where
  "write_cr v s = s\<lparr>tw_cr := v, tw_log := tw_log s @ [(v, tw_dr s)]\<rparr>"

section \<open>Driver\<close>

definition twi_init :: "wire \<Rightarrow> wire option" where
  "twi_init s =
     do { io1 \<leftarrow> digitalWrite 25 1 (wr_io s);
          io2 \<leftarrow> digitalWrite 24 1 io1;
          Some (write_cr (BV 2 OR BV 0 OR BV 6)
            (s\<lparr>tw_state := TWI_READY, tw_sendStop := True, tw_inRepStart := False, wr_io := io2,
               tw_sr := cbi (cbi (tw_sr s) 0) 1, tw_br := of_nat ((16000000 div 100000 - 16) div 2)\<rparr>)) }"

definition twi_setAddress :: "u8 \<Rightarrow> wire \<Rightarrow> wire" where
  "twi_setAddress address s = s\<lparr>tw_ar := push_bit 1 address\<rparr>"

definition twi_reply :: "bool \<Rightarrow> wire \<Rightarrow> wire" where
  "twi_reply ack s = write_cr (if ack then BV 2 OR BV 0 OR BV 7 OR BV 6 else BV 2 OR BV 0 OR BV 7) s"

text \<open>The wait for the stop condition ends when the controller has sent it and clears \<open>TWSTO\<close>.\<close>

definition twi_stop :: "wire \<Rightarrow> wire option" where
  "twi_stop s =
     (let s1 = write_cr (BV 2 OR BV 0 OR BV 6 OR BV 7 OR BV 4) s
      in if tw_stops s1 then Some (s1\<lparr>tw_cr := cbi (tw_cr s1) 4, tw_state := TWI_READY\<rparr>) else None)"

definition twi_releaseBus :: "wire \<Rightarrow> wire" where
  "twi_releaseBus s = (write_cr (BV 2 OR BV 0 OR BV 6 OR BV 7) s)\<lparr>tw_state := TWI_READY\<rparr>"

text \<open>The end of a transfer of the master: a stop, or a start whose interrupt stays disabled.\<close>

definition twi_finish :: "wire \<Rightarrow> wire option" where
  "twi_finish s =
     (if tw_sendStop s then twi_stop s
      else Some ((write_cr (BV 7 OR BV 5 OR BV 2) (s\<lparr>tw_inRepStart := True\<rparr>))\<lparr>tw_state := TWI_READY\<rparr>))"

text \<open>\<open>for(i = 0; i < length; ++i) to[i] = from[i];\<close>\<close>

fun copy_bytes :: "nat \<Rightarrow> nat \<Rightarrow> u8 list \<Rightarrow> u8 list \<Rightarrow> u8 list option" where
  "copy_bytes i 0 from to = Some to"
| "copy_bytes i (Suc n) from to =
     do { x \<leftarrow> arr_get from i; to' \<leftarrow> arr_set to i x; copy_bytes (Suc i) n from to' }"

definition twi_transmit :: "u8 list \<Rightarrow> u8 \<Rightarrow> wire \<Rightarrow> (u8 \<times> wire) option" where
  "twi_transmit data len s =
     (if TWI_BUFFER_LENGTH < len then Some (1, s)
      else if tw_state s \<noteq> TWI_STX then Some (2, s)
      else do { b \<leftarrow> copy_bytes 0 (unat len) data (tw_txBuffer s);
                Some (0, s\<lparr>tw_txBufferLength := len, tw_txBuffer := b\<rparr>) })"

text \<open>The services of the class that the driver calls.\<close>

definition onReceiveService :: "wire_user \<Rightarrow> u8 list \<Rightarrow> u8 \<Rightarrow> wire \<Rightarrow> wire option" where
  "onReceiveService user inBytes numBytes s =
     (case user_onReceive user of
        None \<Rightarrow> Some s
      | Some f \<Rightarrow>
          if wr_rxBufferIndex s < wr_rxBufferLength s then Some s
          else do { b \<leftarrow> copy_bytes 0 (unat numBytes) inBytes (wr_rxBuffer s);
                    f (uint numBytes) (s\<lparr>wr_rxBuffer := b, wr_rxBufferIndex := 0, wr_rxBufferLength := numBytes\<rparr>) })"

definition onRequestService :: "wire_user \<Rightarrow> wire \<Rightarrow> wire option" where
  "onRequestService user s =
     (case user_onRequest user of
        None \<Rightarrow> Some s
      | Some f \<Rightarrow> f (s\<lparr>wr_txBufferIndex := 0, wr_txBufferLength := 0\<rparr>))"

section \<open>Interrupt handler\<close>

text \<open>\<open>twi_masterBuffer[twi_masterBufferIndex++] = TWDR\<close>\<close>

definition store_master :: "wire \<Rightarrow> wire option" where
  "store_master s =
     do { b \<leftarrow> arr_set (tw_masterBuffer s) (unat (tw_masterBufferIndex s)) (tw_dr s);
          Some (s\<lparr>tw_masterBuffer := b, tw_masterBufferIndex := tw_masterBufferIndex s + 1\<rparr>) }"

definition isr_mt_ack :: "wire \<Rightarrow> wire option" where
  "isr_mt_ack s =
     (if tw_masterBufferIndex s < tw_masterBufferLength s
      then do { x \<leftarrow> arr_get (tw_masterBuffer s) (unat (tw_masterBufferIndex s));
                Some (twi_reply True (s\<lparr>tw_dr := x, tw_masterBufferIndex := tw_masterBufferIndex s + 1\<rparr>)) }
      else twi_finish s)"

definition isr_mr_ack :: "wire \<Rightarrow> wire" where
  "isr_mr_ack s = twi_reply (tw_masterBufferIndex s < tw_masterBufferLength s) s"

definition isr_sr_data :: "wire \<Rightarrow> wire option" where
  "isr_sr_data s =
     (if tw_rxBufferIndex s < TWI_BUFFER_LENGTH
      then do { b \<leftarrow> arr_set (tw_rxBuffer s) (unat (tw_rxBufferIndex s)) (tw_dr s);
                Some (twi_reply True (s\<lparr>tw_rxBuffer := b, tw_rxBufferIndex := tw_rxBufferIndex s + 1\<rparr>)) }
      else Some (twi_reply False s))"

text \<open>Calling a service that was never attached is a call through a null pointer.\<close>

definition isr_sr_stop :: "wire_user \<Rightarrow> wire \<Rightarrow> wire option" where
  "isr_sr_stop user s =
     do { s1 \<leftarrow> (if tw_rxBufferIndex s < TWI_BUFFER_LENGTH
                 then do { b \<leftarrow> arr_set (tw_rxBuffer s) (unat (tw_rxBufferIndex s)) 0; Some (s\<lparr>tw_rxBuffer := b\<rparr>) }
                 else Some s);
          s2 \<leftarrow> twi_stop s1;
          s3 \<leftarrow> (if tw_onSlave s2 then onReceiveService user (tw_rxBuffer s2) (tw_rxBufferIndex s2) s2 else None);
          Some (twi_releaseBus (s3\<lparr>tw_rxBufferIndex := 0\<rparr>)) }"

definition isr_st_data :: "wire \<Rightarrow> wire option" where
  "isr_st_data s =
     do { x \<leftarrow> arr_get (tw_txBuffer s) (unat (tw_txBufferIndex s));
          let s1 = s\<lparr>tw_dr := x, tw_txBufferIndex := tw_txBufferIndex s + 1\<rparr>;
          Some (twi_reply (tw_txBufferIndex s1 < tw_txBufferLength s1) s1) }"

definition isr_st_start :: "wire_user \<Rightarrow> wire \<Rightarrow> wire option" where
  "isr_st_start user s =
     (let s1 = s\<lparr>tw_state := TWI_STX, tw_txBufferIndex := 0, tw_txBufferLength := 0\<rparr> in
      do { s2 \<leftarrow> (if tw_onSlave s1 then onRequestService user s1 else None);
           s3 \<leftarrow> (if tw_txBufferLength s2 = 0
                  then do { b \<leftarrow> arr_set (tw_txBuffer s2) 0 0; Some (s2\<lparr>tw_txBufferLength := 1, tw_txBuffer := b\<rparr>) }
                  else Some s2);
           isr_st_data s3 })"

definition TWI_vect :: "wire_user \<Rightarrow> u8 \<Rightarrow> wire \<Rightarrow> wire option" where
  "TWI_vect user st s =
     (if st = 0x08 \<or> st = 0x10 then Some (twi_reply True (s\<lparr>tw_dr := tw_slarw s\<rparr>))
      else if st = 0x18 \<or> st = 0x28 then isr_mt_ack s
      else if st = 0x20 then twi_stop (s\<lparr>tw_error := 0x20\<rparr>)
      else if st = 0x30 then twi_stop (s\<lparr>tw_error := 0x30\<rparr>)
      else if st = 0x38 then Some (twi_releaseBus (s\<lparr>tw_error := 0x38\<rparr>))
      else if st = 0x50 then do { s1 \<leftarrow> store_master s; Some (isr_mr_ack s1) }
      else if st = 0x40 then Some (isr_mr_ack s)
      else if st = 0x58 then do { s1 \<leftarrow> store_master s; twi_finish s1 }
      else if st = 0x48 then twi_stop s
      else if st = 0x60 \<or> st = 0x70 \<or> st = 0x68 \<or> st = 0x78
      then Some (twi_reply True (s\<lparr>tw_state := TWI_SRX, tw_rxBufferIndex := 0\<rparr>))
      else if st = 0x80 \<or> st = 0x90 then isr_sr_data s
      else if st = 0xA0 then isr_sr_stop user s
      else if st = 0x88 \<or> st = 0x98 then Some (twi_reply False s)
      else if st = 0xA8 \<or> st = 0xB0 then isr_st_start user s
      else if st = 0xB8 then isr_st_data s
      else if st = 0xC0 \<or> st = 0xC8 then Some ((twi_reply True s)\<lparr>tw_state := TWI_READY\<rparr>)
      else if st = 0xF8 then Some s
      else if st = 0x00 then twi_stop (s\<lparr>tw_error := 0\<rparr>)
      else Some s)"

text \<open>
  One interrupt of the history.  It is served only while \<open>TWIE\<close> is set; without it a wait never ends.
\<close>

fun bus_interrupt :: "wire_user \<Rightarrow> (u8 \<times> u8) list \<Rightarrow> wire \<Rightarrow> wire option" where
  "bus_interrupt user [] s = None"
| "bus_interrupt user ((st, d) # evs) s =
     (if bit (tw_cr s) 0 then TWI_vect user st (s\<lparr>tw_bus := evs, tw_dr := d\<rparr>) else None)"

partial_function (option) wait_while :: "wire_user \<Rightarrow> (twi_mode \<Rightarrow> bool) \<Rightarrow> wire \<Rightarrow> wire option" where
  "wait_while user busy s =
     (if busy (tw_state s)
      then do { s1 \<leftarrow> bus_interrupt user (tw_bus s) s; wait_while user busy s1 } else Some s)"

declare wait_while.simps [code]

section \<open>Transfers of the master\<close>

definition twi_start :: "wire \<Rightarrow> wire" where
  "twi_start s =
     (if tw_inRepStart s
      then write_cr (BV 7 OR BV 6 OR BV 2 OR BV 0) (s\<lparr>tw_inRepStart := False, tw_dr := tw_slarw s\<rparr>)
      else write_cr (BV 7 OR BV 6 OR BV 2 OR BV 0 OR BV 5) s)"

definition start_read :: "u8 \<Rightarrow> u8 \<Rightarrow> bool \<Rightarrow> wire \<Rightarrow> wire" where
  "start_read address len sendStop s =
     twi_start (s\<lparr>tw_state := TWI_MRX, tw_sendStop := sendStop, tw_error := 0xFF, tw_masterBufferIndex := 0,
                  tw_masterBufferLength := len - 1, tw_slarw := 1 OR push_bit 1 address\<rparr>)"

definition start_write :: "u8 \<Rightarrow> u8 list \<Rightarrow> u8 \<Rightarrow> bool \<Rightarrow> wire \<Rightarrow> wire option" where
  "start_write address data len sendStop s =
     do { b \<leftarrow> copy_bytes 0 (unat len) data (tw_masterBuffer s);
          Some (twi_start (s\<lparr>tw_state := TWI_MTX, tw_sendStop := sendStop, tw_error := 0xFF, tw_masterBufferIndex := 0,
                  tw_masterBufferLength := len, tw_masterBuffer := b, tw_slarw := 0 OR push_bit 1 address\<rparr>)) }"

definition twi_readFrom :: "wire_user \<Rightarrow> u8 \<Rightarrow> u8 list \<Rightarrow> u8 \<Rightarrow> bool \<Rightarrow> wire \<Rightarrow> (u8 \<times> u8 list \<times> wire) option" where
  "twi_readFrom user address data len sendStop s =
     (if TWI_BUFFER_LENGTH < len then Some (0, data, s)
      else do { s1 \<leftarrow> wait_while user (\<lambda>m. m \<noteq> TWI_READY) s;
                s3 \<leftarrow> wait_while user (\<lambda>m. m = TWI_MRX) (start_read address len sendStop s1);
                let n = (if tw_masterBufferIndex s3 < len then tw_masterBufferIndex s3 else len);
                data' \<leftarrow> copy_bytes 0 (unat n) (tw_masterBuffer s3) data;
                Some (n, data', s3) })"

definition twi_writeTo :: "wire_user \<Rightarrow> u8 \<Rightarrow> u8 list \<Rightarrow> u8 \<Rightarrow> bool \<Rightarrow> bool \<Rightarrow> wire \<Rightarrow> (u8 \<times> wire) option" where
  "twi_writeTo user address data len wait sendStop s =
     (if TWI_BUFFER_LENGTH < len then Some (1, s)
      else do { s1 \<leftarrow> wait_while user (\<lambda>m. m \<noteq> TWI_READY) s;
                s2 \<leftarrow> start_write address data len sendStop s1;
                s3 \<leftarrow> wait_while user (\<lambda>m. wait \<and> m = TWI_MTX) s2;
                Some (if tw_error s3 = 0xFF then 0 else if tw_error s3 = 0x20 then 2
                      else if tw_error s3 = 0x30 then 3 else 4, s3) })"

section \<open>The class\<close>

definition TwoWire_begin :: "wire \<Rightarrow> wire option" where
  "TwoWire_begin s =
     twi_init (s\<lparr>wr_rxBufferIndex := 0, wr_rxBufferLength := 0, wr_txBufferIndex := 0, wr_txBufferLength := 0\<rparr>)"

definition TwoWire_begin_slave :: "u8 \<Rightarrow> wire \<Rightarrow> wire option" where
  "TwoWire_begin_slave address s = TwoWire_begin ((twi_setAddress address s)\<lparr>tw_onSlave := True\<rparr>)"

definition TwoWire_requestFrom :: "wire_user \<Rightarrow> u8 \<Rightarrow> u8 \<Rightarrow> bool \<Rightarrow> wire \<Rightarrow> (u8 \<times> wire) option" where
  "TwoWire_requestFrom user address quantity sendStop s =
     (let q = (if quantity > 32 then 32 else quantity) in
      do { (n, b, s1) \<leftarrow> twi_readFrom user address (wr_rxBuffer s) q sendStop s;
           Some (n, s1\<lparr>wr_rxBuffer := b, wr_rxBufferIndex := 0, wr_rxBufferLength := n\<rparr>) })"

definition TwoWire_beginTransmission :: "u8 \<Rightarrow> wire \<Rightarrow> wire" where
  "TwoWire_beginTransmission address s =
     s\<lparr>wr_transmitting := True, wr_txAddress := address, wr_txBufferIndex := 0, wr_txBufferLength := 0\<rparr>"

definition TwoWire_endTransmission :: "wire_user \<Rightarrow> bool \<Rightarrow> wire \<Rightarrow> (u8 \<times> wire) option" where
  "TwoWire_endTransmission user sendStop s =
     do { (ret, s1) \<leftarrow> twi_writeTo user (wr_txAddress s) (wr_txBuffer s) (wr_txBufferLength s) True sendStop s;
          Some (ret, s1\<lparr>wr_txBufferIndex := 0, wr_txBufferLength := 0, wr_transmitting := False\<rparr>) }"

definition TwoWire_write :: "u8 \<Rightarrow> wire \<Rightarrow> (u16 \<times> wire) option" where
  "TwoWire_write data s =
     (if wr_transmitting s
      then if wr_txBufferLength s \<ge> 32 then Some (0, s\<lparr>wr_writeError := True\<rparr>)
           else do { b \<leftarrow> arr_set (wr_txBuffer s) (unat (wr_txBufferIndex s)) data;
                     Some (1, s\<lparr>wr_txBuffer := b, wr_txBufferIndex := wr_txBufferIndex s + 1,
                                wr_txBufferLength := wr_txBufferIndex s + 1\<rparr>) }
      else do { (_, s1) \<leftarrow> twi_transmit [data] 1 s; Some (1, s1) })"

text \<open>The result of each single write is dropped.\<close>

fun write_each :: "u8 list \<Rightarrow> wire \<Rightarrow> wire option" where
  "write_each [] s = Some s"
| "write_each (x # xs) s = do { (_, s1) \<leftarrow> TwoWire_write x s; write_each xs s1 }"

definition TwoWire_write_buf :: "u8 list \<Rightarrow> u16 \<Rightarrow> wire \<Rightarrow> (u16 \<times> wire) option" where
  "TwoWire_write_buf data quantity s =
     (if wr_transmitting s
      then if unat quantity \<le> length data then do { s1 \<leftarrow> write_each (take (unat quantity) data) s; Some (quantity, s1) } else None
      else do { (_, s1) \<leftarrow> twi_transmit data (ucast quantity) s; Some (quantity, s1) })"

definition TwoWire_available :: "wire \<Rightarrow> int" where
  "TwoWire_available s = uint (wr_rxBufferLength s) - uint (wr_rxBufferIndex s)"

definition TwoWire_read :: "wire \<Rightarrow> (int \<times> wire) option" where
  "TwoWire_read s =
     (if wr_rxBufferIndex s < wr_rxBufferLength s
      then do { x \<leftarrow> arr_get (wr_rxBuffer s) (unat (wr_rxBufferIndex s));
                Some (uint x, s\<lparr>wr_rxBufferIndex := wr_rxBufferIndex s + 1\<rparr>) }
      else Some (-1, s))"

definition TwoWire_peek :: "wire \<Rightarrow> int option" where
  "TwoWire_peek s =
     (if wr_rxBufferIndex s < wr_rxBufferLength s
      then map_option uint (arr_get (wr_rxBuffer s) (unat (wr_rxBufferIndex s))) else Some (-1))"

section \<open>Commands to the controller\<close>

lemma commands:
  "BV 2 OR BV 0 OR BV 7 OR BV 6 = 0xC5" "BV 2 OR BV 0 OR BV 7 = 0x85" "BV 2 OR BV 0 OR BV 6 OR BV 7 OR BV 4 = 0xD5"
  "BV 2 OR BV 0 OR BV 6 OR BV 7 = 0xC5" "BV 7 OR BV 6 OR BV 2 OR BV 0 = 0xC5" "BV 7 OR BV 6 OR BV 2 OR BV 0 OR BV 5 = 0xE5"
  "BV 7 OR BV 5 OR BV 2 = 0xA4" "BV 2 OR BV 0 OR BV 6 = 0x45" "cbi 0xD5 4 = 0xC5"
  by code_simp+

lemma command_bits [simp]:
  "bit (0xC5 :: u8) 0" "bit (0x85 :: u8) 0" "bit (0xE5 :: u8) 0" "\<not> bit (0xA4 :: u8) 0" "bit (0x45 :: u8) 0"
  "bit (0xC5 :: u8) 6" "\<not> bit (0x85 :: u8) 6" "bit (0xE5 :: u8) 6" "bit (0x45 :: u8) 6"
  "\<not> bit (0xC5 :: u8) 5" "\<not> bit (0x85 :: u8) 5" "bit (0xE5 :: u8) 5" "\<not> bit (0x45 :: u8) 5"
  by code_simp+

lemmas twi_defs = twi_reply_def twi_stop_def twi_releaseBus_def twi_finish_def twi_start_def write_cr_def commands

text \<open>The bytes that go out on the bus: the data register at each command that is neither start nor stop.\<close>

definition bytes_out :: "(u8 \<times> u8) list \<Rightarrow> u8 list" where
  "bytes_out log = map snd (filter (\<lambda>(v, d). v AND 0x30 = 0) log)"

lemma bytes_out_append [simp]: "bytes_out (xs @ ys) = bytes_out xs @ bytes_out ys"
  by (simp add: bytes_out_def)

lemma bytes_out_Cons [simp]: "bytes_out ((v, d) # xs) = (if v AND 0x30 = 0 then d # bytes_out xs else bytes_out xs)" "bytes_out [] = []"
  by (simp_all add: bytes_out_def)

lemma copy_bytes_val:
  "i + n \<le> length from \<Longrightarrow> i + n \<le> length to \<Longrightarrow>
    copy_bytes i n from to = Some (take i to @ take n (drop i from) @ drop (i + n) to)"
proof (induction n arbitrary: i to)
  case (Suc n)
  have "take (Suc i) (to[i := from ! i]) = take i to @ [from ! i]" using Suc.prems(2) by (simp add: take_Suc_conv_app_nth)
  moreover have "take (Suc n) (drop i from) = from ! i # take n (drop (Suc i) from)"
    using Suc.prems(1) by (simp add: Cons_nth_drop_Suc [symmetric])
  ultimately show ?case using Suc by simp
qed simp

lemma wait_step:
  assumes "busy (tw_state s)" "tw_bus s = (st, d) # evs" "bit (tw_cr s) 0"
  shows "wait_while user busy s = TWI_vect user st (s\<lparr>tw_bus := evs, tw_dr := d\<rparr>) \<bind> wait_while user busy"
  using assms by (simp add: wait_while.simps [of _ _ s])

lemma wait_done: "\<not> busy (tw_state s) \<Longrightarrow> wait_while user busy s = Some s"
  by (simp add: wait_while.simps)

section \<open>Writing as master\<close>

lemma unat_inc_small: "unat c < 255 \<Longrightarrow> unat (c + 1 :: u8) = Suc (unat c)"
  using unat_inc [of c 255] by simp

lemma take_Suc_update: "length xs = i \<Longrightarrow> i < length b \<Longrightarrow> take i b = xs \<Longrightarrow> take (Suc i) (b[i := x]) = xs @ [x]"
  by (simp add: take_Suc_conv_app_nth)

definition mt_at :: "u8 list \<Rightarrow> nat \<Rightarrow> (u8 \<times> u8) list \<Rightarrow> wire \<Rightarrow> bool" where
  "mt_at xs i log s \<longleftrightarrow> tw_state s = TWI_MTX \<and> length (tw_masterBuffer s) = 32 \<and> take (length xs) (tw_masterBuffer s) = xs \<and>
     unat (tw_masterBufferIndex s) = i \<and> unat (tw_masterBufferLength s) = length xs \<and> i \<le> length xs \<and> length xs \<le> 32 \<and>
     tw_log s = log \<and> bit (tw_cr s) 0 \<and> tw_sendStop s \<and> tw_stops s \<and> tw_error s = 0xFF"

abbreviation "mt_wait user \<equiv> wait_while user (\<lambda>m. True \<and> m = TWI_MTX)"

lemma mt_ack:
  assumes "mt_at xs i log s" "i < length xs" "tw_bus s = (st, d) # evs" "st = 0x18 \<or> st = 0x28"
  shows "\<exists>s'. mt_wait user s = mt_wait user s' \<and> mt_at xs (Suc i) (log @ [(0xC5, xs ! i)]) s' \<and> tw_bus s' = evs"
proof -
  have lt: "tw_masterBufferIndex s < tw_masterBufferLength s" using assms by (simp add: mt_at_def word_less_nat_alt)
  have x: "tw_masterBuffer s ! i = xs ! i" using assms(1,2) by (metis mt_at_def nth_take)
  have inc: "unat (tw_masterBufferIndex s + 1) = Suc i"
    using assms(1) lt unat_inc [of "tw_masterBufferIndex s" "tw_masterBufferLength s"] by (simp add: mt_at_def word_less_nat_alt)
  have "i < 32" using assms(1,2) by (simp add: mt_at_def)
  then show ?thesis
    using assms lt x inc by (auto simp: mt_at_def wait_step TWI_vect_def isr_mt_ack_def twi_defs)
qed

lemma mt_acks:
  "mt_at xs i log s \<Longrightarrow> i + length evs \<le> length xs \<Longrightarrow> tw_bus s = evs @ rest \<Longrightarrow> \<forall>(st, d)\<in>set evs. st = 0x18 \<or> st = 0x28 \<Longrightarrow>
    \<exists>s'. mt_wait user s = mt_wait user s' \<and> mt_at xs (i + length evs) (log @ map (Pair 0xC5) (take (length evs) (drop i xs))) s' \<and>
      tw_bus s' = rest"
proof (induction evs arbitrary: i log s)
  case Nil
  then show ?case by auto
next
  case (Cons e evs)
  obtain st d where e: "e = (st, d)" by (cases e)
  obtain s1 where s1: "mt_wait user s = mt_wait user s1" "mt_at xs (Suc i) (log @ [(0xC5, xs ! i)]) s1" "tw_bus s1 = evs @ rest"
    using mt_ack [OF Cons.prems(1), of st d "evs @ rest"] Cons.prems(2-4) e by auto
  have "take (Suc (length evs)) (drop i xs) = xs ! i # take (length evs) (drop (Suc i) xs)"
    using Cons.prems(2) by (simp add: Cons_nth_drop_Suc [symmetric])
  with Cons.IH [OF s1(2) _ s1(3)] Cons.prems(2,4) s1(1) show ?case by auto
qed

lemma mt_start:
  assumes "mt_at xs 0 log s" "tw_bus s = (0x08, d) # rest"
  shows "\<exists>s'. mt_wait user s = mt_wait user s' \<and> mt_at xs 0 (log @ [(0xC5, tw_slarw s)]) s' \<and> tw_bus s' = rest"
  using assms by (auto simp: mt_at_def wait_step TWI_vect_def twi_defs)

lemma mt_end:
  assumes "mt_at xs i log s" "tw_bus s = (st, d) # rest"
  shows "(st = 0x18 \<or> st = 0x28) \<and> i = length xs \<Longrightarrow>
      \<exists>s'. mt_wait user s = Some s' \<and> tw_state s' = TWI_READY \<and> tw_error s' = 0xFF \<and> tw_log s' = log @ [(0xD5, d)] \<and> tw_bus s' = rest"
    "st = 0x20 \<or> st = 0x30 \<Longrightarrow>
      \<exists>s'. mt_wait user s = Some s' \<and> tw_state s' = TWI_READY \<and> tw_error s' = st \<and> tw_log s' = log @ [(0xD5, d)] \<and> tw_bus s' = rest"
    "st = 0x38 \<Longrightarrow>
      \<exists>s'. mt_wait user s = Some s' \<and> tw_state s' = TWI_READY \<and> tw_error s' = st \<and> tw_log s' = log @ [(0xC5, d)] \<and> tw_bus s' = rest"
  using assms by (auto simp: mt_at_def wait_step wait_done TWI_vect_def isr_mt_ack_def twi_defs word_less_nat_alt)

definition bus_ready :: "wire \<Rightarrow> bool" where
  "bus_ready s \<longleftrightarrow> tw_state s = TWI_READY \<and> \<not> tw_inRepStart s \<and> length (tw_masterBuffer s) = 32 \<and> tw_stops s"

lemma start_write_at:
  assumes "bus_ready s" "unat len \<le> 32" "unat len \<le> length data"
  shows "\<exists>s'. start_write address data len True s = Some s' \<and> mt_at (take (unat len) data) 0 (tw_log s @ [(0xE5, tw_dr s)]) s' \<and>
    tw_slarw s' = push_bit 1 address \<and> tw_bus s' = tw_bus s"
  using assms copy_bytes_val [of 0 "unat len" data "tw_masterBuffer s"]
  by (simp add: start_write_def bus_ready_def mt_at_def twi_defs min_def)

lemma twi_writeTo_outcomes:
  assumes "bus_ready s" "unat len \<le> 32" "unat len \<le> length data"
    and "tw_bus s = (0x08, d0) # evs @ (st, d1) # rest" "\<forall>(a, _)\<in>set evs. a = 0x18 \<or> a = 0x28"
    and "st = 0x28 \<and> length evs = unat len \<and> r = 0 \<or> st = 0x18 \<and> unat len = 0 \<and> evs = [] \<and> r = 0 \<or>
         st = 0x20 \<and> evs = [] \<and> r = 2 \<or> st = 0x30 \<and> length evs \<le> unat len \<and> r = 3"
  shows "\<exists>s'. twi_writeTo user address data len True True s = Some (r, s') \<and> tw_state s' = TWI_READY \<and> tw_bus s' = rest \<and>
    bytes_out (tw_log s') = bytes_out (tw_log s) @ push_bit 1 address # take (length evs) data \<and> fst (last (tw_log s')) = 0xD5"
proof -
  let ?xs = "take (unat len) data"
  obtain s1 where s1: "start_write address data len True s = Some s1" "mt_at ?xs 0 (tw_log s @ [(0xE5, tw_dr s)]) s1"
      "tw_slarw s1 = push_bit 1 address" "tw_bus s1 = tw_bus s"
    using start_write_at [OF assms(1-3)] by blast
  obtain s2 where s2: "mt_wait user s1 = mt_wait user s2" "mt_at ?xs 0 ((tw_log s @ [(0xE5, tw_dr s)]) @ [(0xC5, push_bit 1 address)]) s2"
      "tw_bus s2 = evs @ (st, d1) # rest"
    using mt_start [OF s1(2), of d0 "evs @ (st, d1) # rest" user] s1(3,4) assms(4) by auto
  have len: "length evs \<le> unat len" using assms(6) by auto
  obtain s3 where s3: "mt_wait user s2 = mt_wait user s3"
      "mt_at ?xs (length evs) (((tw_log s @ [(0xE5, tw_dr s)]) @ [(0xC5, push_bit 1 address)]) @ map (Pair 0xC5) (take (length evs) ?xs)) s3"
      "tw_bus s3 = (st, d1) # rest"
    using mt_acks [OF s2(2) _ s2(3) assms(5), of user] len assms(3) by auto
  obtain s4 where s4: "mt_wait user s3 = Some s4" "tw_state s4 = TWI_READY" "tw_bus s4 = rest"
      "tw_error s4 = (if r = 0 then 0xFF else st)"
      "tw_log s4 = (((tw_log s @ [(0xE5, tw_dr s)]) @ [(0xC5, push_bit 1 address)]) @ map (Pair 0xC5) (take (length evs) ?xs)) @ [(0xD5, d1)]"
    using mt_end [OF s3(2,3), of user] assms(3,6) by auto
  have out: "bytes_out (map (Pair 0xC5) ys) = ys" for ys by (induction ys) simp_all
  have "twi_writeTo user address data len True True s = Some (r, s4)"
    using assms(1,2,6) s1(1) s2(1) s3(1) s4(1,4)
    by (auto simp: twi_writeTo_def TWI_BUFFER_LENGTH_def word_less_nat_alt wait_done bus_ready_def)
  then show ?thesis using s4 len by (auto simp: out take_take min_def)
qed

text \<open>Collecting the bytes of a transmission in the buffer of the class.\<close>

definition tx_at :: "u8 list \<Rightarrow> wire \<Rightarrow> bool" where
  "tx_at xs s \<longleftrightarrow> wr_transmitting s \<and> length (wr_txBuffer s) = 32 \<and> length xs \<le> 32 \<and> take (length xs) (wr_txBuffer s) = xs \<and>
     unat (wr_txBufferIndex s) = length xs \<and> wr_txBufferLength s = wr_txBufferIndex s"

text \<open>Only the buffer of the class changes.\<close>

definition same_bus :: "wire \<Rightarrow> wire \<Rightarrow> bool" where
  "same_bus s s' \<longleftrightarrow> (bus_ready s \<longrightarrow> bus_ready s') \<and> tw_bus s' = tw_bus s \<and> tw_log s' = tw_log s \<and> wr_txAddress s' = wr_txAddress s"

lemma write_tx:
  assumes "tx_at xs s"
  shows "\<exists>s'. TwoWire_write x s = Some (if length xs < 32 then 1 else 0, s') \<and> tx_at (take 32 (xs @ [x])) s' \<and> same_bus s s'"
proof (cases "length xs < 32")
  case True
  then show ?thesis using assms take_Suc_update [of xs "length xs" "wr_txBuffer s" x]
    by (simp add: TwoWire_write_def tx_at_def word_le_nat_alt unat_inc_small same_bus_def bus_ready_def)
next
  case False
  then show ?thesis using assms
    by (auto simp: TwoWire_write_def tx_at_def word_le_nat_alt same_bus_def bus_ready_def)
qed

lemma write_each_tx:
  "tx_at xs s \<Longrightarrow> \<exists>s'. write_each ys s = Some s' \<and> tx_at (take 32 (xs @ ys)) s' \<and> same_bus s s'"
proof (induction ys arbitrary: xs s)
  case Nil
  then show ?case by (simp add: tx_at_def same_bus_def)
next
  case (Cons y ys)
  obtain n s1 where s1: "TwoWire_write y s = Some (n, s1)" "tx_at (take 32 (xs @ [y])) s1" "same_bus s s1"
    using write_tx [OF Cons.prems, of y] by blast
  have "take 32 (take 32 (xs @ [y]) @ ys) = take 32 (xs @ y # ys)"
    using Cons.prems by (cases "length xs < 32") (simp_all add: tx_at_def)
  then show ?case using Cons.IH [OF s1(2)] s1(1,3) by (auto simp: same_bus_def)
qed

text \<open>
  C34: A transmission of the class: \<open>beginTransmission\<close>, \<open>write\<close> of any number of bytes and
  \<open>endTransmission\<close> put the address and the first 32 bytes on the bus, in order.  When the slave
  acknowledges everything the result is 0; when it refuses the address the result is 2, and when it
  refuses a byte the result is 3, and exactly the bytes up to that one have gone out.  A stop condition
  ends the transfer in every case and the driver is ready again.
\<close>

theorem Wire_transmission:
  assumes "bus_ready s" "length (wr_txBuffer s) = 32" "length data < 65536"
    and "tw_bus s = (0x08, d0) # evs @ (st, d1) # rest" "\<forall>(a, _)\<in>set evs. a = 0x18 \<or> a = 0x28"
    and "n = length (take 32 data)"
    and "st = 0x28 \<and> length evs = n \<and> r = 0 \<or> st = 0x18 \<and> n = 0 \<and> evs = [] \<and> r = 0 \<or>
         st = 0x20 \<and> evs = [] \<and> r = 2 \<or> st = 0x30 \<and> length evs \<le> n \<and> r = 3"
  shows "\<exists>s1 s2. TwoWire_write_buf data (of_nat (length data)) (TwoWire_beginTransmission address s) = Some (of_nat (length data), s1) \<and>
    TwoWire_endTransmission user True s1 = Some (r, s2) \<and> tw_state s2 = TWI_READY \<and> \<not> wr_transmitting s2 \<and> tw_bus s2 = rest \<and>
    bytes_out (tw_log s2) = bytes_out (tw_log s) @ push_bit 1 address # take (length evs) (take 32 data) \<and>
    fst (last (tw_log s2)) = 0xD5"
proof -
  let ?s0 = "TwoWire_beginTransmission address s"
  have s0: "tx_at [] ?s0" "same_bus (s\<lparr>wr_txAddress := address\<rparr>) ?s0" "bus_ready ?s0"
    using assms(1,2) by (simp_all add: TwoWire_beginTransmission_def tx_at_def same_bus_def bus_ready_def)
  have q: "unat (of_nat (length data) :: u16) = length data" using assms(3) by (simp add: unat_of_nat)
  obtain s1 where s1: "write_each data ?s0 = Some s1" "tx_at (take 32 data) s1" "same_bus ?s0 s1"
    using write_each_tx [OF s0(1), of data] by auto
  then have w: "TwoWire_write_buf data (of_nat (length data)) ?s0 = Some (of_nat (length data), s1)"
    using s0(1) q by (simp add: TwoWire_write_buf_def tx_at_def)
  have s1': "bus_ready s1" "tw_bus s1 = tw_bus s" "tw_log s1 = tw_log s" "wr_txAddress s1 = address"
      "unat (wr_txBufferLength s1) = n" "take n (wr_txBuffer s1) = take 32 data" "length (wr_txBuffer s1) = 32" "n \<le> 32"
    using s1(2,3) s0(2,3) assms(6) by (auto simp: same_bus_def tx_at_def TwoWire_beginTransmission_def)
  obtain s' where s': "twi_writeTo user address (wr_txBuffer s1) (wr_txBufferLength s1) True True s1 = Some (r, s')"
      "tw_state s' = TWI_READY" "tw_bus s' = rest"
      "bytes_out (tw_log s') = bytes_out (tw_log s1) @ push_bit 1 address # take (length evs) (wr_txBuffer s1)" "fst (last (tw_log s')) = 0xD5"
    using twi_writeTo_outcomes [OF s1'(1), of "wr_txBufferLength s1" "wr_txBuffer s1" d0 evs st d1 rest r user address] s1' assms(4,5,7) by auto
  have "length evs \<le> n" using assms(7) by auto
  then have "take (length evs) (wr_txBuffer s1) = take (length evs) (take 32 data)"
    using s1'(6) by (metis min.absorb1 take_take)
  then show ?thesis using w s' s1' by (auto simp: TwoWire_endTransmission_def)
qed

section \<open>Reading as master\<close>

definition mr_at :: "nat \<Rightarrow> u8 list \<Rightarrow> u8 list \<Rightarrow> wire \<Rightarrow> bool" where
  "mr_at n got cs s \<longleftrightarrow> tw_state s = TWI_MRX \<and> length (tw_masterBuffer s) = 32 \<and> take (length got) (tw_masterBuffer s) = got \<and>
     unat (tw_masterBufferIndex s) = length got \<and> unat (tw_masterBufferLength s) = n \<and> map fst (tw_log s) = cs \<and>
     bit (tw_cr s) 0 \<and> tw_sendStop s \<and> tw_stops s"

abbreviation "mr_wait user \<equiv> wait_while user (\<lambda>m. m = TWI_MRX)"

definition reply_cmd :: "nat \<Rightarrow> nat \<Rightarrow> u8" where
  "reply_cmd n i = (if i < n then 0xC5 else 0x85)"

lemma mr_sla:
  assumes "mr_at n got cs s" "tw_bus s = (0x40, d) # rest"
  shows "\<exists>s'. mr_wait user s = mr_wait user s' \<and> mr_at n got (cs @ [reply_cmd n (length got)]) s' \<and> tw_bus s' = rest \<and> wr_rxBuffer s' = wr_rxBuffer s"
  using assms by (auto simp: mr_at_def wait_step TWI_vect_def isr_mr_ack_def twi_defs word_less_nat_alt reply_cmd_def)

lemma mr_data:
  assumes "mr_at n got cs s" "length got < 32" "tw_bus s = (0x50, d) # rest"
  shows "\<exists>s'. mr_wait user s = mr_wait user s' \<and> mr_at n (got @ [d]) (cs @ [reply_cmd n (Suc (length got))]) s' \<and> tw_bus s' = rest \<and> wr_rxBuffer s' = wr_rxBuffer s"
  using assms take_Suc_update [of got "length got" "tw_masterBuffer s" d]
  by (auto simp: mr_at_def wait_step TWI_vect_def isr_mr_ack_def store_master_def twi_defs word_less_nat_alt unat_inc_small reply_cmd_def)

lemma mr_datas:
  "mr_at n got cs s \<Longrightarrow> length got + length xs \<le> 32 \<Longrightarrow> tw_bus s = map (Pair 0x50) xs @ rest \<Longrightarrow>
    \<exists>s'. mr_wait user s = mr_wait user s' \<and>
      mr_at n (got @ xs) (cs @ map (reply_cmd n) [Suc (length got)..<Suc (length got + length xs)]) s' \<and> tw_bus s' = rest \<and> wr_rxBuffer s' = wr_rxBuffer s"
proof (induction xs arbitrary: got cs s)
  case Nil
  then show ?case by auto
next
  case (Cons x xs)
  obtain s1 where s1: "mr_wait user s = mr_wait user s1" "mr_at n (got @ [x]) (cs @ [reply_cmd n (Suc (length got))]) s1"
      "tw_bus s1 = map (Pair 0x50) xs @ rest" "wr_rxBuffer s1 = wr_rxBuffer s"
    using mr_data [OF Cons.prems(1), of x "map (Pair 0x50) xs @ rest" user] Cons.prems(2,3) by auto
  have "[Suc (length got)..<Suc (length got + length (x # xs))] =
      Suc (length got) # [Suc (length (got @ [x]))..<Suc (length (got @ [x]) + length xs)]"
    by (subst upt_conv_Cons) simp_all
  then show ?case using Cons.IH [OF s1(2) _ s1(3)] Cons.prems(2) s1(1,4) by simp
qed

lemma mr_last:
  assumes "mr_at n got cs s" "length got < 32" "tw_bus s = (0x58, d) # rest"
  shows "\<exists>s'. mr_wait user s = Some s' \<and> tw_state s' = TWI_READY \<and> take (Suc (length got)) (tw_masterBuffer s') = got @ [d] \<and>
    length (tw_masterBuffer s') = 32 \<and> unat (tw_masterBufferIndex s') = Suc (length got) \<and> tw_bus s' = rest \<and>
    map fst (tw_log s') = cs @ [0xD5] \<and> wr_rxBuffer s' = wr_rxBuffer s"
  using assms take_Suc_update [of got "length got" "tw_masterBuffer s" d]
  by (auto simp: mr_at_def wait_step wait_done TWI_vect_def store_master_def twi_defs unat_inc_small)

lemma mr_first:
  assumes "bus_ready s" "tw_bus s = (0x08, d) # rest"
  shows "\<exists>s'. mr_wait user (start_read address len True s) = mr_wait user s' \<and>
    mr_at (unat (len - 1)) [] (map fst (tw_log s) @ [0xE5, 0xC5]) s' \<and> tw_bus s' = rest \<and> wr_rxBuffer s' = wr_rxBuffer s"
  using assms by (auto simp: start_read_def bus_ready_def mr_at_def wait_step TWI_vect_def twi_defs)

text \<open>The bytes that the class still has to read.\<close>

definition unread :: "wire \<Rightarrow> u8 list" where
  "unread s = take (unat (wr_rxBufferLength s) - unat (wr_rxBufferIndex s)) (drop (unat (wr_rxBufferIndex s)) (wr_rxBuffer s))"

definition rx_ok :: "wire \<Rightarrow> bool" where
  "rx_ok s \<longleftrightarrow> length (wr_rxBuffer s) = 32 \<and> unat (wr_rxBufferLength s) \<le> 32"

lemma read_unread:
  assumes "rx_ok s"
  shows "unread s = x # xs \<Longrightarrow> \<exists>s'. TwoWire_read s = Some (uint x, s') \<and> unread s' = xs \<and> rx_ok s' \<and> TwoWire_peek s = Some (uint x)"
    "unread s = [] \<Longrightarrow> TwoWire_read s = Some (-1, s) \<and> TwoWire_peek s = Some (-1)"
proof -
  let ?i = "unat (wr_rxBufferIndex s)" and ?n = "unat (wr_rxBufferLength s)"
  have len: "length (unread s) = ?n - ?i" using assms by (auto simp: unread_def rx_ok_def min_def)
  show "\<exists>s'. TwoWire_read s = Some (uint x, s') \<and> unread s' = xs \<and> rx_ok s' \<and> TwoWire_peek s = Some (uint x)" if u: "unread s = x # xs"
  proof -
    have i: "?i < ?n" "?i < 32" using len u assms by (auto simp: rx_ok_def)
    then have inc: "unat (wr_rxBufferIndex s + 1) = Suc ?i" by (simp add: unat_inc_small)
    have "take (?n - ?i) (drop ?i (wr_rxBuffer s)) = wr_rxBuffer s ! ?i # take (?n - Suc ?i) (drop (Suc ?i) (wr_rxBuffer s))"
      using i assms by (simp add: rx_ok_def Cons_nth_drop_Suc [symmetric] take_Cons')
    then have "wr_rxBuffer s ! ?i = x" "take (?n - Suc ?i) (drop (Suc ?i) (wr_rxBuffer s)) = xs" using u by (simp_all add: unread_def)
    then show ?thesis using i inc assms
      by (simp add: TwoWire_read_def TwoWire_peek_def word_less_nat_alt rx_ok_def unread_def)
  qed
  show "TwoWire_read s = Some (-1, s) \<and> TwoWire_peek s = Some (-1)" if "unread s = []"
    using len that by (simp add: TwoWire_read_def TwoWire_peek_def word_less_nat_alt)
qed

text \<open>
  C35: A read of the master returns what the slave sent: asked for one to 32 bytes, the driver acknowledges
  every byte but the last, which tells the slave to stop, ends with a stop condition, and \<open>requestFrom\<close>
  makes exactly the received bytes available to \<open>read\<close>, in order.
\<close>

theorem twi_request_reads:
  assumes "bus_ready s" "rx_ok s" "unat quantity = Suc (length xs)" "length xs < 32"
    and "tw_bus s = (0x08, d0) # (0x40, d1) # map (Pair 0x50) xs @ (0x58, x) # rest"
  shows "\<exists>s'. TwoWire_requestFrom user address quantity True s = Some (quantity, s') \<and> unread s' = xs @ [x] \<and> rx_ok s' \<and>
    map fst (tw_log s') = map fst (tw_log s) @ [0xE5, 0xC5] @ replicate (length xs) 0xC5 @ [0x85, 0xD5] \<and>
    tw_state s' = TWI_READY \<and> tw_bus s' = rest"
proof -
  have nz: "quantity \<noteq> 0" using assms(3) by auto
  have q: "\<not> quantity > 32" "\<not> TWI_BUFFER_LENGTH < quantity" "unat (quantity - 1) = length xs"
    using assms(3,4) unat_dec [OF nz] by (simp_all add: word_less_nat_alt TWI_BUFFER_LENGTH_def)
  obtain s1 where s1: "mr_wait user (start_read address quantity True s) = mr_wait user s1"
      "mr_at (length xs) [] (map fst (tw_log s) @ [0xE5, 0xC5]) s1" "tw_bus s1 = (0x40, d1) # map (Pair 0x50) xs @ (0x58, x) # rest"
      "wr_rxBuffer s1 = wr_rxBuffer s"
    using mr_first [OF assms(1,5), of user address quantity] q(3) by auto
  obtain s2 where s2: "mr_wait user s1 = mr_wait user s2" "mr_at (length xs) [] ((map fst (tw_log s) @ [0xE5, 0xC5]) @ [reply_cmd (length xs) 0]) s2"
      "tw_bus s2 = map (Pair 0x50) xs @ (0x58, x) # rest" "wr_rxBuffer s2 = wr_rxBuffer s"
    using mr_sla [OF s1(2,3), of user] s1(4) by auto
  obtain s3 where s3: "mr_wait user s2 = mr_wait user s3"
      "mr_at (length xs) xs (((map fst (tw_log s) @ [0xE5, 0xC5]) @ [reply_cmd (length xs) 0]) @ map (reply_cmd (length xs)) [1..<Suc (length xs)]) s3"
      "tw_bus s3 = (0x58, x) # rest" "wr_rxBuffer s3 = wr_rxBuffer s"
    using mr_datas [OF s2(2) _ s2(3), of user] s2(4) assms(4) by auto
  obtain s4 where s4: "mr_wait user s3 = Some s4" "tw_state s4 = TWI_READY" "take (Suc (length xs)) (tw_masterBuffer s4) = xs @ [x]"
      "length (tw_masterBuffer s4) = 32" "unat (tw_masterBufferIndex s4) = Suc (length xs)" "tw_bus s4 = rest"
      "map fst (tw_log s4) = (((map fst (tw_log s) @ [0xE5, 0xC5]) @ [reply_cmd (length xs) 0]) @ map (reply_cmd (length xs)) [1..<Suc (length xs)]) @ [0xD5]"
      "wr_rxBuffer s4 = wr_rxBuffer s"
    using mr_last [OF s3(2) assms(4) s3(3), of user] s3(4) by auto
  have w: "mr_wait user (start_read address quantity True s) = Some s4" using s1(1) s2(1) s3(1) s4(1) by simp
  have cmds: "[reply_cmd (length xs) 0] @ map (reply_cmd (length xs)) [1..<Suc (length xs)] = replicate (length xs) 0xC5 @ [0x85]"
  proof -
    have "[reply_cmd (length xs) 0] @ map (reply_cmd (length xs)) [1..<Suc (length xs)] = map (reply_cmd (length xs)) [0..<Suc (length xs)]"
      by (simp add: upt_conv_Cons del: upt_Suc)
    also have "\<dots> = map (reply_cmd (length xs)) [0..<length xs] @ [0x85]" by (simp add: reply_cmd_def)
    also have "map (reply_cmd (length xs)) [0..<length xs] = replicate (length xs) 0xC5"
      by (auto simp: reply_cmd_def intro: nth_equalityI)
    finally show ?thesis .
  qed
  have cp: "copy_bytes 0 (Suc (length xs)) (tw_masterBuffer s4) (wr_rxBuffer s) = Some ((xs @ [x]) @ drop (Suc (length xs)) (wr_rxBuffer s))"
    using copy_bytes_val [of 0 "Suc (length xs)" "tw_masterBuffer s4" "wr_rxBuffer s"] s4(3,4) assms(2,4) by (simp add: rx_ok_def)
  have idx: "\<not> tw_masterBufferIndex s4 < quantity" using s4(5) assms(3) by (simp add: word_less_nat_alt)
  have ready: "wait_while user (\<lambda>m. m \<noteq> TWI_READY) s = Some s" using assms(1) by (simp add: wait_done bus_ready_def)
  let ?s' = "s4\<lparr>wr_rxBuffer := (xs @ [x]) @ drop (Suc (length xs)) (wr_rxBuffer s), wr_rxBufferIndex := 0, wr_rxBufferLength := quantity\<rparr>"
  have "TwoWire_requestFrom user address quantity True s = Some (quantity, ?s')"
    using q w cp idx ready assms(3) by (simp add: TwoWire_requestFrom_def twi_readFrom_def)
  moreover have "unread ?s' = xs @ [x]" "rx_ok ?s'" using assms(2-4) by (simp_all add: unread_def rx_ok_def)
  ultimately show ?thesis using s4 cmds by auto
qed

definition wire0 :: "(u8 \<times> u8) list \<Rightarrow> wire" where
  "wire0 bus = \<lparr>wr_io = \<lparr>io_ddr = \<lambda>_. 0, io_port = \<lambda>_. 0, io_tccr0a = 0, io_tccr1a = 0, io_tccr2a = 0, io_tccr3a = 0,
       io_ocr8 = \<lambda>_. 0, io_ocr16 = \<lambda>_. 0, io_admux = 0, io_adcsra = 0, io_didr0 = 0, io_levels = []\<rparr>,
     tw_state = TWI_READY, tw_slarw = 0, tw_sendStop = True, tw_inRepStart = False, tw_onSlave = True,
     tw_masterBuffer = replicate 32 0, tw_masterBufferIndex = 0, tw_masterBufferLength = 0,
     tw_txBuffer = replicate 32 0, tw_txBufferIndex = 0, tw_txBufferLength = 0,
     tw_rxBuffer = replicate 32 0, tw_rxBufferIndex = 0, tw_error = 0,
     tw_dr = 0, tw_cr = 0x45, tw_ar = 0, tw_br = 72, tw_sr = 0, tw_log = [], tw_bus = bus, tw_stops = True,
     wr_rxBuffer = replicate 32 0, wr_rxBufferIndex = 0, wr_rxBufferLength = 0, wr_txAddress = 0,
     wr_txBuffer = replicate 32 0, wr_txBufferIndex = 0, wr_txBufferLength = 0, wr_transmitting = False, wr_writeError = False\<rparr>"

lemma wire0_ready: "bus_ready (wire0 bus)" "rx_ok (wire0 bus)" "tw_bus (wire0 bus) = bus" "tw_log (wire0 bus) = []"
  by (simp_all add: wire0_def bus_ready_def rx_ok_def)

definition no_user :: wire_user where
  "no_user = \<lparr>user_onRequest = None, user_onReceive = None\<rparr>"

theorem Wire_transmission_witness:
  "\<exists>s1 s2. TwoWire_write_buf [7, 8] 2 (TwoWire_beginTransmission 0x50 (wire0 [(0x08, 0), (0x18, 0), (0x30, 0)])) = Some (2, s1) \<and>
    TwoWire_endTransmission no_user True s1 = Some (3, s2) \<and> bytes_out (tw_log s2) = [0xA0, 7]"
  using Wire_transmission [OF wire0_ready(1), of "[(0x08, 0), (0x18, 0), (0x30, 0)]" "[7, 8]" 0 "[(0x18, 0)]" "0x30" 0 "[]" 2 3 "0x50" no_user]
  by (auto simp: wire0_ready) (auto simp: wire0_def)

theorem twi_request_reads_witness:
  "\<exists>s'. TwoWire_requestFrom no_user 0x50 3 True (wire0 [(0x08, 0), (0x40, 0), (0x50, 1), (0x50, 2), (0x58, 3)]) = Some (3, s') \<and>
    unread s' = [1, 2, 3]"
  using twi_request_reads [OF wire0_ready(1,2), of 3 "[1, 2]" "[(0x08, 0), (0x40, 0), (0x50, 1), (0x50, 2), (0x58, 3)]" 0 0 3 "[]" no_user "0x50"]
  by (auto simp: wire0_ready)

section \<open>Receiving as slave\<close>

text \<open>The interrupts of a bus that no program code interrupts.\<close>

fun isr_run :: "wire_user \<Rightarrow> (u8 \<times> u8) list \<Rightarrow> wire \<Rightarrow> wire option" where
  "isr_run user [] s = Some s"
| "isr_run user ((st, d) # evs) s = do { s1 \<leftarrow> TWI_vect user st (s\<lparr>tw_dr := d\<rparr>); isr_run user evs s1 }"

lemma isr_run_append: "isr_run user (xs @ ys) s = isr_run user xs s \<bind> isr_run user ys"
  by (induction user xs s rule: isr_run.induct) (auto split: Option.bind_split)

definition sr_at :: "u8 list \<Rightarrow> wire \<Rightarrow> wire \<Rightarrow> bool" where
  "sr_at got s0 s \<longleftrightarrow> tw_state s = TWI_SRX \<and> length (tw_rxBuffer s) = 32 \<and> length got \<le> 32 \<and> take (length got) (tw_rxBuffer s) = got \<and>
     unat (tw_rxBufferIndex s) = length got \<and> tw_stops s \<and> tw_onSlave s \<and>
     wr_rxBuffer s = wr_rxBuffer s0 \<and> wr_rxBufferIndex s = wr_rxBufferIndex s0 \<and> wr_rxBufferLength s = wr_rxBufferLength s0"

lemma sr_data:
  assumes "sr_at got s0 s"
  shows "\<exists>s'. TWI_vect user 0x80 (s\<lparr>tw_dr := x\<rparr>) = Some s' \<and> sr_at (take 32 (got @ [x])) s0 s' \<and>
    tw_cr s' = (if length got < 32 then 0xC5 else 0x85)"
  using assms take_Suc_update [of got "length got" "tw_rxBuffer s" x]
  by (cases "length got < 32")
    (auto simp: sr_at_def TWI_vect_def isr_sr_data_def TWI_BUFFER_LENGTH_def twi_defs word_less_nat_alt unat_inc_small)

lemma sr_datas:
  "sr_at got s0 s \<Longrightarrow> \<exists>s'. isr_run user (map (Pair 0x80) xs) s = Some s' \<and> sr_at (take 32 (got @ xs)) s0 s'"
proof (induction xs arbitrary: got s)
  case Nil
  then show ?case by (simp add: sr_at_def)
next
  case (Cons x xs)
  obtain s1 where s1: "TWI_vect user 0x80 (s\<lparr>tw_dr := x\<rparr>) = Some s1" "sr_at (take 32 (got @ [x])) s0 s1"
    using sr_data [OF Cons.prems] by blast
  have "take 32 (take 32 (got @ [x]) @ xs) = take 32 (got @ x # xs)"
    using Cons.prems by (cases "length got < 32") (simp_all add: sr_at_def)
  then show ?case using Cons.IH [OF s1(2)] s1(1) by simp
qed



section \<open>Requests for no bytes\<close>

lemma mr_overrun:
  assumes "mr_at n got cs s" "length got = 32" "tw_bus s = (0x50, d) # rest"
  shows "mr_wait user s = None"
  using assms by (simp add: mr_at_def wait_step TWI_vect_def store_master_def)



end
