(* ===== verification/Software_Serial.thy ===== *)
theory Software_Serial
  imports Wiring_Pins Arduino_Stream
begin

text \<open>
  The library \<open>SoftwareSerial\<close>: a serial port made of two pins.  All objects share one receive buffer and
  one of them is listening.  Time is counted in processor cycles: the busy loop \<open>tunedDelay\<close> is modelled
  with its cycles, and what the compiled code needs between two delays is a parameter (\<open>timing\<close>).  The level
  of the transmit pin is recorded as a wave, a list of levels with their durations; the receiver samples a
  line, a function from time to level.
\<close>

section \<open>Delays\<close>

text \<open>The passes of the loop: subtract one, leave when the result is \<open>0xFFFF\<close>.\<close>

function tunedDelay_passes :: "u16 \<Rightarrow> nat" where
  "tunedDelay_passes n = (if n - 1 = 0xFFFF then 1 else Suc (tunedDelay_passes (n - 1)))"
  by pat_completeness auto
termination
proof (relation "measure unat")
  fix n :: u16
  assume "n - 1 \<noteq> 0xFFFF"
  then have "n \<noteq> 0" by auto
  then show "(n - 1, n) \<in> measure unat" using unat_dec [of n] by simp
qed simp

declare tunedDelay_passes.simps [simp del]

text \<open>A pass takes seven cycles, the last one six.\<close>

definition tunedDelay :: "u16 \<Rightarrow> nat" where
  "tunedDelay n = 7 * tunedDelay_passes n - 1"

text \<open>Cycles of the code around the delays: start bit, other bits sent, centering, bits received.\<close>

record timing =
  ov_start :: nat
  ov_tx :: nat
  ov_center :: nat
  ov_rx :: nat

type_synonym delay_row = "u32 \<times> u16 \<times> u16 \<times> u16 \<times> u16"

definition ss_table :: "delay_row list" where
  "ss_table =
     [(115200, 1, 17, 17, 12), (57600, 10, 37, 37, 33), (38400, 25, 57, 57, 54), (31250, 31, 70, 70, 68),
      (28800, 34, 77, 77, 74), (19200, 54, 117, 117, 114), (14400, 74, 156, 156, 153), (9600, 114, 236, 236, 233),
      (4800, 233, 474, 474, 471), (2400, 471, 950, 950, 947), (1200, 947, 1902, 1902, 1899),
      (600, 1902, 3804, 3804, 3800), (300, 3804, 7617, 7617, 7614)]"

definition XMIT_START_ADJUSTMENT :: u16 where
  "XMIT_START_ADJUSTMENT = 5"

section \<open>State\<close>

record soft_port =
  sp_receivePin :: u8
  sp_receiveBitMask :: u8
  sp_receivePort :: nat
  sp_transmitBitMask :: u8
  sp_transmitPort :: nat
  sp_rx_centering :: u16
  sp_rx_intrabit :: u16
  sp_rx_stopbit :: u16
  sp_tx_delay :: u16
  sp_overflow :: bool
  sp_inverse :: bool
  sp_writeError :: bool

record soft_ring =
  sr_buffer :: "u8 list"
  sr_tail :: u8
  sr_head :: u8

record soft_serial =
  sw_io :: mcu_io
  sw_ring :: soft_ring
  sw_active :: "nat option"
  sw_port :: "nat \<Rightarrow> soft_port"
  sw_pcicr :: u8
  sw_pcmsk0 :: u8
  sw_wave :: "(bool \<times> nat) list"

definition set_port :: "nat \<Rightarrow> soft_port \<Rightarrow> soft_serial \<Rightarrow> soft_serial" where
  "set_port k p s = s\<lparr>sw_port := (sw_port s)(k := p)\<rparr>"

section \<open>Receiving\<close>

text \<open>The buffer indices are always below 64 (\<open>ss_inv\<close>).\<close>

definition ss_next :: "u8 \<Rightarrow> u8" where
  "ss_next i = (i + 1) mod 64"

definition ss_full :: "soft_ring \<Rightarrow> bool" where
  "ss_full q \<longleftrightarrow> ss_next (sr_tail q) = sr_head q"

definition ss_empty :: "soft_ring \<Rightarrow> bool" where
  "ss_empty q \<longleftrightarrow> sr_head q = sr_tail q"

definition ss_put :: "u8 \<Rightarrow> soft_ring \<Rightarrow> soft_ring" where
  "ss_put d q = q\<lparr>sr_buffer := (sr_buffer q)[unat (sr_tail q) := d], sr_tail := ss_next (sr_tail q)\<rparr>"

definition ss_get :: "soft_ring \<Rightarrow> u8 \<times> soft_ring" where
  "ss_get q = (sr_buffer q ! unat (sr_head q), q\<lparr>sr_head := ss_next (sr_head q)\<rparr>)"

text \<open>The loops over the bits shift a one until it leaves the byte.\<close>

definition shifts_left :: "u8 \<Rightarrow> nat" where
  "shifts_left i = (LEAST n. push_bit n i = 0)"

lemma shifts_left_dec:
  assumes "i \<noteq> 0"
  shows "shifts_left (i * 2) < shifts_left i"
proof -
  have ex: "push_bit 8 i = 0" by (rule bit_word_eqI) (simp add: bit_simps)
  have m: "push_bit (shifts_left i) i = 0" unfolding shifts_left_def using ex by (rule LeastI)
  then have "shifts_left i \<noteq> 0" using assms by (metis push_bit_0_id id_apply)
  then obtain k where k: "shifts_left i = Suc k" by (cases "shifts_left i") auto
  then have "push_bit k (i * 2) = 0" using m by (simp add: push_bit_Suc)
  then have "shifts_left (i * 2) \<le> k" unfolding shifts_left_def by (rule Least_le)
  then show ?thesis using k by simp
qed

text \<open>\<open>for (i = 1; i; i <<= 1)\<close>: sample after each delay; the line is given from the interrupt on.\<close>

function recv_bits :: "nat \<Rightarrow> u8 \<Rightarrow> (nat \<Rightarrow> bool) \<Rightarrow> nat \<Rightarrow> u8 \<Rightarrow> u8" where
  "recv_bits step i line t d =
     (if i = 0 then d
      else recv_bits step (push_bit 1 i) line (t + step) (if line (t + step) then d OR i else d AND NOT i))"
  by pat_completeness auto
termination
  by (relation "measure (\<lambda>(step, i, line, t, d). shifts_left i)") (simp_all add: shifts_left_dec)

declare recv_bits.simps [simp del]

text \<open>The byte that is read from the line, if it shows a start bit at the interrupt.\<close>

definition sample_byte :: "timing \<Rightarrow> soft_port \<Rightarrow> (nat \<Rightarrow> bool) \<Rightarrow> u8 option" where
  "sample_byte ov p line =
     (if (if sp_inverse p then line 0 else \<not> line 0)
      then (let d = recv_bits (tunedDelay (sp_rx_intrabit p) + ov_rx ov) 1 line (tunedDelay (sp_rx_centering p) + ov_center ov) 0
            in Some (if sp_inverse p then NOT d else d))
      else None)"

text \<open>The delay over the stop bit reads nothing; the byte is stored after it.\<close>

definition recv :: "timing \<Rightarrow> nat \<Rightarrow> (nat \<Rightarrow> bool) \<Rightarrow> soft_serial \<Rightarrow> soft_serial" where
  "recv ov k line s =
     (case sample_byte ov (sw_port s k) line of
        None \<Rightarrow> s
      | Some d \<Rightarrow> if \<not> ss_full (sw_ring s) then s\<lparr>sw_ring := ss_put d (sw_ring s)\<rparr>
                  else set_port k ((sw_port s k)\<lparr>sp_overflow := True\<rparr>) s)"

definition handle_interrupt :: "timing \<Rightarrow> (nat \<Rightarrow> bool) \<Rightarrow> soft_serial \<Rightarrow> soft_serial" where
  "handle_interrupt ov line s = (case sw_active s of None \<Rightarrow> s | Some k \<Rightarrow> recv ov k line s)"

definition listen :: "nat \<Rightarrow> soft_serial \<Rightarrow> bool \<times> soft_serial" where
  "listen k s =
     (if sw_active s \<noteq> Some k
      then (True, (set_port k ((sw_port s k)\<lparr>sp_overflow := False\<rparr>) s)
              \<lparr>sw_ring := (sw_ring s)\<lparr>sr_head := 0, sr_tail := 0\<rparr>, sw_active := Some k\<rparr>)
      else (False, s))"

definition isListening :: "nat \<Rightarrow> soft_serial \<Rightarrow> bool" where
  "isListening k s \<longleftrightarrow> sw_active s = Some k"

definition overflow :: "nat \<Rightarrow> soft_serial \<Rightarrow> bool \<times> soft_serial" where
  "overflow k s = (sp_overflow (sw_port s k), set_port k ((sw_port s k)\<lparr>sp_overflow := False\<rparr>) s)"

definition SoftwareSerial_read :: "nat \<Rightarrow> soft_serial \<Rightarrow> int \<times> soft_serial" where
  "SoftwareSerial_read k s =
     (if \<not> isListening k s then (-1, s)
      else if ss_empty (sw_ring s) then (-1, s)
      else (case ss_get (sw_ring s) of (d, q) \<Rightarrow> (uint d, s\<lparr>sw_ring := q\<rparr>)))"

definition SoftwareSerial_available :: "nat \<Rightarrow> soft_serial \<Rightarrow> int" where
  "SoftwareSerial_available k s =
     (if \<not> isListening k s then 0 else (uint (sr_tail (sw_ring s)) + 64 - uint (sr_head (sw_ring s))) mod 64)"

definition SoftwareSerial_flush :: "nat \<Rightarrow> soft_serial \<Rightarrow> soft_serial" where
  "SoftwareSerial_flush k s =
     (if \<not> isListening k s then s else s\<lparr>sw_ring := (sw_ring s)\<lparr>sr_head := 0, sr_tail := 0\<rparr>\<rparr>)"

definition SoftwareSerial_peek :: "nat \<Rightarrow> soft_serial \<Rightarrow> int" where
  "SoftwareSerial_peek k s =
     (if \<not> isListening k s then -1
      else if ss_empty (sw_ring s) then -1
      else uint (sr_buffer (sw_ring s) ! unat (sr_head (sw_ring s))))"

section \<open>Sending\<close>

definition tx_pin_write :: "soft_port \<Rightarrow> bool \<Rightarrow> soft_serial \<Rightarrow> soft_serial" where
  "tx_pin_write p high s =
     (let io = sw_io s; n = sp_transmitPort p; v = io_port io n
      in s\<lparr>sw_io := io\<lparr>io_port := (io_port io)(n := if high then v OR sp_transmitBitMask p else v AND NOT (sp_transmitBitMask p))\<rparr>\<rparr>)"

definition tx_level :: "soft_port \<Rightarrow> soft_serial \<Rightarrow> bool" where
  "tx_level p s \<longleftrightarrow> io_port (sw_io s) (sp_transmitPort p) AND sp_transmitBitMask p \<noteq> 0"

text \<open>A delay holds the level of the pin.\<close>

definition hold :: "soft_port \<Rightarrow> nat \<Rightarrow> soft_serial \<Rightarrow> soft_serial" where
  "hold p cycles s = s\<lparr>sw_wave := sw_wave s @ [(tx_level p s, cycles)]\<rparr>"

function write_bits :: "timing \<Rightarrow> soft_port \<Rightarrow> u8 \<Rightarrow> u8 \<Rightarrow> soft_serial \<Rightarrow> soft_serial" where
  "write_bits ov p m b s =
     (if m = 0 then s
      else write_bits ov p (push_bit 1 m) b
             (hold p (tunedDelay (sp_tx_delay p) + ov_tx ov)
                (tx_pin_write p (if sp_inverse p then b AND m = 0 else b AND m \<noteq> 0) s)))"
  by pat_completeness auto
termination
  by (relation "measure (\<lambda>(ov, p, m, b, s). shifts_left m)") (simp_all add: shifts_left_dec)

declare write_bits.simps [simp del]

definition SoftwareSerial_write :: "timing \<Rightarrow> nat \<Rightarrow> soft_serial writer" where
  "SoftwareSerial_write ov k b s =
     (let p = sw_port s k in
      if sp_tx_delay p = 0 then Some (0, set_port k (p\<lparr>sp_writeError := True\<rparr>) s)
      else (let s1 = hold p (tunedDelay (sp_tx_delay p + XMIT_START_ADJUSTMENT) + ov_start ov) (tx_pin_write p (sp_inverse p) s);
                s2 = write_bits ov p 1 b s1
            in Some (1, hold p (tunedDelay (sp_tx_delay p) + ov_tx ov) (tx_pin_write p (\<not> sp_inverse p) s2))))"

section \<open>Set-up\<close>

definition setTX :: "u8 \<Rightarrow> nat \<Rightarrow> soft_serial \<Rightarrow> soft_serial option" where
  "setTX tx k s =
     do { io1 \<leftarrow> pinMode tx 1 (sw_io s);
          io2 \<leftarrow> digitalWrite tx 1 io1;
          m \<leftarrow> arr_get digital_pin_to_bit_mask (unat tx);
          port \<leftarrow> arr_get digital_pin_to_port (unat tx);
          Some (set_port k ((sw_port s k)\<lparr>sp_transmitBitMask := m, sp_transmitPort := port\<rparr>) (s\<lparr>sw_io := io2\<rparr>)) }"

definition setRX :: "u8 \<Rightarrow> nat \<Rightarrow> soft_serial \<Rightarrow> soft_serial option" where
  "setRX rx k s =
     do { io1 \<leftarrow> pinMode rx 0 (sw_io s);
          io2 \<leftarrow> (if \<not> sp_inverse (sw_port s k) then digitalWrite rx 1 io1 else Some io1);
          m \<leftarrow> arr_get digital_pin_to_bit_mask (unat rx);
          port \<leftarrow> arr_get digital_pin_to_port (unat rx);
          Some (set_port k ((sw_port s k)\<lparr>sp_receivePin := rx, sp_receiveBitMask := m, sp_receivePort := port\<rparr>) (s\<lparr>sw_io := io2\<rparr>)) }"

definition SoftwareSerial_ctor :: "u8 \<Rightarrow> u8 \<Rightarrow> bool \<Rightarrow> nat \<Rightarrow> soft_serial \<Rightarrow> soft_serial option" where
  "SoftwareSerial_ctor receivePin transmitPin inverse_logic k s =
     do { s1 \<leftarrow> setTX transmitPin k
            (set_port k ((sw_port s k)\<lparr>sp_rx_centering := 0, sp_rx_intrabit := 0, sp_rx_stopbit := 0, sp_tx_delay := 0,
                                       sp_overflow := False, sp_inverse := inverse_logic\<rparr>) s);
          setRX receivePin k s1 }"

fun find_delays :: "u32 \<Rightarrow> delay_row list \<Rightarrow> u16 \<times> u16 \<times> u16 \<times> u16" where
  "find_delays speed [] = (0, 0, 0, 0)"
| "find_delays speed ((baud, ds) # rows) = (if baud = speed then ds else find_delays speed rows)"

definition SoftwareSerial_begin :: "u32 \<Rightarrow> nat \<Rightarrow> soft_serial \<Rightarrow> soft_serial" where
  "SoftwareSerial_begin speed k s =
     (let (c, i, st, tx) = find_delays speed ss_table;
          p = (sw_port s k)\<lparr>sp_rx_centering := c, sp_rx_intrabit := i, sp_rx_stopbit := st, sp_tx_delay := tx\<rparr>;
          s1 = set_port k p s; pin = sp_receivePin p;
          s2 = (if st \<noteq> 0
                then hold p (tunedDelay tx)
                  (if 20 \<le> pin \<and> pin \<le> 27
                   then s1\<lparr>sw_pcicr := sw_pcicr s1 OR BV 0, sw_pcmsk0 := sw_pcmsk0 s1 OR BV (unat ((pin - 20) AND 7))\<rparr> else s1)
                else s1)
      in snd (listen k s2))"

definition SoftwareSerial_end :: "nat \<Rightarrow> soft_serial \<Rightarrow> soft_serial" where
  "SoftwareSerial_end k s =
     (let pin = sp_receivePin (sw_port s k) in
      if 20 \<le> pin \<and> pin \<le> 27 then s\<lparr>sw_pcmsk0 := sw_pcmsk0 s AND NOT (BV (unat ((pin - 20) AND 7)))\<rparr> else s)"

section \<open>The receive buffer as a queue\<close>

text \<open>The ring is that of \<open>HardwareSerial\<close> with the names of the two indices exchanged.\<close>

definition hb_of :: "soft_ring \<Rightarrow> ring_buffer" where
  "hb_of q = \<lparr>hb_buffer = sr_buffer q, hb_head = sr_tail q, hb_tail = sr_head q\<rparr>"

definition ss_inv :: "soft_ring \<Rightarrow> bool" where
  "ss_inv q \<longleftrightarrow> length (sr_buffer q) = 64 \<and> unat (sr_tail q) < 64 \<and> unat (sr_head q) < 64"

definition ss_contents :: "soft_ring \<Rightarrow> u8 list" where
  "ss_contents q = hb_contents (hb_of q)"

lemma hb_of_next: "ss_next i = hb_next i"
  by (simp add: ss_next_def hb_next_def SERIAL_BUFFER_SIZE_def)

lemma hb_of_conv:
  "ss_inv q \<longleftrightarrow> hb_inv (hb_of q)" "ss_full q \<longleftrightarrow> hb_full (hb_of q)" "ss_empty q \<longleftrightarrow> hb_empty (hb_of q)"
  "\<not> ss_full q \<Longrightarrow> hb_of (ss_put d q) = store_char d (hb_of q)"
  "fst (ss_get q) = fst (hb_take (hb_of q))" "hb_of (snd (ss_get q)) = snd (hb_take (hb_of q))"
  by (auto simp: hb_of_def ss_inv_def hb_inv_def ss_full_def hb_full_def ss_empty_def hb_empty_def ss_put_def
      store_char_def ss_get_def hb_take_def hb_of_next)

interpretation soft_ring: bounded_fifo ss_inv ss_contents "\<lambda>_. 63" ss_full ss_empty ss_put ss_get
proof unfold_locales
  show "length (ss_contents q) \<le> 63" for q using hb_len_lt [of "hb_of q"] by (simp add: ss_contents_def)
qed (simp_all add: ss_contents_def hb_of_conv serial_ring.full_iff serial_ring.empty_iff serial_ring.put_contents
    serial_ring.put_inv serial_ring.get_inv serial_ring.get_contents [symmetric])

lemma ss_contents_reset [simp]: "ss_contents (q\<lparr>sr_head := 0, sr_tail := 0\<rparr>) = []"
  by (simp add: ss_contents_def hb_of_def hb_contents_Nil_iff hb_len_def)

lemma ss_inv_reset [simp]: "ss_inv q \<Longrightarrow> ss_inv (q\<lparr>sr_head := 0, sr_tail := 0\<rparr>)"
  by (simp add: ss_inv_def)

lemma ss_length_contents:
  assumes "ss_inv q"
  shows "int (length (ss_contents q)) = (uint (sr_tail q) + 64 - uint (sr_head q)) mod 64"
proof -
  have "int ((64 + unat (sr_tail q) - unat (sr_head q)) mod 64) = (64 + int (unat (sr_tail q)) - int (unat (sr_head q))) mod 64"
    using assms by (simp add: ss_inv_def zmod_int of_nat_diff)
  then show ?thesis by (simp add: ss_contents_def hb_of_def hb_len_def add.commute)
qed

section \<open>What the receiver reads\<close>

lemma tunedDelay_passes_eq: "tunedDelay_passes n = Suc (unat n)"
proof (induction n rule: tunedDelay_passes.induct)
  case (1 n)
  show ?case
  proof (cases "n = 0")
    case True
    then show ?thesis by (simp add: tunedDelay_passes.simps)
  next
    case False
    have "n - 1 \<noteq> 0xFFFF"
    proof
      assume "n - 1 = 0xFFFF"
      then have "n - 1 = - 1" by simp
      then show False using False by (simp add: diff_eq_eq)
    qed
    then show ?thesis using 1 unat_dec [OF False] False by (simp add: tunedDelay_passes.simps [of n])
  qed
qed

lemma tunedDelay_eq [code]: "tunedDelay n = 7 * unat n + 6"
  by (simp add: tunedDelay_def tunedDelay_passes_eq)

lemma power2_u8_eq_0: "(2 :: u8) ^ n = 0 \<longleftrightarrow> 8 \<le> n"
  using exp_eq_zero_iff [of n, where 'a = 8] by simp

lemma recv_bits_step:
  "n < 8 \<Longrightarrow> recv_bits step (2 ^ n) line t d =
     recv_bits step (2 ^ Suc n) line (t + step) (if line (t + step) then set_bit n d else unset_bit n d)"
  by (subst recv_bits.simps)
    (simp add: power2_u8_eq_0 set_bit_eq_or unset_bit_eq_and_not power_Suc2 del: power_Suc)

lemma recv_bits_bit:
  "n \<le> 8 \<Longrightarrow> i < 8 \<Longrightarrow> bit (recv_bits step (2 ^ n) line t d) i =
     (if i < n then bit d i else line (t + Suc (i - n) * step))"
proof (induction "8 - n" arbitrary: n t d)
  case 0
  then have "(2 :: u8) ^ n = 0" using power2_u8_eq_0 [of n] by simp
  then show ?case using 0 by (simp add: recv_bits.simps)
next
  case (Suc m)
  then have n: "n < 8" "m = 8 - Suc n" "Suc n \<le> 8" by auto
  note IH = Suc.hyps(1) [OF n(2) n(3) Suc.prems(2)]
  consider "i < n" | "i = n" | "n < i" by linarith
  then show ?case
  proof cases
    case 3
    then have "t + step + Suc (i - Suc n) * step = t + Suc (i - n) * step"
      by (metis Suc_diff_Suc add.assoc mult_Suc)
    then show ?thesis using 3 unfolding recv_bits_step [OF n(1)] IH by (simp add: add.assoc)
  next
    case 1
    then show ?thesis unfolding recv_bits_step [OF n(1)] IH by (simp add: bit_simps)
  next
    case 2
    then show ?thesis using n unfolding recv_bits_step [OF n(1)] IH by (simp add: bit_simps)
  qed
qed

text \<open>The instants at which the bits are read and the edges between the bits that are sent.\<close>

definition sample_time :: "timing \<Rightarrow> soft_port \<Rightarrow> nat \<Rightarrow> nat" where
  "sample_time ov p i = tunedDelay (sp_rx_centering p) + ov_center ov + Suc i * (tunedDelay (sp_rx_intrabit p) + ov_rx ov)"

definition edge_time :: "timing \<Rightarrow> soft_port \<Rightarrow> nat \<Rightarrow> nat" where
  "edge_time ov p i = tunedDelay (sp_tx_delay p + XMIT_START_ADJUSTMENT) + ov_start ov + i * (tunedDelay (sp_tx_delay p) + ov_tx ov)"

definition in_sync :: "timing \<Rightarrow> soft_port \<Rightarrow> timing \<Rightarrow> soft_port \<Rightarrow> bool" where
  "in_sync ov p ov' r \<longleftrightarrow>
     list_all (\<lambda>i. edge_time ov p i \<le> sample_time ov' r i \<and> sample_time ov' r i < edge_time ov p (Suc i)) [0..<8]"

lemma sample_byte_line:
  assumes "line 0 = sp_inverse r" "\<forall>i<8. line (sample_time ov r i) = (bit b i \<noteq> sp_inverse r)"
  shows "sample_byte ov r line = Some b"
proof -
  let ?d = "recv_bits (tunedDelay (sp_rx_intrabit r) + ov_rx ov) (2 ^ 0) line
              (tunedDelay (sp_rx_centering r) + ov_center ov) 0"
  have "bit ?d i = (bit b i \<noteq> sp_inverse r)" if "i < 8" for i
    using assms(2) recv_bits_bit [of 0 i] that by (simp add: sample_time_def)
  then have "(if sp_inverse r then NOT ?d else ?d) = b"
    by (auto intro!: bit_word_eqI simp: bit_simps)
  then show ?thesis using assms(1) by (cases "sp_inverse r") (simp_all add: sample_byte_def Let_def)
qed

section \<open>What the transmitter sends\<close>

definition frame :: "timing \<Rightarrow> soft_port \<Rightarrow> u8 \<Rightarrow> (bool \<times> nat) list" where
  "frame ov p b =
     (sp_inverse p, tunedDelay (sp_tx_delay p + XMIT_START_ADJUSTMENT) + ov_start ov) #
     map (\<lambda>l. (l, tunedDelay (sp_tx_delay p) + ov_tx ov)) (map (\<lambda>i. bit b i \<noteq> sp_inverse p) [0..<8] @ [\<not> sp_inverse p])"

text \<open>The level of a wave at a time; \<open>idle\<close> after its end.\<close>

fun level_at :: "bool \<Rightarrow> (bool \<times> nat) list \<Rightarrow> nat \<Rightarrow> bool" where
  "level_at idle [] t = idle"
| "level_at idle ((l, n) # w) t = (if t < n then l else level_at idle w (t - n))"

lemma level_at_map:
  "i < length ls \<Longrightarrow> i * n \<le> t \<Longrightarrow> t < Suc i * n \<Longrightarrow> level_at idle (map (\<lambda>l. (l, n)) ls) t = ls ! i"
proof (induction ls arbitrary: i t)
  case (Cons l ls)
  then show ?case
  proof (cases i)
    case (Suc j)
    then have "j * n \<le> t - n" "t - n < Suc j * n" "\<not> t < n" using Cons.prems by auto
    then show ?thesis using Cons.IH [of j "t - n"] Cons.prems(1) Suc by simp
  qed simp
qed simp

lemma level_at_frame:
  assumes "i < 8" "edge_time ov p i \<le> t" "t < edge_time ov p (Suc i)"
  shows "level_at idle (frame ov p b) t = (bit b i \<noteq> sp_inverse p)"
proof -
  let ?T0 = "tunedDelay (sp_tx_delay p + XMIT_START_ADJUSTMENT) + ov_start ov"
  let ?ls = "map (\<lambda>i. bit b i \<noteq> sp_inverse p) [0..<8] @ [\<not> sp_inverse p]"
  have "\<not> t < ?T0" using assms by (simp add: edge_time_def)
  moreover have "level_at idle (map (\<lambda>l. (l, tunedDelay (sp_tx_delay p) + ov_tx ov)) ?ls) (t - ?T0) = ?ls ! i"
    using assms by (intro level_at_map) (auto simp: edge_time_def)
  ultimately show ?thesis using assms(1) unfolding frame_def by (simp add: nth_append del: upt_Suc upt_rec_numeral)
qed

text \<open>A frame is read back when every bit is sampled between its edges.\<close>

lemma sample_byte_frame:
  assumes "in_sync ov p ov' r" "sp_inverse r = sp_inverse p"
  shows "sample_byte ov' r (level_at idle (frame ov p b)) = Some b"
proof (rule sample_byte_line)
  show "level_at idle (frame ov p b) 0 = sp_inverse r"
    by (simp add: frame_def tunedDelay_eq assms(2))
  show "\<forall>i<8. level_at idle (frame ov p b) (sample_time ov' r i) = (bit b i \<noteq> sp_inverse r)"
  proof (intro allI impI)
    fix i :: nat
    assume "i < 8"
    then show "level_at idle (frame ov p b) (sample_time ov' r i) = (bit b i \<noteq> sp_inverse r)"
      using assms level_at_frame [of i ov p "sample_time ov' r i" idle b] by (simp add: in_sync_def list_all_iff)
  qed
qed

text \<open>Transmission changes the output register and the wave only.\<close>

definition tx_only :: "soft_serial \<Rightarrow> soft_serial \<Rightarrow> bool" where
  "tx_only s s' \<longleftrightarrow> sw_ring s' = sw_ring s \<and> sw_active s' = sw_active s \<and> sw_port s' = sw_port s \<and>
     sw_pcicr s' = sw_pcicr s \<and> sw_pcmsk0 s' = sw_pcmsk0 s"

lemma tx_step:
  assumes "sp_transmitBitMask p \<noteq> 0"
  shows "sw_wave (hold p n (tx_pin_write p l s)) = sw_wave s @ [(l, n)]" "tx_only s (hold p n (tx_pin_write p l s))"
proof -
  have "(x AND NOT (sp_transmitBitMask p)) AND sp_transmitBitMask p = 0"
     "(x OR sp_transmitBitMask p) AND sp_transmitBitMask p = sp_transmitBitMask p" for x
    by (rule bit_word_eqI; auto simp: bit_simps)+
  then show "sw_wave (hold p n (tx_pin_write p l s)) = sw_wave s @ [(l, n)]"
    using assms by (simp add: hold_def tx_pin_write_def tx_level_def Let_def)
  show "tx_only s (hold p n (tx_pin_write p l s))"
    by (simp add: tx_only_def hold_def tx_pin_write_def Let_def)
qed

lemma tx_only_trans: "tx_only s t \<Longrightarrow> tx_only t u \<Longrightarrow> tx_only s u"
  by (simp add: tx_only_def)

lemma and_exp_u8: "(b :: u8) AND 2 ^ n \<noteq> 0 \<longleftrightarrow> bit b n"
  by (simp add: and_exp_eq_0_iff_not_bit)

lemma write_bits_wave:
  assumes "sp_transmitBitMask p \<noteq> 0"
  shows "n \<le> 8 \<Longrightarrow> sw_wave (write_bits ov p (2 ^ n) b s) =
      sw_wave s @ map (\<lambda>i. (bit b i \<noteq> sp_inverse p, tunedDelay (sp_tx_delay p) + ov_tx ov)) [n..<8] \<and>
    tx_only s (write_bits ov p (2 ^ n) b s)"
proof (induction "8 - n" arbitrary: n s)
  case 0
  then have "(2 :: u8) ^ n = 0" using power2_u8_eq_0 [of n] by simp
  then show ?case using 0 by (simp add: write_bits.simps tx_only_def)
next
  case (Suc m)
  then have n: "n < 8" "m = 8 - Suc n" "Suc n \<le> 8" by auto
  let ?l = "bit b n \<noteq> sp_inverse p"
  let ?s = "hold p (tunedDelay (sp_tx_delay p) + ov_tx ov) (tx_pin_write p ?l s)"
  have "write_bits ov p (2 ^ n) b s = write_bits ov p (2 ^ Suc n) b ?s"
    using n(1) and_exp_u8 [of b n]
    by (subst write_bits.simps) (cases "bit b n"; simp add: power2_u8_eq_0 power_Suc2 del: power_Suc)
  moreover have "[n..<8] = n # [Suc n..<8]" using n(1) by (simp add: upt_conv_Cons)
  moreover note tx_step [OF assms, where n = "tunedDelay (sp_tx_delay p) + ov_tx ov" and l = ?l and s = s]
  moreover note Suc.hyps(1) [OF n(2) n(3), of ?s]
  ultimately show ?case using tx_only_trans [of s ?s] by (simp del: upt_Suc upt_rec_numeral)
qed

lemma write_frame:
  assumes "sp_transmitBitMask (sw_port s k) \<noteq> 0" "sp_tx_delay (sw_port s k) \<noteq> 0"
  shows "\<exists>s'. SoftwareSerial_write ov k b s = Some (1, s') \<and> sw_wave s' = sw_wave s @ frame ov (sw_port s k) b \<and> tx_only s s'"
proof -
  define p where "p = sw_port s k"
  define T0 where "T0 = tunedDelay (sp_tx_delay p + XMIT_START_ADJUSTMENT) + ov_start ov"
  define T where "T = tunedDelay (sp_tx_delay p) + ov_tx ov"
  define s1 where "s1 = hold p T0 (tx_pin_write p (sp_inverse p) s)"
  define s2 where "s2 = write_bits ov p 1 b s1"
  define s3 where "s3 = hold p T (tx_pin_write p (\<not> sp_inverse p) s2)"
  have m: "sp_transmitBitMask p \<noteq> 0" using assms(1) by (simp add: p_def)
  have 0: "SoftwareSerial_write ov k b s = Some (1, s3)"
    using assms(2) by (simp add: SoftwareSerial_write_def Let_def s3_def s2_def s1_def T_def T0_def p_def)
  have 1: "sw_wave s1 = sw_wave s @ [(sp_inverse p, T0)]" "tx_only s s1"
    unfolding s1_def by (rule tx_step [OF m])+
  have 2: "sw_wave s2 = sw_wave s1 @ map (\<lambda>i. (bit b i \<noteq> sp_inverse p, T)) [0..<8]" "tx_only s1 s2"
    using write_bits_wave [OF m, of 0 ov b s1] unfolding s2_def T_def by simp_all
  have 3: "sw_wave s3 = sw_wave s2 @ [(\<not> sp_inverse p, T)]" "tx_only s2 s3"
    unfolding s3_def by (rule tx_step [OF m])+
  have "sw_wave s3 = sw_wave s @ frame ov p b"
    unfolding 1(1) 2(1) 3(1) frame_def T_def T0_def map_append map_map comp_def by simp
  then show ?thesis using 0 tx_only_trans [OF tx_only_trans [OF 1(2) 2(2)] 3(2)] unfolding p_def by blast
qed

section \<open>A link between two boards\<close>

text \<open>Every rate of the table is in step when the code around the delays takes about as long as the table assumes.\<close>

definition ov_typical :: "timing \<Rightarrow> bool" where
  "ov_typical ov \<longleftrightarrow> 8 \<le> ov_start ov \<and> ov_start ov \<le> 24 \<and> 43 \<le> ov_tx ov \<and> ov_tx ov \<le> 49 \<and>
     40 \<le> ov_center ov \<and> ov_center ov \<le> 60 \<and> 9 \<le> ov_rx ov \<and> ov_rx ov \<le> 15"

definition runs_at :: "delay_row \<Rightarrow> soft_port \<Rightarrow> bool" where
  "runs_at row p \<longleftrightarrow> snd row = (sp_rx_centering p, sp_rx_intrabit p, sp_rx_stopbit p, sp_tx_delay p)"

lemma upt_8: "[0..<8] = [0, 1, 2, 3, 4, 5, 6, 7 :: nat]"
  by (simp add: upt_rec)

lemma table_in_sync:
  assumes "row \<in> set ss_table" "runs_at row p" "runs_at row r" "ov_typical ov" "ov_typical ov'"
  shows "in_sync ov p ov' r"
proof -
  obtain baud c i st tx where row: "row = (baud, c, i, st, tx)" by (cases row)
  then have p: "sp_tx_delay p = tx" and r: "sp_rx_centering r = c" "sp_rx_intrabit r = i"
    using assms(2,3) by (simp_all add: runs_at_def)
  have "(c, i, tx) \<in> (\<lambda>(baud, c, i, st, tx). (c, i, tx)) ` set ss_table" using assms(1) row by force
  then show ?thesis
    using assms(4,5) p r
    by (auto simp: ss_table_def in_sync_def upt_8 edge_time_def sample_time_def tunedDelay_eq XMIT_START_ADJUSTMENT_def ov_typical_def)
qed

lemma table_tx_nonzero: "row \<in> set ss_table \<Longrightarrow> runs_at row p \<Longrightarrow> sp_tx_delay p \<noteq> 0"
  by (auto simp: ss_table_def runs_at_def)

text \<open>
  The receiver's end of the line: each frame begins with an edge that raises the pin change interrupt, and
  the handler has returned when the next frame begins.
\<close>

function feed_wave :: "timing \<Rightarrow> bool \<Rightarrow> (bool \<times> nat) list \<Rightarrow> soft_serial \<Rightarrow> soft_serial" where
  "feed_wave ov idle w u =
     (if length w < 10 then u else feed_wave ov idle (drop 10 w) (handle_interrupt ov (level_at idle (take 10 w)) u))"
  by pat_completeness auto
termination by (relation "measure (\<lambda>(ov, idle, w, u). length w)") auto

declare feed_wave.simps [simp del]

lemma length_frame [simp]: "length (frame ov p b) = 10"
  by (simp add: frame_def)

definition soft_receiver :: "soft_port \<Rightarrow> nat \<Rightarrow> soft_serial \<Rightarrow> bool" where
  "soft_receiver r j u \<longleftrightarrow> sw_active u = Some j \<and> sw_port u j = r \<and> ss_inv (sw_ring u)"

lemma handle_interrupt_frame:
  assumes "in_sync ov p ov' r" "sp_inverse r = sp_inverse p" "soft_receiver r j u" "length (ss_contents (sw_ring u)) < 63"
  shows "soft_receiver r j (handle_interrupt ov' (level_at idle (frame ov p b)) u) \<and>
    ss_contents (sw_ring (handle_interrupt ov' (level_at idle (frame ov p b)) u)) = ss_contents (sw_ring u) @ [b]"
  using assms sample_byte_frame [OF assms(1,2), of idle b] soft_ring.full_iff [of "sw_ring u"]
  by (auto simp: soft_receiver_def handle_interrupt_def recv_def soft_ring.put_inv soft_ring.put_contents)

lemma feed_wave_frames:
  assumes "in_sync ov p ov' r" "sp_inverse r = sp_inverse p"
  shows "soft_receiver r j u \<Longrightarrow> length (ss_contents (sw_ring u)) + length xs \<le> 63 \<Longrightarrow>
    soft_receiver r j (feed_wave ov' idle (concat (map (frame ov p) xs)) u) \<and>
    ss_contents (sw_ring (feed_wave ov' idle (concat (map (frame ov p) xs)) u)) = ss_contents (sw_ring u) @ xs"
proof (induction xs arbitrary: u)
  case Nil
  then show ?case by (simp add: feed_wave.simps)
next
  case (Cons b xs)
  let ?u = "handle_interrupt ov' (level_at idle (frame ov p b)) u"
  have "feed_wave ov' idle (concat (map (frame ov p) (b # xs))) u = feed_wave ov' idle (concat (map (frame ov p) xs)) ?u"
    by (subst feed_wave.simps) simp
  then show ?case using Cons.IH [of ?u] Cons.prems handle_interrupt_frame [OF assms Cons.prems(1), of idle b] by simp
qed

text \<open>The bytes of a wave that consists of frames.\<close>

function decode_wave :: "bool \<Rightarrow> (bool \<times> nat) list \<Rightarrow> u8 list" where
  "decode_wave neg w =
     (if length w < 10 then []
      else horner_sum of_bool 2 (map (\<lambda>x. fst x \<noteq> neg) (take 8 (drop 1 w))) # decode_wave neg (drop 10 w))"
  by pat_completeness auto
termination by (relation "measure (\<lambda>(neg, w). length w)") auto

declare decode_wave.simps [simp del]

lemma frame_byte:
  "horner_sum of_bool 2 (map (\<lambda>x. fst x \<noteq> sp_inverse p) (take 8 (drop 1 (frame ov p b)))) = b"
proof -
  have "map (\<lambda>x. fst x \<noteq> sp_inverse p) (take 8 (drop 1 (frame ov p b))) = map (bit b) [0..<8]"
    by (auto simp: frame_def upt_8)
  then show ?thesis by (simp add: horner_sum_bit_eq_take_bit take_bit_word_eq_self del: upt_rec_numeral)
qed

lemma decode_frames: "decode_wave (sp_inverse p) (concat (map (frame ov p) xs)) = xs"
proof (induction xs)
  case (Cons b xs)
  have "take 8 (drop 1 (frame ov p b @ w)) = take 8 (drop 1 (frame ov p b))" for w by (simp add: frame_def)
  then show ?case using Cons frame_byte [of p ov b] by (subst decode_wave.simps) simp
qed (simp add: decode_wave.simps)

definition soft_ok :: "timing \<Rightarrow> soft_port \<Rightarrow> nat \<Rightarrow> soft_serial \<Rightarrow> bool" where
  "soft_ok ov p k s \<longleftrightarrow> sw_port s k = p \<and> sp_transmitBitMask p \<noteq> 0 \<and> sp_tx_delay p \<noteq> 0 \<and>
     sw_wave s = concat (map (frame ov p) (decode_wave (sp_inverse p) (sw_wave s)))"

interpretation soft_print: byte_sink "SoftwareSerial_write ov k" "soft_ok ov p k" "\<lambda>s. decode_wave (sp_inverse p) (sw_wave s)"
proof
  fix c
  show "emits (soft_ok ov p k) (\<lambda>s. decode_wave (sp_inverse p) (sw_wave s)) (SoftwareSerial_write ov k c) [c]"
    unfolding emits_def
  proof (intro allI impI)
    fix s
    assume ok: "soft_ok ov p k s"
    define xs where "xs = decode_wave (sp_inverse p) (sw_wave s)"
    obtain s' where s': "SoftwareSerial_write ov k c s = Some (1, s')" "sw_wave s' = sw_wave s @ frame ov p c" "tx_only s s'"
      using write_frame [of s k ov c] ok by (auto simp: soft_ok_def)
    moreover have "sw_wave s' = concat (map (frame ov p) (xs @ [c]))" using ok s'(2) by (simp add: soft_ok_def xs_def)
    ultimately show "\<exists>s'. SoftwareSerial_write ov k c s = Some (of_nat (length [c]), s') \<and> soft_ok ov p k s' \<and>
        decode_wave (sp_inverse p) (sw_wave s') = decode_wave (sp_inverse p) (sw_wave s) @ [c]"
      using ok decode_frames [of p ov "xs @ [c]"] by (auto simp: soft_ok_def tx_only_def xs_def)
  qed
qed


section \<open>Histories\<close>

text \<open>What may happen to the objects: a frame or noise on the line of the listening one, and calls of the methods.\<close>

datatype soft_op =
  Line "nat \<Rightarrow> bool" | Listen nat | Read nat | Peek nat | Available nat | Flush nat | Overflow nat

fun soft_step :: "timing \<Rightarrow> soft_op \<Rightarrow> soft_serial \<Rightarrow> int \<times> soft_serial" where
  "soft_step ov (Line line) s = (0, handle_interrupt ov line s)"
| "soft_step ov (Listen k) s = (case listen k s of (b, s') \<Rightarrow> (of_bool b, s'))"
| "soft_step ov (Read k) s = SoftwareSerial_read k s"
| "soft_step ov (Peek k) s = (SoftwareSerial_peek k s, s)"
| "soft_step ov (Available k) s = (SoftwareSerial_available k s, s)"
| "soft_step ov (Flush k) s = (0, SoftwareSerial_flush k s)"
| "soft_step ov (Overflow k) s = (case overflow k s of (b, s') \<Rightarrow> (of_bool b, s'))"

fun soft_run :: "timing \<Rightarrow> soft_op list \<Rightarrow> soft_serial \<Rightarrow> int list \<times> soft_serial" where
  "soft_run ov [] s = ([], s)"
| "soft_run ov (op # ops) s =
     (case soft_step ov op s of (r, s1) \<Rightarrow> case soft_run ov ops s1 of (rs, s2) \<Rightarrow> (r # rs, s2))"

text \<open>
  The specification: who listens, one queue of at most 63 bytes that belongs to the listener, and a flag for
  each object; \<open>heard k\<close> is what object \<open>k\<close> makes of a line.
\<close>

type_synonym soft_spec = "nat option \<times> u8 list \<times> (nat \<Rightarrow> bool)"

fun spec_step :: "(nat \<Rightarrow> (nat \<Rightarrow> bool) \<Rightarrow> u8 option) \<Rightarrow> soft_op \<Rightarrow> soft_spec \<Rightarrow> int \<times> soft_spec" where
  "spec_step heard (Line line) (a, q, f) =
     (0, case a of None \<Rightarrow> (a, q, f)
         | Some k \<Rightarrow> (case heard k line of None \<Rightarrow> (a, q, f)
                      | Some d \<Rightarrow> if length q < 63 then (a, q @ [d], f) else (a, q, f(k := True))))"
| "spec_step heard (Listen k) (a, q, f) = (if a = Some k then (0, a, q, f) else (1, Some k, [], f(k := False)))"
| "spec_step heard (Read k) (a, q, f) = (if a = Some k \<and> q \<noteq> [] then (uint (hd q), a, tl q, f) else (-1, a, q, f))"
| "spec_step heard (Peek k) (a, q, f) = (if a = Some k \<and> q \<noteq> [] then uint (hd q) else -1, a, q, f)"
| "spec_step heard (Available k) (a, q, f) = (if a = Some k then int (length q) else 0, a, q, f)"
| "spec_step heard (Flush k) (a, q, f) = (0, a, if a = Some k then [] else q, f)"
| "spec_step heard (Overflow k) (a, q, f) = (of_bool (f k), a, q, f(k := False))"

fun spec_run :: "(nat \<Rightarrow> (nat \<Rightarrow> bool) \<Rightarrow> u8 option) \<Rightarrow> soft_op list \<Rightarrow> soft_spec \<Rightarrow> int list \<times> soft_spec" where
  "spec_run heard [] t = ([], t)"
| "spec_run heard (op # ops) t =
     (case spec_step heard op t of (r, t1) \<Rightarrow> case spec_run heard ops t1 of (rs, t2) \<Rightarrow> (r # rs, t2))"

definition soft_abs :: "soft_serial \<Rightarrow> soft_spec" where
  "soft_abs s = (sw_active s, ss_contents (sw_ring s), \<lambda>k. sp_overflow (sw_port s k))"

definition soft_heard :: "timing \<Rightarrow> soft_serial \<Rightarrow> nat \<Rightarrow> (nat \<Rightarrow> bool) \<Rightarrow> u8 option" where
  "soft_heard ov s k = sample_byte ov (sw_port s k)"

lemma sample_byte_overflow [simp]: "sample_byte ov (p\<lparr>sp_overflow := x\<rparr>) = sample_byte ov p"
  by (rule ext) (simp add: sample_byte_def)

lemma soft_heard_set [simp]: "soft_heard ov (set_port k ((sw_port s k)\<lparr>sp_overflow := x\<rparr>) s) = soft_heard ov s"
  by (auto simp: soft_heard_def set_port_def)

lemma sp_overflow_set [simp]:
  "(\<lambda>j. sp_overflow (sw_port (set_port k ((sw_port s k)\<lparr>sp_overflow := x\<rparr>) s) j)) = (\<lambda>j. sp_overflow (sw_port s j))(k := x)"
  by (auto simp: set_port_def)

lemma set_port_frame [simp]:
  "sw_ring (set_port k p s) = sw_ring s" "sw_active (set_port k p s) = sw_active s"
  by (simp_all add: set_port_def)

lemma recv_refines:
  assumes "ss_inv (sw_ring s)" "sw_active s = Some k"
  shows "soft_abs (recv ov k line s) = snd (spec_step (soft_heard ov s) (Line line) (soft_abs s)) \<and>
    ss_inv (sw_ring (recv ov k line s)) \<and> soft_heard ov (recv ov k line s) = soft_heard ov s"
proof (cases "sample_byte ov (sw_port s k) line")
  case None
  then show ?thesis using assms by (simp add: recv_def soft_abs_def soft_heard_def)
next
  case (Some d)
  have full: "ss_full (sw_ring s) \<longleftrightarrow> \<not> length (ss_contents (sw_ring s)) < 63"
    using soft_ring.full_iff [OF assms(1)] soft_ring.contents_bound [OF assms(1)] by linarith
  show ?thesis
  proof (cases "ss_full (sw_ring s)")
    case True
    then have "recv ov k line s = set_port k ((sw_port s k)\<lparr>sp_overflow := True\<rparr>) s" using Some by (simp add: recv_def)
    then show ?thesis using assms True full Some by (simp add: soft_abs_def) (simp add: soft_heard_def)
  next
    case False
    then have "recv ov k line s = s\<lparr>sw_ring := ss_put d (sw_ring s)\<rparr>" using Some by (simp add: recv_def)
    then show ?thesis using assms False full Some
      by (simp add: soft_abs_def soft_ring.put_contents soft_ring.put_inv) (simp add: soft_heard_def fun_eq_iff)
  qed
qed

lemma SoftwareSerial_read_refines:
  assumes "ss_inv (sw_ring s)"
  shows "SoftwareSerial_read k s = (r, s') \<Longrightarrow>
    (r, soft_abs s') = spec_step h (Read k) (soft_abs s) \<and> ss_inv (sw_ring s') \<and> soft_heard ov s' = soft_heard ov s"
  using assms soft_ring.empty_iff [OF assms] soft_ring.get_contents [OF assms] soft_ring.get_inv [OF assms]
  by (auto simp: SoftwareSerial_read_def isListening_def soft_abs_def soft_heard_def split: if_splits prod.splits)

lemma SoftwareSerial_peek_refines:
  assumes "ss_inv (sw_ring s)"
  shows "(SoftwareSerial_peek k s, soft_abs s) = spec_step h (Peek k) (soft_abs s)"
  using soft_ring.empty_iff [OF assms] soft_ring.get_contents [OF assms]
  by (auto simp: SoftwareSerial_peek_def isListening_def soft_abs_def ss_get_def)

lemma soft_step_refines:
  assumes "ss_inv (sw_ring s)" "soft_step ov op s = (r, s')"
  shows "spec_step (soft_heard ov s) op (soft_abs s) = (r, soft_abs s') \<and> ss_inv (sw_ring s') \<and> soft_heard ov s' = soft_heard ov s"
proof (cases op)
  case (Line line)
  show ?thesis
  proof (cases "sw_active s")
    case None
    then show ?thesis using assms Line by (auto simp: handle_interrupt_def soft_abs_def)
  next
    case (Some k)
    then have "s' = recv ov k line s" "r = 0" using assms(2) Line by (auto simp: handle_interrupt_def)
    then show ?thesis using recv_refines [OF assms(1) Some, of ov line] Line by (cases "soft_abs s") simp
  qed
next
  case (Listen k)
  then show ?thesis using assms
    by (auto simp: listen_def soft_abs_def split: if_splits) (auto simp: soft_heard_def set_port_def)
next
  case (Read k)
  then show ?thesis using SoftwareSerial_read_refines [OF assms(1), of k r s' "soft_heard ov s" ov] assms(2) by simp
next
  case (Peek k)
  then show ?thesis using SoftwareSerial_peek_refines [OF assms(1), of k "soft_heard ov s"] assms by auto
next
  case (Available k)
  then show ?thesis using ss_length_contents [OF assms(1)] assms
    by (auto simp: SoftwareSerial_available_def isListening_def soft_abs_def)
next
  case (Flush k)
  then show ?thesis using assms
    by (auto simp: SoftwareSerial_flush_def isListening_def soft_abs_def soft_heard_def)
next
  case (Overflow k)
  then show ?thesis using assms by (auto simp: overflow_def soft_abs_def)
qed

text \<open>
  C39: Every history of frames, line noise and method calls on any number of \<open>SoftwareSerial\<close> objects gives
  the results of the specification: only the listening object receives and reads, bytes come out in the order
  of their frames, at most 63 wait, a byte beyond them is dropped and flagged on the object, and changing the
  listener empties the shared buffer.
\<close>

theorem soft_serial_refines:
  assumes "ss_inv (sw_ring s)" "soft_run ov ops s = (rs, s')"
  shows "spec_run (soft_heard ov s) ops (soft_abs s) = (rs, soft_abs s') \<and> ss_inv (sw_ring s')"
  using assms
proof (induction ops arbitrary: s rs)
  case Nil
  then show ?case by simp
next
  case (Cons op ops)
  obtain r s1 where step: "soft_step ov op s = (r, s1)" by fastforce
  obtain rs1 where run: "soft_run ov ops s1 = (rs1, s')" "rs = r # rs1"
    using Cons.prems(2) step by (auto split: prod.splits)
  note ref = soft_step_refines [OF Cons.prems(1) step]
  then show ?case using Cons.IH [OF _ run(1)] run(2) by simp
qed

section \<open>Setting up\<close>

lemma digitalWrite_high:
  assumes "unat pin < 48"
  shows "\<exists>io'. digitalWrite pin 1 io = Some io' \<and>
    (\<forall>q n. bit (io_port io' q) n = ((q, n) = (unat pin div 8 + 1, unat pin mod 8) \<or> bit (io_port io q) n))"
proof -
  have pin: "pin < 48" using assms by (simp add: word_less_nat_alt)
  show ?thesis by (rule digitalWrite_ex [OF pin, of 1 io]) (auto simp: all_conj_distrib)
qed

lemma pinMode_others:
  assumes "unat pin < 48"
  shows "\<exists>io'. pinMode pin mode io = Some io' \<and>
    (\<forall>q n. (q, n) \<noteq> (unat pin div 8 + 1, unat pin mod 8) \<longrightarrow> bit (io_port io' q) n = bit (io_port io q) n)"
proof -
  have pin: "pin < 48" using assms by (simp add: word_less_nat_alt)
  obtain io2 where "pinMode pin mode io = Some io2" "\<forall>q n. bit (io_port io2 q) n =
       (if (q, n) = (unat pin div 8 + 1, unat pin mod 8) \<and> (mode = 0 \<or> mode = 2) then mode = 2 else bit (io_port io q) n)"
    using pins_independent [OF pin, of 0 io mode] by blast
  then show ?thesis by (intro exI [of _ io2]) auto
qed

lemma setTX_ok:
  assumes "unat tx < 48"
  obtains io where "setTX tx k s = Some (set_port k ((sw_port s k)\<lparr>sp_transmitBitMask := BV (unat tx mod 8),
      sp_transmitPort := unat tx div 8 + 1\<rparr>) (s\<lparr>sw_io := io\<rparr>))" "bit (io_port io (unat tx div 8 + 1)) (unat tx mod 8)"
proof -
  obtain io1 where 1: "pinMode tx 1 (sw_io s) = Some io1" using pinMode_others [OF assms] by blast
  obtain io2 where "digitalWrite tx 1 io1 = Some io2" "bit (io_port io2 (unat tx div 8 + 1)) (unat tx mod 8)"
    using digitalWrite_high [OF assms, of io1] by blast
  then show thesis using that 1 pin_tables [OF assms] by (simp add: setTX_def)
qed

lemma setRX_ok:
  assumes "unat rx < 48"
  obtains io where "setRX rx k s = Some (set_port k ((sw_port s k)\<lparr>sp_receivePin := rx, sp_receiveBitMask := BV (unat rx mod 8),
      sp_receivePort := unat rx div 8 + 1\<rparr>) (s\<lparr>sw_io := io\<rparr>))"
    "\<And>q n. (q, n) \<noteq> (unat rx div 8 + 1, unat rx mod 8) \<Longrightarrow> bit (io_port io q) n = bit (io_port (sw_io s) q) n"
proof -
  obtain io1 where 1: "pinMode rx 0 (sw_io s) = Some io1"
    "\<forall>q n. (q, n) \<noteq> (unat rx div 8 + 1, unat rx mod 8) \<longrightarrow> bit (io_port io1 q) n = bit (io_port (sw_io s) q) n"
    using pinMode_others [OF assms] by blast
  obtain io2 where 2: "(if \<not> sp_inverse (sw_port s k) then digitalWrite rx 1 io1 else Some io1) = Some io2"
    "\<forall>q n. (q, n) \<noteq> (unat rx div 8 + 1, unat rx mod 8) \<longrightarrow> bit (io_port io2 q) n = bit (io_port io1 q) n"
    using digitalWrite_high [OF assms, of io1] by (cases "sp_inverse (sw_port s k)") auto
  show thesis
  proof (rule that [of io2])
    show "setRX rx k s = Some (set_port k ((sw_port s k)\<lparr>sp_receivePin := rx, sp_receiveBitMask := BV (unat rx mod 8),
        sp_receivePort := unat rx div 8 + 1\<rparr>) (s\<lparr>sw_io := io2\<rparr>))"
      using 1(1) 2(1) pin_tables [OF assms] by (simp add: setRX_def)
  qed (use 1(2) 2(2) in blast)
qed

lemma tx_level_BV:
  assumes "sp_transmitBitMask p = BV n" "n < 8"
  shows "tx_level p s = bit (io_port (sw_io s) (sp_transmitPort p)) n" "sp_transmitBitMask p \<noteq> 0"
proof -
  have "BV n = 2 ^ n" by (simp add: BV_def)
  then show "tx_level p s = bit (io_port (sw_io s) (sp_transmitPort p)) n" "sp_transmitBitMask p \<noteq> 0"
    using assms and_exp_u8 [of _ n] power2_u8_eq_0 [of n] by (simp_all add: tx_level_def)
qed

lemma find_delays_table:
  "(speed, ds) \<in> set ss_table \<Longrightarrow> find_delays speed ss_table = ds \<and> fst (snd (snd ds)) \<noteq> 0"
  by (auto simp: ss_table_def)

lemma pcint_bit: "20 \<le> unat (p :: u8) \<Longrightarrow> unat p \<le> 27 \<Longrightarrow> unat ((p - 20) AND 7) = unat p - 20"
proof -
  assume p: "20 \<le> unat p" "unat p \<le> 27"
  then have "unat p \<in> set [20..<28]" by auto
  moreover have "list_all (\<lambda>n. unat (((of_nat n :: u8) - 20) AND 7) = n - 20) [20..<28]" by code_simp
  ultimately have "unat (((of_nat (unat p) :: u8) - 20) AND 7) = unat p - 20" unfolding list_all_iff by blast
  then show ?thesis by simp
qed

lemma begin_ready:
  assumes "(speed, c, i, st, tx) \<in> set ss_table" "sw_active s \<noteq> Some k" "ss_inv (sw_ring s)"
  defines "p \<equiv> (sw_port s k)\<lparr>sp_rx_centering := c, sp_rx_intrabit := i, sp_rx_stopbit := st, sp_tx_delay := tx, sp_overflow := False\<rparr>"
  shows "sw_port (SoftwareSerial_begin speed k s) k = p" "soft_receiver p k (SoftwareSerial_begin speed k s)"
    "ss_contents (sw_ring (SoftwareSerial_begin speed k s)) = []" "sw_io (SoftwareSerial_begin speed k s) = sw_io s"
    "sw_pcmsk0 (SoftwareSerial_begin speed k s) =
       (if 20 \<le> unat (sp_receivePin p) \<and> unat (sp_receivePin p) \<le> 27 then sw_pcmsk0 s OR BV (unat (sp_receivePin p) - 20)
        else sw_pcmsk0 s)"
  using assms find_delays_table [OF assms(1)]
  by (simp_all add: SoftwareSerial_begin_def Let_def listen_def hold_def soft_receiver_def set_port_def word_le_nat_alt pcint_bit)


section \<open>Examples\<close>

definition ov_ex :: timing where
  "ov_ex = \<lparr>ov_start = 14, ov_tx = 46, ov_center = 50, ov_rx = 12\<rparr>"

definition soft_port_ex :: "bool \<Rightarrow> soft_port" where
  "soft_port_ex neg = \<lparr>sp_receivePin = 20, sp_receiveBitMask = 16, sp_receivePort = 3, sp_transmitBitMask = 32, sp_transmitPort = 3,
     sp_rx_centering = 114, sp_rx_intrabit = 236, sp_rx_stopbit = 236, sp_tx_delay = 233, sp_overflow = False,
     sp_inverse = neg, sp_writeError = False\<rparr>"

definition soft_ex :: "bool \<Rightarrow> nat option \<Rightarrow> soft_serial" where
  "soft_ex neg a = \<lparr>sw_io = io_reset, sw_ring = \<lparr>sr_buffer = replicate 64 0, sr_tail = 0, sr_head = 0\<rparr>, sw_active = a,
     sw_port = \<lambda>_. soft_port_ex neg, sw_pcicr = 0, sw_pcmsk0 = 0, sw_wave = []\<rparr>"

lemma soft_ex_ok:
  "ov_typical ov_ex" "runs_at (9600, 114, 236, 236, 233) (soft_port_ex neg)" "sp_transmitBitMask (soft_port_ex neg) \<noteq> 0"
  "sp_inverse (soft_port_ex neg) = neg" "sw_port (soft_ex neg a) k = soft_port_ex neg" "sw_wave (soft_ex neg a) = []"
  "ss_inv (sw_ring (soft_ex neg a))" "ss_contents (sw_ring (soft_ex neg a)) = []" "sw_active (soft_ex neg a) = a"
  by (simp_all add: ov_typical_def ov_ex_def runs_at_def soft_port_ex_def soft_ex_def ss_inv_def ss_contents_def hb_of_def
      hb_contents_Nil_iff hb_len_def)


theorem soft_serial_refines_witness:
  "\<exists>s'. soft_run ov_ex [Listen 1, Line (level_at True (frame ov_ex (soft_port_ex False) 65)), Read 0, Peek 1, Read 1, Read 1]
      (soft_ex False None) = ([1, 0, -1, 65, 65, -1], s') \<and> ss_inv (sw_ring s')"
proof -
  let ?ops = "[Listen 1, Line (level_at True (frame ov_ex (soft_port_ex False) 65)), Read 0, Peek 1, Read 1, Read 1]"
  obtain rs s' where run: "soft_run ov_ex ?ops (soft_ex False None) = (rs, s')" by fastforce
  have row: "(9600, 114, 236, 236, 233) \<in> set ss_table" by (simp add: ss_table_def)
  have "soft_heard ov_ex (soft_ex False None) 1 (level_at True (frame ov_ex (soft_port_ex False) 65)) = Some 65"
    using sample_byte_frame [OF table_in_sync [OF row soft_ex_ok(2,2,1,1)], of False False True 65]
    by (simp add: soft_heard_def soft_ex_ok)
  then have "rs = [1, 0, -1, 65, 65, -1]" "ss_inv (sw_ring s')"
    using soft_serial_refines [OF _ run] by (auto simp: soft_ex_ok soft_abs_def)
  then show ?thesis using run by blast
qed


end
