(* ===== verification/Spec2Isabelle.thy ===== *)
theory Spec2Isabelle
  imports LUFA_RingBuffer Arduino_HardwareSerial Arduino_WString Boot_CDC LUFA_Device Arduino_Print
    Wiring_Time Wiring_Pins Arduino_Stream USB_Serial Wire_TWI Software_Serial
begin

text \<open>
  \<^bold>\<open>Verification of the AT90USB support package for Arduino.\<close>

  \<^bold>\<open>The program.\<close>  The repository is a hardware package for the Arduino environment: a core for the
  AT90USB parts of Atmel (\<open>hardware/DynamicPerception/avr/cores/AT90USB\<close>), which replaces the Arduino
  core and contains a copy of the USB stack LUFA, pin tables (\<open>variants\<close>), libraries (\<open>libraries\<close>), and a
  CDC boot loader (\<open>bootloaders\<close>).  A sketch calls the core; the core drives the UART, the timers and
  the ports, prints through the class \<open>Print\<close>, reads through the class \<open>Stream\<close>, keeps text in the class
  \<open>String\<close>, and appears to the host as a USB serial port through LUFA.  The boot loader is a program of
  its own on the same USB stack: it receives AVR910 commands over the virtual serial port and programs
  the flash memory.

  \<^bold>\<open>Theories.\<close>
  \<^item> \<open>AVR_Prelude\<close>: machine words, register macros, bounds-checked arrays, the occupied part of a ring.
  \<^item> \<open>Fifo_Interface\<close>: the locale of bounded byte queues and what a client of such a queue may rely on.
  \<^item> \<open>LUFA_RingBuffer\<close>: \<open>LUFA/Drivers/Misc/RingBuffer.h\<close>, an interpretation of the queue, and its use by one
    inserting and one removing thread.
  \<^item> \<open>Arduino_HardwareSerial\<close>: \<open>HardwareSerial.cpp\<close> with the UART as environment steps between the
    statements of the driver; its two buffers are interpretations of the queue.
  \<^item> \<open>C_Strings\<close>: the functions of \<open>string.h\<close> and \<open>stdlib.h\<close> that the core calls.
  \<^item> \<open>Arduino_WString\<close>: \<open>WString.cpp\<close>, every method on a heap block that may be missing.
  \<^item> \<open>Arduino_Print\<close>: \<open>Print.cpp\<close> over an arbitrary byte writer (locale \<open>byte_sink\<close>), interpreted on the
    hardware serial port.
  \<^item> \<open>Wiring_Time\<close>, \<open>Wiring_Pins\<close>: \<open>wiring.c\<close>; \<open>wiring_digital.c\<close>, \<open>wiring_analog.c\<close>, \<open>wiring_shift.c\<close>,
    \<open>wiring_pulse.c\<close>, \<open>WInterrupts.c\<close> and the tables of \<open>pins_arduino.h\<close>.
  \<^item> \<open>LUFA_Descriptors\<close>: \<open>ConfigDescriptors.c\<close>, and the descriptors of the serial port and the boot loader.
  \<^item> \<open>LUFA_Device\<close>: \<open>DeviceStandardReq.c\<close>, the control endpoint streams and the device task.
  \<^item> \<open>Boot_CDC\<close>: \<open>bootloaders/AT90usb128X/CDC/BootloaderCDC.c\<close> and \<open>BootloaderAPI.c\<close> with the
    self-programming hardware.

  \<^bold>\<open>Conventions.\<close>  A struct or class is a record whose fields carry a prefix of the component; integers
  have the width of avr-gcc (\<open>int\<close> is 16 bits, \<open>long\<close> 32, plain \<open>char\<close> unsigned in C++ files).  A read or
  write outside an object is the value \<open>None\<close>, and so is an operation that does not return: wait loops
  are \<open>partial_function (option)\<close> or consume a finite history of what the hardware shows and have no
  result when the history ends first.  A theorem that an operation returns is stated as such.
  No fuel is used; where a loop is bounded by an array its termination is proved.
  Allocation, the application's descriptor callback, the connected device of a shift register and
  the host's control requests are arguments of the definitions.

  \<^bold>\<open>What is shown.\<close>  Queues: the ring buffers refine lists, alone and between two threads.  Serial
  port: received and sent bytes keep their order, the baud rate is the nearest, and two hangs and a
  stale interrupt flag are exhibited.  Strings: every sequence of operations refines the operation on
  texts, searches and \<open>replace\<close> are correct where they do not overflow, and the inputs on which they do
  are characterised.  Printing: numbers are printed as the library conversions print them, and text
  unchanged.  Time: \<open>millis\<close>, \<open>micros\<close> and \<open>delay\<close> are exact under wrap-around and races.  Pins: the
  operations are independent, bytes survive shifting, interrupts reach their functions, and one pin
  cannot be taken back from its timer.  USB: descriptors are well formed and found, enumeration
  succeeds, packets are prefixes of the answer, stalled requests change nothing.  Boot loader: written
  blocks are read back, other memory is unchanged, responses are framed, and the addresses it cannot
  program are determined.

  \<^bold>\<open>Not modelled.\<close>  The assembly and register set-up parts of the boot loader, the USB interrupt and
  endpoint configuration code, host mode, \<open>print(double)\<close>; the libraries; the upstream copy of LUFA
  under \<open>LUFA-130303\<close> with its demos, projects and ports to other processors, which no sketch uses.
\<close>

end
